(* ===== verification/Zelda_Prelude.thy ===== *)
theory Zelda_Prelude
  imports Main "HOL-Library.Word"
begin

text \<open>
  Shared vocabulary of the development: machine words, C bit-fields, the byte-addressed physical
  memory, page alignment, the outcomes of code that may halt the machine, and the kernel's error
  codes.  Every component theory imports this one.
\<close>

section \<open>Words and bit-fields\<close>

unbundle bit_operations_syntax

type_synonym u8 = "8 word"
type_synonym u16 = "16 word"
type_synonym u32 = "32 word"
type_synonym u64 = "64 word"

text \<open>
  Two collections carry the component proofs: reading a bit-field after a write to the same or to a
  disjoint one, and reading memory after a store.
\<close>

named_theorems bf_simps
named_theorems mem_simps

text \<open>
  A C bit-field of width \<open>len\<close> at bit \<open>lo\<close> of its storage unit.  \<open>bf_shl\<close> is the shift of a
  bit-field whose declared width exceeds that of \<open>int\<close>: the compiler does not promote it, so
  the result keeps the width of the field.
\<close>

definition bf_get :: "nat \<Rightarrow> nat \<Rightarrow> 'a::len word \<Rightarrow> 'a word" where
  "bf_get lo len w = take_bit len (drop_bit lo w)"

definition bf_set :: "nat \<Rightarrow> nat \<Rightarrow> 'a::len word \<Rightarrow> 'a word \<Rightarrow> 'a word" where
  "bf_set lo len v w = (w AND NOT (push_bit lo (mask len))) OR push_bit lo (take_bit len v)"

definition bf_shl :: "nat \<Rightarrow> nat \<Rightarrow> 'a::len word \<Rightarrow> 'a word" where
  "bf_shl len n v = take_bit len (push_bit n v)"

lemma bit_bf_get: "bit (bf_get lo len w) n \<longleftrightarrow> n < len \<and> bit w (lo + n)"
  for w :: "'a::len word"
  by (simp add: bf_get_def bit_simps)

lemma bit_bf_set:
  "bit (bf_set lo len v w) n \<longleftrightarrow>
     (if lo \<le> n \<and> n < lo + len then n < LENGTH('a) \<and> bit v (n - lo) else bit w n)"
  for w :: "'a::len word"
  by (auto simp add: bf_set_def bit_simps dest: bit_imp_le_length)

lemma bf_get_set_same [bf_simps]:
  "lo + len \<le> LENGTH('a) \<Longrightarrow> bf_get lo len (bf_set lo len v w) = take_bit len v"
  for w :: "'a::len word"
  by (rule bit_word_eqI) (auto simp: bit_bf_get bit_bf_set bit_simps)

lemma bf_get_set_other [bf_simps]:
  "lo + len \<le> lo' \<or> lo' + len' \<le> lo \<Longrightarrow>
   bf_get lo len (bf_set lo' len' v w) = bf_get lo len w"
  for w :: "'a::len word"
  by (rule bit_word_eqI) (auto simp: bit_bf_get bit_bf_set)

lemma bf_get_0 [bf_simps, simp]: "bf_get lo len 0 = 0"
  by (simp add: bf_get_def)

lemma bf_bit_iff [bf_simps]: "bf_get k (Suc 0) e = 0 \<longleftrightarrow> \<not> bit e k" for e :: "'a::len word"
proof
  assume "bf_get k (Suc 0) e = 0"
  then have "\<not> bit (bf_get k (Suc 0) e) 0" by simp
  then show "\<not> bit e k" by (simp add: bit_bf_get)
next
  assume "\<not> bit e k"
  then show "bf_get k (Suc 0) e = 0"
    by (intro bit_word_eqI) (auto simp: bit_bf_get)
qed

lemma take_bit_full [simp]: "take_bit 64 w = w" for w :: u64
  by (simp add: take_bit_word_eq_self)

text \<open>Case analysis over the small values of a byte.\<close>

lemma u8_below:
  fixes k :: u8
  assumes "k < of_nat n" "n < 256"
  shows "k \<in> set (map of_nat [0..<n])"
proof -
  have "unat k < n" using assms by (simp add: word_less_nat_alt unat_of_nat take_bit_eq_mod)
  then show ?thesis unfolding set_map by (intro image_eqI [of _ _ "unat k"]) simp_all
qed

lemma bit_imp_unat_ge: "bit w n \<Longrightarrow> 2 ^ n \<le> unat w" for w :: "'a::len word"
proof -
  assume "bit w n"
  then have "bit (unat w) n" by (simp add: bit_unsigned_iff)
  then have "odd (unat w div 2 ^ n)" by (simp add: bit_iff_odd)
  then have "unat w div 2 ^ n \<noteq> 0" by (intro notI) simp
  then show ?thesis by (simp add: div_eq_0_iff not_less)
qed

section \<open>Physical memory\<close>

type_synonym mem = "u64 \<Rightarrow> u8"

definition load_bytes :: "mem \<Rightarrow> u64 \<Rightarrow> nat \<Rightarrow> u8 list" where
  "load_bytes m a n = map (\<lambda>i. m (a + of_nat i)) [0..<n]"

definition store_bytes :: "mem \<Rightarrow> u64 \<Rightarrow> u8 list \<Rightarrow> mem" where
  "store_bytes m a bs = (\<lambda>x. if unat (x - a) < length bs then bs ! unat (x - a) else m x)"

fun from_le :: "u8 list \<Rightarrow> 'a::len word" where
  "from_le [] = 0"
| "from_le (b # bs) = ucast b OR push_bit 8 (from_le bs)"

definition to_le :: "nat \<Rightarrow> 'a::len word \<Rightarrow> u8 list" where
  "to_le n w = map (\<lambda>i. ucast (drop_bit (8 * i) w)) [0..<n]"

definition load64 :: "mem \<Rightarrow> u64 \<Rightarrow> u64" where
  "load64 m a = from_le (load_bytes m a 8)"

definition load32 :: "mem \<Rightarrow> u64 \<Rightarrow> u32" where
  "load32 m a = from_le (load_bytes m a 4)"

definition store64 :: "mem \<Rightarrow> u64 \<Rightarrow> u64 \<Rightarrow> mem" where
  "store64 m a v = store_bytes m a (to_le 8 v)"

definition memset :: "mem \<Rightarrow> u64 \<Rightarrow> u8 \<Rightarrow> u64 \<Rightarrow> mem" where
  "memset m dst v sz = (\<lambda>x. if x - dst < sz then v else m x)"

lemma bit_from_le:
  "bit (from_le bs :: 'a::len word) n \<longleftrightarrow>
     n < LENGTH('a) \<and> n div 8 < length bs \<and> bit (bs ! (n div 8)) (n mod 8)"
proof (induction bs arbitrary: n)
  case Nil
  then show ?case by simp
next
  case (Cons b bs)
  show ?case
  proof (cases "n < 8")
    case True
    then show ?thesis by (auto simp: bit_simps)
  next
    case False
    then have "n div 8 = Suc ((n - 8) div 8)" "n mod 8 = (n - 8) mod 8"
      by (simp_all add: le_div_geq le_mod_geq)
    with False show ?thesis
      by (auto simp: bit_simps Cons.IH dest: bit_imp_le_length)
  qed
qed

lemma length_to_le [simp]: "length (to_le n w) = n"
  by (simp add: to_le_def)

lemma from_le_to_le:
  "LENGTH('a) \<le> 8 * n \<Longrightarrow> from_le (to_le n w) = w" for w :: "'a::len word"
  by (rule bit_word_eqI) (auto simp: bit_from_le to_le_def bit_simps less_mult_imp_div_less mult.commute)

lemma load_bytes_store_same:
  "length bs \<le> 2 ^ 32 \<Longrightarrow> load_bytes (store_bytes m a bs) a (length bs) = bs"
  by (rule nth_equalityI)
    (simp_all add: load_bytes_def store_bytes_def unat_of_nat take_bit_eq_mod)

lemma load64_store64_same [mem_simps]: "load64 (store64 m a v) a = v"
  using load_bytes_store_same [of "to_le 8 v" m a]
  by (simp add: load64_def store64_def from_le_to_le)

lemma load64_cong:
  assumes "\<And>i. i < 8 \<Longrightarrow> m (a + of_nat i) = m' (a + of_nat i)"
  shows "load64 m a = load64 m' a"
proof -
  have "load_bytes m a 8 = load_bytes m' a 8"
    unfolding load_bytes_def using assms by (intro map_cong) auto
  then show ?thesis by (simp add: load64_def)
qed

subsection \<open>Alignment and page frames\<close>

definition aligned :: "nat \<Rightarrow> u64 \<Rightarrow> bool" where
  "aligned n a \<longleftrightarrow> take_bit n a = 0"

lemma aligned_iff_dvd: "aligned n a \<longleftrightarrow> 2 ^ n dvd unat a"
proof -
  have "take_bit n a = 0 \<longleftrightarrow> unat (take_bit n a) = 0"
    by (rule unat_eq_0 [symmetric])
  also have "\<dots> \<longleftrightarrow> take_bit n (unat a) = 0"
    by (simp only: unsigned_take_bit_eq)
  also have "\<dots> \<longleftrightarrow> 2 ^ n dvd unat a"
    by (simp only: take_bit_eq_mod dvd_eq_mod_eq_0)
  finally show ?thesis by (simp add: aligned_def)
qed

lemma aligned_bitD: "aligned k a \<Longrightarrow> bit a n \<Longrightarrow> k \<le> n"
  using bit_take_bit_iff [of k a n] by (fastforce simp: aligned_def)

lemma bit_below: "unat a < 2 ^ k \<Longrightarrow> bit a n \<Longrightarrow> n < k" for a :: u64
  using bit_imp_unat_ge [of a n]
  by (meson le_less_trans linorder_not_less power_increasing_iff one_less_numeral_iff
    semiring_norm(76) le_trans)

lemma aligned_0 [simp]: "aligned n 0"
  by (simp add: aligned_def)

lemma aligned_mono: "aligned n a \<Longrightarrow> k \<le> n \<Longrightarrow> aligned k a"
  by (auto simp: aligned_iff_dvd intro: power_le_dvd)

lemma unat_u64_less: "unat a < 18446744073709551616" for a :: u64
  using unsigned_less [of a] by simp

lemma u64_eq_iff: "a = b \<longleftrightarrow> unat a = unat b" for a b :: u64
  by (auto intro: unsigned_word_eqI)

lemma div_eq_iff_range:
  fixes n m k :: nat
  assumes "0 < m"
  shows "n div m = k \<longleftrightarrow> m * k \<le> n \<and> n < m * Suc k"
  using assms by (metis div_nat_eqI dividend_less_times_div mult.commute mult_Suc_right times_div_less_eq_dividend)

lemma unat_field: "unat (take_bit n (drop_bit k a)) = unat a div 2 ^ k mod 2 ^ n" for a :: "'a::len word"
  by (simp only: unsigned_take_bit_eq unat_drop_bit_eq) (simp add: take_bit_eq_mod drop_bit_eq_div)

lemma unat_drop_bit_div: "unat (drop_bit n a) = unat a div 2 ^ n" for a :: "'a::len word"
  by (simp only: unat_drop_bit_eq) (simp add: drop_bit_eq_div)

lemma unat_add_u64: "unat a + unat b < 18446744073709551616 \<Longrightarrow> unat (a + b) = unat a + unat b" for a b :: u64
  by (simp add: unat_word_ariths)

lemma unat_of_nat_u64: "k < 18446744073709551616 \<Longrightarrow> unat (of_nat k :: u64) = k"
  by (simp add: unat_of_nat take_bit_eq_mod)

lemma unat_diff_cases:
  "unat (a - b) = (if unat b \<le> unat a then unat a - unat b else unat a + 18446744073709551616 - unat b)"
  for a b :: u64
  by (simp add: unat_sub_if_size size_word.rep_eq)

definition pfn :: "u64 \<Rightarrow> u64" where
  "pfn a = drop_bit 12 a"

lemma unat_pfn: "unat (pfn a) = unat a div 4096"
  by (simp add: pfn_def unat_drop_bit_eq drop_bit_eq_div unat_div)

lemma aligned_offset_far:
  assumes "aligned 3 a" "aligned 3 b" "a \<noteq> b" "i < 8"
  shows "8 \<le> unat (b + of_nat i - a)"
proof -
  have "a - b \<noteq> 0" using assms(3) by simp
  obtain j where j: "unat a = 8 * j" using assms(1) by (auto simp: aligned_iff_dvd)
  obtain k where k: "unat b = 8 * k" using assms(2) by (auto simp: aligned_iff_dvd)
  have b64: "8 * k < 18446744073709551616" "8 * j < 18446744073709551616"
    using unat_u64_less [of b] unat_u64_less [of a] j k by auto
  have "unat (of_nat i :: u64) = i"
    using assms(4) by (simp add: unat_of_nat take_bit_eq_mod)
  moreover have "k \<le> 2305843009213693951" using b64 by linarith
  then have "8 * k + i < 18446744073709551616" using assms(4) by linarith
  ultimately have s: "unat (b + of_nat i) = 8 * k + i"
    using k by (simp add: unat_word_ariths)
  have "j \<noteq> k" using assms(3) j k by (simp add: u64_eq_iff)
  then show ?thesis
    unfolding unat_diff_cases s j using assms(4) b64 by auto
qed

lemma load64_store64_other [mem_simps]:
  assumes "aligned 3 a" "aligned 3 b" "a \<noteq> b"
  shows "load64 (store64 m a v) b = load64 m b"
proof (rule load64_cong)
  fix i :: nat assume "i < 8"
  with aligned_offset_far [OF assms this]
  show "store64 m a v (b + of_nat i) = m (b + of_nat i)"
    by (simp add: store64_def store_bytes_def)
qed

lemma in_page_iff:
  assumes "aligned 12 p"
  shows "x - p < 4096 \<longleftrightarrow> pfn x = pfn p"
proof -
  obtain k where k: "unat p = 4096 * k" using assms by (auto simp: aligned_iff_dvd)
  have b: "unat x < 18446744073709551616" "4096 * k < 18446744073709551616" using unat_u64_less [of x] unat_u64_less [of p] k by auto
  have "pfn x = pfn p \<longleftrightarrow> unat x div 4096 = k"
    using k by (simp add: u64_eq_iff unat_pfn)
  moreover have "x - p < 4096 \<longleftrightarrow> unat (x - p) < 4096"
    by (simp add: word_less_nat_alt)
  ultimately show ?thesis
    unfolding unat_diff_cases k using b by auto
qed

lemma pfn_add_small:
  assumes "aligned 3 b" "i < 8"
  shows "pfn (b + of_nat i) = pfn b"
proof -
  obtain k where k: "unat b = 8 * k" using assms(1) by (auto simp: aligned_iff_dvd)
  have b: "8 * k < 18446744073709551616" using unat_u64_less [of b] k by auto
  have "unat (of_nat i :: u64) = i"
    using assms(2) by (simp add: unat_of_nat take_bit_eq_mod)
  moreover have "k \<le> 2305843009213693951" using b by linarith
  then have "8 * k + i < 18446744073709551616" using assms(2) by linarith
  ultimately have "unat (b + of_nat i) = 8 * k + i"
    using k by (simp add: unat_word_ariths)
  then show ?thesis
    using k assms(2) by (simp add: u64_eq_iff unat_pfn)
qed

lemma from_le_zeros [simp]: "from_le (replicate n 0) = 0"
  by (induction n) simp_all

lemma load64_memset_in [mem_simps]:
  assumes "aligned 12 p" "aligned 3 b" "pfn b = pfn p"
  shows "load64 (memset m p 0 4096) b = 0"
proof -
  have "load_bytes (memset m p 0 4096) b 8 = replicate 8 0"
    using assms in_page_iff [OF assms(1)]
    by (intro nth_equalityI) (auto simp: load_bytes_def memset_def pfn_add_small)
  then show ?thesis by (simp add: load64_def)
qed

lemma load64_memset_out [mem_simps]:
  assumes "aligned 12 p" "aligned 3 b" "pfn b \<noteq> pfn p"
  shows "load64 (memset m p v 4096) b = load64 m b"
  using assms in_page_iff [OF assms(1)]
  by (intro load64_cong) (auto simp: memset_def pfn_add_small)

lemma memset_8_eq_store64: "memset m a 0 8 = store64 m a 0"
  by (auto simp: memset_def store64_def store_bytes_def to_le_def word_less_nat_alt)

lemma store64_store64 [mem_simps]: "store64 (store64 m a v) a w = store64 m a w"
  by (auto simp: store64_def store_bytes_def)

definition set_field :: "mem \<Rightarrow> u64 \<Rightarrow> nat \<Rightarrow> nat \<Rightarrow> u64 \<Rightarrow> mem" where
  "set_field m a lo len v = store64 m a (bf_set lo len v (load64 m a))"

definition get_field :: "mem \<Rightarrow> u64 \<Rightarrow> nat \<Rightarrow> nat \<Rightarrow> u64" where
  "get_field m a lo len = bf_get lo len (load64 m a)"

lemma memset_store64_commute:
  assumes "aligned 12 p" "aligned 3 a" "pfn a \<noteq> pfn p"
  shows "memset (store64 m a v) p z 4096 = store64 (memset m p z 4096) a v"
proof
  fix x
  show "memset (store64 m a v) p z 4096 x = store64 (memset m p z 4096) a v x"
  proof (cases "unat (x - a) < 8")
    case True
    have "x = a + of_nat (unat (x - a))" by simp
    then have "pfn x = pfn a" using pfn_add_small [OF assms(2) True] by simp
    with assms in_page_iff [OF assms(1), of x] True show ?thesis
      by (simp add: memset_def store64_def store_bytes_def)
  next
    case False
    then show ?thesis by (simp add: memset_def store64_def store_bytes_def)
  qed
qed

lemma store64_frame:
  assumes "aligned 3 a" "pfn x \<noteq> pfn a"
  shows "store64 m a v x = m x"
proof -
  have "\<not> unat (x - a) < 8"
  proof
    assume lt: "unat (x - a) < 8"
    have "x = a + of_nat (unat (x - a))" by simp
    then have "pfn x = pfn a" using pfn_add_small [OF assms(1) lt] by simp
    with assms(2) show False by simp
  qed
  then show ?thesis by (simp add: store64_def store_bytes_def)
qed

lemma memset_frame: "aligned 12 p \<Longrightarrow> pfn x \<noteq> pfn p \<Longrightarrow> memset m p v 4096 x = m x"
  by (simp add: memset_def in_page_iff)

lemma set_field_store64 [mem_simps]:
  "set_field (store64 m a w) a lo len v = store64 m a (bf_set lo len v w)"
  by (simp add: set_field_def mem_simps)

section \<open>Halting, faults and error codes\<close>

text \<open>
  A failed \<open>ASSERT\<close> and \<open>PANIC_EXIT\<close> never return (they disable interrupts and halt), a division by
  zero raises an exception the kernel does not recover from, \<open>Protection_fault\<close> is the exception of an
  instruction that rejects its descriptor, and \<open>Wild_access\<close> stands for an access outside the object
  the code means to access.
\<close>

datatype fault =
    Assertion_failed
  | Panic_exit
  | Divide_error
  | Protection_fault
  | Wild_access
  | Not_returned

type_synonym 'a result = "fault + 'a"

definition bind_result :: "'a result \<Rightarrow> ('a \<Rightarrow> 'b result) \<Rightarrow> 'b result" where
  "bind_result r f = (case r of Inl e \<Rightarrow> Inl e | Inr x \<Rightarrow> f x)"

lemma bind_result_Inl [simp]: "bind_result (Inl e) f = Inl e"
  by (simp add: bind_result_def)

lemma bind_result_Inr [simp]: "bind_result (Inr x) f = f x"
  by (simp add: bind_result_def)

lemma bind_result_eq_Inr: "bind_result r f = Inr y \<longleftrightarrow> (\<exists>x. r = Inr x \<and> f x = Inr y)"
  by (cases r) simp_all

text \<open>The error codes of \<open>lib64/include/type.h\<close>; functions return their negation.\<close>

datatype error_code =
    ERROR_OK | ERROR_INVALID | ERROR_NOT_NECESSARY | ERROR_DUPLICATION
  | ERROR_OUT_OF_MEMORY | ERROR_OUT_OF_RESOURCE

primrec errno :: "error_code \<Rightarrow> int" where
  "errno ERROR_OK = 0"
| "errno ERROR_INVALID = 1"
| "errno ERROR_NOT_NECESSARY = 2"
| "errno ERROR_DUPLICATION = 3"
| "errno ERROR_OUT_OF_MEMORY = 4"
| "errno ERROR_OUT_OF_RESOURCE = 5"

end
