(* ===== verification/Mem_Ops.thy ===== *)
theory Mem_Ops
  imports Zelda_Prelude
begin

text \<open>
  The memory primitives of \<open>lib64/string.c\<close>, \<open>memset\<close> and \<open>memcpy\<close>, as the byte loops the code
  has.  The loop of \<open>memset\<close> is shown to be the bulk update \<^const>\<open>memset\<close> of the prelude,
  which the other components use.
\<close>

section \<open>The loops\<close>

lemma word_Suc_measure: "idx < sz \<Longrightarrow> unat (sz - (idx + 1)) < unat (sz - idx)" for idx sz :: u64
proof -
  assume lt: "idx < sz"
  then have n: "unat idx < unat sz" by (simp add: word_less_nat_alt)
  then have "unat (idx + 1) = unat idx + 1"
    using unat_u64_less [of sz] by (simp add: unat_word_ariths)
  with n show ?thesis by (simp add: unat_diff_cases)
qed

function memset_loop :: "u64 \<Rightarrow> mem \<Rightarrow> u64 \<Rightarrow> u8 \<Rightarrow> u64 \<Rightarrow> mem" where
  "memset_loop idx m dst v sz =
     (if idx < sz then memset_loop (idx + 1) (m(dst + idx := v)) dst v sz else m)"
  by pat_completeness auto
termination
  by (relation "measure (\<lambda>(idx, m, dst, v, sz). unat (sz - idx))") (simp_all add: word_Suc_measure)

function memcpy_loop :: "int \<Rightarrow> mem \<Rightarrow> u64 \<Rightarrow> u64 \<Rightarrow> int \<Rightarrow> mem" where
  "memcpy_loop idx m dst src n =
     (if idx < n
      then memcpy_loop (idx + 1) (m(dst + of_int idx := m (src + of_int idx))) dst src n
      else m)"
  by pat_completeness auto
termination
  by (relation "measure (\<lambda>(idx, m, dst, src, n). nat (n - idx))") simp_all

definition memcpy :: "mem \<Rightarrow> u64 \<Rightarrow> u64 \<Rightarrow> u32 \<Rightarrow> mem" where
  "memcpy m dst src n = memcpy_loop 0 m dst src (sint n)"

declare memset_loop.simps [simp del] memcpy_loop.simps [simp del]

section \<open>What they compute\<close>

lemma memset_loop_eq:
  "memset_loop idx m dst v sz = (\<lambda>x. if idx \<le> x - dst \<and> x - dst < sz then v else m x)"
proof (induction idx m dst v sz rule: memset_loop.induct)
  case (1 idx m dst v sz)
  show ?case
  proof (cases "idx < sz")
    case True
    then have "unat (idx + 1) = unat idx + 1"
      using unat_u64_less [of sz] by (simp add: unat_word_ariths word_less_nat_alt)
    then have le: "idx + 1 \<le> y \<longleftrightarrow> idx \<le> y \<and> y \<noteq> idx" for y
      by (auto simp: word_le_nat_alt u64_eq_iff)
    have "x - dst = idx \<longleftrightarrow> x = dst + idx" for x by (auto simp: algebra_simps)
    moreover have "memset_loop idx m dst v sz = memset_loop (idx + 1) (m(dst + idx := v)) dst v sz"
      using True by (subst memset_loop.simps) simp
    ultimately show ?thesis
      using True unfolding 1 [OF True] by (auto simp: fun_eq_iff le)
  next
    case False
    then show ?thesis by (subst memset_loop.simps) (auto simp: fun_eq_iff)
  qed
qed

text \<open>
  The byte loop of memset writes the value to exactly the size bytes from dst on,
  wrapping at the end of the address space, and leaves every other byte of memory as it was.
\<close>

lemma memset_loop_is_memset: "memset_loop 0 m dst v sz = memset m dst v sz"
  by (simp add: memset_loop_eq memset_def)

lemma memcpy_loop_disjoint:
  assumes "0 \<le> idx" "idx \<le> n" "n < 2 ^ 31"
    and dis: "\<And>i j. 0 \<le> i \<Longrightarrow> i < n \<Longrightarrow> 0 \<le> j \<Longrightarrow> j < n \<Longrightarrow> dst + of_int i \<noteq> src + of_int j"
  shows "memcpy_loop idx m dst src n x =
    (if idx \<le> uint (x - dst) \<and> uint (x - dst) < n then m (src + (x - dst)) else m x)"
  using assms
proof (induction idx m dst src n rule: memcpy_loop.induct)
  case (1 idx m dst src n)
  show ?case
  proof (cases "idx < n")
    case False
    then show ?thesis by (subst memcpy_loop.simps) auto
  next
    case True
    let ?m = "m(dst + of_int idx := m (src + of_int idx))"
    have ui: "uint (of_int idx :: u64) = idx"
      using 1(2) True 1(4) by (simp add: uint_word_of_int_eq take_bit_int_eq_self)
    have IH: "memcpy_loop (idx + 1) ?m dst src n x =
        (if idx + 1 \<le> uint (x - dst) \<and> uint (x - dst) < n then ?m (src + (x - dst)) else ?m x)"
      by (rule 1(1) [OF True]) (use 1(2,4,5) True in simp_all)
    have at: "uint (x - dst) = idx \<longleftrightarrow> x = dst + of_int idx"
      using ui by (metis add_diff_cancel_left' diff_add_cancel add.commute word_of_int_uint)
    have out: "?m (src + (x - dst)) = m (src + (x - dst))" if "uint (x - dst) < n"
    proof -
      have "dst + of_int idx \<noteq> src + of_int (uint (x - dst))"
        by (rule 1(5)) (use 1(2) True that in simp_all)
      then show ?thesis by simp
    qed
    show ?thesis
    proof (cases "x = dst + of_int idx")
      case at_idx: True
      then show ?thesis using IH at ui True by (subst memcpy_loop.simps) simp
    next
      case False
      then show ?thesis using IH at out True by (subst memcpy_loop.simps) auto
    qed
  qed
qed

end
