(* ===== verification/Phys_Mem.thy ===== *)
theory Phys_Mem
  imports Mem_Ops
begin

text \<open>
  The physical page allocator of \<open>memory/physical_memory.c\<close>: the scan of the memory list the boot
  loader left, the (unused) page bitmap behind the kernel image, and the bump allocator
  \<open>get_physical_pages\<close>.  The address \<open>image_end\<close> of the linker symbol \<open>_kernel64_image_end\<close>
  is a parameter.
\<close>

section \<open>State\<close>

text \<open>
  The globals of \<open>memory/physical_memory.c\<close> and \<open>memory/paging.c\<close>, physical memory, and the
  register \<open>cr3\<close>.
\<close>

record kstate =
  kmem :: mem
  addr_low4G :: u64
  addr_high4G :: u64
  length_low4G :: u64
  length_high4G :: u64
  current_avail_page :: u64
  pml4_base :: u64
  cr3 :: u64

abbreviation PAGE_SIZE_4K :: "'a::numeral" where "PAGE_SIZE_4K \<equiv> 0x1000"
abbreviation PAGE_SIZE_2M :: "'a::numeral" where "PAGE_SIZE_2M \<equiv> 0x200000"
abbreviation MEMORY_LIST_LONG_MODE_BASE :: u64 where "MEMORY_LIST_LONG_MODE_BASE \<equiv> 0x7c00 + 0x8400"
abbreviation PAGING_BITMAP_LENGTH_IN_BYTE :: u64 where "PAGING_BITMAP_LENGTH_IN_BYTE \<equiv> 0x200000"
abbreviation PAGING_BITMAP_LENGTH_IN_PAGE :: u64 where "PAGING_BITMAP_LENGTH_IN_PAGE \<equiv> 0x200"
abbreviation TYPE_NORMAL :: u32 where "TYPE_NORMAL \<equiv> 1"

section \<open>The page bitmap\<close>

definition address_to_byte_index :: "u64 \<Rightarrow> u64" where
  "address_to_byte_index addr = drop_bit 3 (drop_bit 12 addr)"

definition address_to_bit_index :: "u64 \<Rightarrow> u8" where
  "address_to_bit_index addr = ucast (drop_bit 12 addr AND 0x7)"

definition is_page_free :: "mem \<Rightarrow> u64 \<Rightarrow> u64 \<Rightarrow> bool" where
  "is_page_free m image_end addr =
     (let byte_index = address_to_byte_index addr;
          bit_index = address_to_bit_index addr
      in if byte_index \<ge> PAGING_BITMAP_LENGTH_IN_BYTE then False
         else drop_bit (unat bit_index) (m (image_end + byte_index)) AND 0x1 = 0)"

definition mark_page_as_occupied :: "mem \<Rightarrow> u64 \<Rightarrow> u64 \<Rightarrow> mem" where
  "mark_page_as_occupied m image_end addr =
     (let byte_index = address_to_byte_index addr;
          bit_index = address_to_bit_index addr;
          a = image_end + byte_index
      in m(a := m a OR push_bit (unat bit_index) 1))"

text \<open>The loops may run forever on a list without a terminator or an image at the end of the
  address space, so not returning is the value \<^const>\<open>None\<close>.\<close>

partial_function (option) bitmap_loop :: "u64 \<Rightarrow> u64 \<Rightarrow> u64 \<Rightarrow> mem \<Rightarrow> mem result option" where
  "bitmap_loop image_end base_pages_end page m =
     (if page < base_pages_end
      then let m' = mark_page_as_occupied m image_end page
           in if is_page_free m' image_end page then Some (Inl Assertion_failed)
              else bitmap_loop image_end base_pages_end (page + PAGE_SIZE_4K) m'
      else Some (Inr m))"

definition physical_page_bitmap_init :: "u64 \<Rightarrow> kstate \<Rightarrow> kstate result" where
  "physical_page_bitmap_init image_end s =
     (let m = memset (kmem s) image_end 0 PAGING_BITMAP_LENGTH_IN_BYTE;
          base_pages_end = PAGING_BITMAP_LENGTH_IN_PAGE * PAGE_SIZE_4K + image_end
      in case bitmap_loop image_end base_pages_end 0 m of
           None \<Rightarrow> Inl Not_returned
         | Some r \<Rightarrow> bind_result r (\<lambda>m'.
             Inr (s\<lparr>kmem := m', current_avail_page := base_pages_end + PAGE_SIZE_4K\<rparr>)))"

section \<open>The memory list\<close>

record physical_memory_segment =
  seg_address :: u64
  seg_length :: u64
  seg_type :: u32

definition load_segment :: "mem \<Rightarrow> u64 \<Rightarrow> physical_memory_segment" where
  "load_segment m a = \<lparr>seg_address = load64 m a, seg_length = load64 m (a + 8), seg_type = load32 m (a + 16)\<rparr>"

definition note_segment :: "physical_memory_segment \<Rightarrow> kstate \<Rightarrow> kstate" where
  "note_segment seg s =
     (if seg_type seg \<noteq> TYPE_NORMAL then s
      else if seg_address seg = 0x100000
      then s\<lparr>addr_low4G := seg_address seg, length_low4G := seg_length seg\<rparr>
      else if seg_address seg \<ge> 0x100000000
      then s\<lparr>addr_high4G := seg_address seg, length_high4G := seg_length seg\<rparr>
      else s)"

partial_function (option) segment_loop :: "u64 \<Rightarrow> kstate \<Rightarrow> kstate option" where
  "segment_loop seg s =
     (let d = load_segment (kmem s) seg
      in if seg_length d \<noteq> 0 then segment_loop (seg + 24) (note_segment d s) else Some s)"

definition physical_memory_init :: "u64 \<Rightarrow> kstate \<Rightarrow> kstate result" where
  "physical_memory_init image_end s =
     (case segment_loop MEMORY_LIST_LONG_MODE_BASE s of
        None \<Rightarrow> Inl Not_returned
      | Some s' \<Rightarrow> physical_page_bitmap_init image_end s')"

section \<open>The allocator\<close>

definition PHYSICAL_PAGE_VALID :: "kstate \<Rightarrow> u64 \<Rightarrow> bool" where
  "PHYSICAL_PAGE_VALID s addr \<longleftrightarrow>
     (addr \<ge> addr_low4G s \<and> addr < addr_low4G s + length_low4G s) \<or>
     (addr \<ge> addr_high4G s \<and> addr < addr_high4G s + length_high4G s)"

definition get_physical_pages :: "u32 \<Rightarrow> kstate \<Rightarrow> (u64 \<times> kstate) result" where
  "get_physical_pages nr_pages s =
     (let first_page = current_avail_page s;
          last_page = current_avail_page s + scast ((0x1000::u32) * (nr_pages - 1))
      in if \<not> 0 <s nr_pages then Inl Assertion_failed
         else if \<not> PHYSICAL_PAGE_VALID s first_page \<or> \<not> PHYSICAL_PAGE_VALID s last_page
         then Inr (0, s)
         else let next_page = current_avail_page s + scast ((0x1000::u32) * nr_pages);
                  next_page' = (if \<not> PHYSICAL_PAGE_VALID s next_page \<and> next_page < addr_high4G s
                                then addr_high4G s else next_page)
              in Inr (first_page, s\<lparr>current_avail_page := next_page'\<rparr>))"

definition get_physical_page :: "kstate \<Rightarrow> (u64 \<times> kstate) result" where
  "get_physical_page s = get_physical_pages 1 s"

text \<open>
  The allocator's invariant: page-aligned regions below the 64 GiB the configuration allows, and a
  page-aligned bump pointer.
\<close>

definition pm_ok :: "kstate \<Rightarrow> bool" where
  "pm_ok s \<longleftrightarrow>
     aligned 12 (current_avail_page s) \<and>
     aligned 12 (addr_low4G s) \<and> aligned 12 (length_low4G s) \<and>
     aligned 12 (addr_high4G s) \<and> aligned 12 (length_high4G s) \<and>
     unat (addr_low4G s) + unat (length_low4G s) \<le> 2 ^ 36 \<and>
     unat (addr_high4G s) + unat (length_high4G s) \<le> 2 ^ 36"

text \<open>At least \<open>k\<close> pages are left in the region below 4 GiB.\<close>

definition avail :: "kstate \<Rightarrow> nat \<Rightarrow> bool" where
  "avail s k \<longleftrightarrow> k = 0 \<or> unat (addr_low4G s) \<le> unat (current_avail_page s) \<and>
     unat (current_avail_page s) + 4096 * k \<le> unat (addr_low4G s) + unat (length_low4G s)"

definition low_region :: "kstate \<Rightarrow> u64 \<times> u64" where
  "low_region s = (addr_low4G s, length_low4G s)"

section \<open>Properties of the allocator\<close>

lemma scast_pages:
  assumes "0 < n" "n \<le> 1024"
  shows "scast ((0x1000::u32) * of_nat n) = (of_nat (4096 * n) :: u64)"
    and "scast ((0x1000::u32) * (of_nat n - 1)) = (of_nat (4096 * (n - 1)) :: u64)"
proof -
  have s: "scast (of_nat k :: u32) = (of_nat k :: u64)" if "k < 2 ^ 31" for k
  proof -
    have "sint (of_nat k :: u32) = int k"
      using that by (simp add: signed_of_nat signed_take_bit_int_eq_self)
    then show ?thesis by (simp add: scast_eq)
  qed
  have "(0x1000::u32) * of_nat n = of_nat (4096 * n)" by simp
  then show "scast ((0x1000::u32) * of_nat n) = (of_nat (4096 * n) :: u64)"
    using s [of "4096 * n"] assms by simp
  have "(0x1000::u32) * (of_nat n - 1) = of_nat (4096 * (n - 1))"
    using assms by (simp add: of_nat_diff)
  then show "scast ((0x1000::u32) * (of_nat n - 1)) = (of_nat (4096 * (n - 1)) :: u64)"
    using s [of "4096 * (n - 1)"] assms by simp
qed

lemma VALID_iff:
  assumes "pm_ok s"
  shows "PHYSICAL_PAGE_VALID s a \<longleftrightarrow>
    unat (addr_low4G s) \<le> unat a \<and> unat a < unat (addr_low4G s) + unat (length_low4G s) \<or>
    unat (addr_high4G s) \<le> unat a \<and> unat a < unat (addr_high4G s) + unat (length_high4G s)"
proof -
  have "unat (addr_low4G s + length_low4G s) = unat (addr_low4G s) + unat (length_low4G s)"
    "unat (addr_high4G s + length_high4G s) = unat (addr_high4G s) + unat (length_high4G s)"
    using assms by (simp_all add: pm_ok_def unat_word_ariths)
  then show ?thesis
    by (simp add: PHYSICAL_PAGE_VALID_def word_le_nat_alt word_less_nat_alt)
qed

lemma unat_add_pages:
  fixes c :: u64
  assumes "unat c \<le> 2 ^ 36" "n \<le> 1024"
  shows "unat (c + of_nat (4096 * n)) = unat c + 4096 * n"
proof -
  have "unat (of_nat (4096 * n) :: u64) = 4096 * n"
    by (rule unat_of_nat_u64) (use assms(2) in simp)
  then show ?thesis using assms by (simp add: unat_word_ariths del: of_nat_mult)
qed

lemma page_below_end:
  assumes "4096 dvd a" "4096 dvd e" "a < (e::nat)"
  shows "a + 4096 \<le> e"
proof -
  from assms(1,2) obtain j k where "a = 4096 * j" "e = 4096 * k" by (auto elim!: dvdE)
  with assms(3) show ?thesis by simp
qed

lemma VALID_page_fits:
  assumes "pm_ok s" "PHYSICAL_PAGE_VALID s a" "aligned 12 a"
  shows "unat a + 4096 \<le> 2 ^ 36"
proof -
  have d: "4096 dvd unat a" "4096 dvd unat (addr_low4G s) + unat (length_low4G s)"
    "4096 dvd unat (addr_high4G s) + unat (length_high4G s)"
    using assms(1,3) by (auto simp: pm_ok_def aligned_iff_dvd)
  have "unat a + 4096 \<le> unat (addr_low4G s) + unat (length_low4G s) \<or>
        unat a + 4096 \<le> unat (addr_high4G s) + unat (length_high4G s)"
    using assms(2) page_below_end d unfolding VALID_iff [OF assms(1)] by blast
  then show ?thesis using assms(1) by (auto simp: pm_ok_def)
qed

lemma get_physical_pages_success:
  assumes pm: "pm_ok s" and n: "0 < n" "n \<le> 1024"
    and r: "get_physical_pages (of_nat n) s = Inr (p, s')" and p: "p \<noteq> 0"
  shows "p = current_avail_page s"
    and "\<exists>c. s' = s\<lparr>current_avail_page := c\<rparr>"
    and "pm_ok s'" and "aligned 12 p"
    and "unat p + 4096 * n \<le> unat (current_avail_page s')"
    and "unat p + 4096 * n \<le> 2 ^ 36"
proof -
  let ?c = "current_avail_page s"
  let ?last = "?c + of_nat (4096 * (n - 1))"
  let ?next = "?c + of_nat (4096 * n)"
  have v: "PHYSICAL_PAGE_VALID s ?c" "PHYSICAL_PAGE_VALID s ?last" and pc: "p = ?c"
    and s': "s' = s\<lparr>current_avail_page :=
      (if \<not> PHYSICAL_PAGE_VALID s ?next \<and> ?next < addr_high4G s then addr_high4G s else ?next)\<rparr>"
    using r p unfolding get_physical_pages_def Let_def scast_pages [OF n]
    by (auto split: if_splits)
  have al: "aligned 12 ?c" using pm by (simp add: pm_ok_def)
  have "unat ?c + 4096 \<le> 2 ^ 36" by (rule VALID_page_fits [OF pm v(1) al])
  then have c36: "unat ?c \<le> 2 ^ 36" by simp
  have ul: "unat ?last = unat ?c + 4096 * (n - 1)" and un: "unat ?next = unat ?c + 4096 * n"
    using unat_add_pages [OF c36, of "n - 1"] unat_add_pages [OF c36, of n] n by linarith+
  have "aligned 12 ?last" "aligned 12 ?next"
    using al unfolding aligned_iff_dvd ul un by simp_all
  with VALID_page_fits [OF pm v(2)] ul n have fit: "unat ?c + 4096 * n \<le> 2 ^ 36" by simp
  show "p = ?c" by (rule pc)
  show "\<exists>c. s' = s\<lparr>current_avail_page := c\<rparr>" using s' by blast
  show "aligned 12 p" using al pc by simp
  show "unat p + 4096 * n \<le> 2 ^ 36" using fit pc by simp
  show "pm_ok s'" using pm \<open>aligned 12 ?next\<close> by (simp add: s' pm_ok_def)
  show "unat p + 4096 * n \<le> unat (current_avail_page s')"
    using un pc by (auto simp: s' word_less_nat_alt)
qed

lemmas get_physical_page_success =
  get_physical_pages_success [of _ 1, simplified, folded get_physical_page_def]

lemma get_physical_page_not_Inl: "get_physical_page s \<noteq> Inl e"
  by (simp add: get_physical_page_def get_physical_pages_def Let_def word_sless_alt)

lemma get_physical_page_region: "get_physical_page s = Inr (p, s') \<Longrightarrow> low_region s' = low_region s"
  by (auto simp: get_physical_page_def get_physical_pages_def Let_def low_region_def split: if_splits)

lemma low_region_update [simp]:
  "low_region (s\<lparr>kmem := m\<rparr>) = low_region s" "low_region (s\<lparr>current_avail_page := c\<rparr>) = low_region s"
  "low_region (s\<lparr>pml4_base := b\<rparr>) = low_region s" "low_region (s\<lparr>cr3 := b\<rparr>) = low_region s"
  by (simp_all add: low_region_def)

lemma get_physical_page_fail:
  "get_physical_page s = Inr (0, s') \<Longrightarrow> current_avail_page s \<noteq> 0 \<Longrightarrow> s' = s"
  by (auto simp: get_physical_page_def get_physical_pages_def Let_def split: if_splits)

lemma avail_update [simp]:
  "avail (s\<lparr>kmem := m\<rparr>) k = avail s k" "avail (s\<lparr>pml4_base := b\<rparr>) k = avail s k" "avail (s\<lparr>cr3 := b\<rparr>) k = avail s k"
  by (simp_all add: avail_def)

lemma avail_mono: "avail s k \<Longrightarrow> j \<le> k \<Longrightarrow> avail s j"
  by (auto simp: avail_def)

lemma get_physical_page_avail:
  assumes pm: "pm_ok s" and av: "avail s (Suc k)"
  obtains s' where "get_physical_page s = Inr (current_avail_page s, s')" "avail s' k"
proof -
  let ?c = "current_avail_page s"
  have b: "unat (addr_low4G s) \<le> unat ?c" "unat ?c + 4096 * Suc k \<le> unat (addr_low4G s) + unat (length_low4G s)"
    using av by (auto simp: avail_def)
  have v: "PHYSICAL_PAGE_VALID s ?c" using b by (simp add: VALID_iff [OF pm])
  have c36: "unat ?c \<le> 2 ^ 36" using b pm by (simp add: pm_ok_def)
  have un: "unat (?c + 4096) = unat ?c + 4096" using unat_add_pages [OF c36, of 1] by simp
  have vn: "PHYSICAL_PAGE_VALID s (?c + 4096)" if "k \<noteq> 0"
    using b that by (simp add: VALID_iff [OF pm] un)
  let ?n = "if \<not> PHYSICAL_PAGE_VALID s (?c + 4096) \<and> ?c + 4096 < addr_high4G s then addr_high4G s else ?c + 4096"
  have "get_physical_page s = Inr (?c, s\<lparr>current_avail_page := ?n\<rparr>)"
    using v by (simp add: get_physical_page_def get_physical_pages_def Let_def word_sless_alt)
  moreover have "avail (s\<lparr>current_avail_page := ?n\<rparr>) k" using b vn un by (auto simp: avail_def)
  ultimately show thesis using that by blast
qed

section \<open>Sequences of allocations\<close>

text \<open>A run of \<open>get_physical_pages\<close> calls, keeping the blocks that were granted.\<close>

fun alloc_run :: "nat list \<Rightarrow> kstate \<Rightarrow> ((u64 \<times> nat) list \<times> kstate) result" where
  "alloc_run [] s = Inr ([], s)"
| "alloc_run (n # ns) s =
     bind_result (get_physical_pages (of_nat n) s) (\<lambda>(p, s').
     bind_result (alloc_run ns s') (\<lambda>(bs, s'').
     Inr (if p = 0 then bs else (p, n) # bs, s'')))"

definition block_before :: "u64 \<times> nat \<Rightarrow> u64 \<times> nat \<Rightarrow> bool" where
  "block_before b b' \<longleftrightarrow> unat (fst b) + 4096 * snd b \<le> unat (fst b')"

definition block_ok :: "kstate \<Rightarrow> u64 \<times> nat \<Rightarrow> bool" where
  "block_ok s b \<longleftrightarrow> aligned 12 (fst b) \<and> unat (current_avail_page s) \<le> unat (fst b) \<and>
     unat (fst b) + 4096 * snd b \<le> 2 ^ 36"

lemma get_physical_pages_fail:
  "get_physical_pages n s = Inr (0, s') \<Longrightarrow> current_avail_page s \<noteq> 0 \<Longrightarrow> s' = s"
  by (auto simp: get_physical_pages_def Let_def split: if_splits)

lemma get_physical_pages_returns:
  assumes "0 < n" "n \<le> 1024"
  obtains p s' where "get_physical_pages (of_nat n) s = Inr (p, s')"
proof -
  have "0 <s (of_nat n :: u32)"
    using assms by (simp add: word_sless_alt signed_of_nat signed_take_bit_int_eq_self)
  then show thesis using that by (fastforce simp: get_physical_pages_def Let_def split: if_splits)
qed

lemma alloc_run_blocks:
  assumes "pm_ok s" "current_avail_page s \<noteq> 0" "list_all (\<lambda>n. 0 < n \<and> n \<le> 1024) ns"
  shows "\<exists>bs s'. alloc_run ns s = Inr (bs, s') \<and> sorted_wrt block_before bs \<and> list_all (block_ok s) bs"
  using assms
proof (induction ns arbitrary: s)
  case (Cons n ns)
  have n: "0 < n" "n \<le> 1024" and ns: "list_all (\<lambda>n. 0 < n \<and> n \<le> 1024) ns" using Cons.prems by auto
  obtain p s1 where g: "get_physical_pages (of_nat n) s = Inr (p, s1)"
    by (rule get_physical_pages_returns [OF n])
  show ?case
  proof (cases "p = 0")
    case True
    with g Cons.prems(2) have "s1 = s" using get_physical_pages_fail by blast
    with Cons.IH [OF Cons.prems(1,2) ns] g True show ?thesis by auto
  next
    case False
    note ok = get_physical_pages_success [OF Cons.prems(1) n g False]
    have c1: "current_avail_page s1 \<noteq> 0" using ok(5) n by auto
    from Cons.IH [OF ok(3) c1 ns] obtain bs s' where
      IH: "alloc_run ns s1 = Inr (bs, s')" "sorted_wrt block_before bs" "list_all (block_ok s1) bs" by blast
    have "block_before (p, n) b \<and> block_ok s b" if "b \<in> set bs" for b
      using that IH(3) ok(1,5) by (fastforce simp: list_all_iff block_ok_def block_before_def)
    moreover have "block_ok s (p, n)" using ok by (simp add: block_ok_def)
    ultimately show ?thesis using IH g False by (simp add: list_all_iff)
  qed
qed simp

section \<open>The bitmap\<close>

definition marked :: "u64 \<Rightarrow> mem \<Rightarrow> u64 \<Rightarrow> bool" where
  "marked e m f \<longleftrightarrow> bit (m (e + drop_bit 3 f)) (unat (take_bit 3 f))"

lemma bit_index_eq: "unat (address_to_bit_index a) = unat (take_bit 3 (pfn a))"
proof -
  have "drop_bit 12 a AND 0x7 = take_bit 3 (pfn a)" by (simp add: pfn_def take_bit_eq_mask mask_numeral)
  moreover have "unat (take_bit 3 (pfn a)) < 256"
    using take_bit_nat_less_exp [of 3 "unat (pfn a)"] by (simp add: unsigned_take_bit_eq)
  ultimately show ?thesis
    by (simp add: address_to_bit_index_def unsigned_ucast_eq take_bit_nat_eq_self)
qed

lemma byte_index_eq: "address_to_byte_index a = drop_bit 3 (pfn a)"
  by (simp add: address_to_byte_index_def pfn_def)

lemma is_page_free_iff:
  "is_page_free m e a \<longleftrightarrow> drop_bit 3 (pfn a) < PAGING_BITMAP_LENGTH_IN_BYTE \<and> \<not> marked e m (pfn a)"
proof -
  have "drop_bit n w AND 1 = 0 \<longleftrightarrow> \<not> bit w n" for w :: u8 and n
    by (simp add: and_one_eq bit_iff_odd_drop_bit flip: even_iff_mod_2_eq_zero)
  then show ?thesis
    by (auto simp: is_page_free_def Let_def byte_index_eq bit_index_eq marked_def)
qed

lemma frame_eq_iff: "f = g \<longleftrightarrow> drop_bit 3 f = drop_bit 3 g \<and> take_bit 3 f = take_bit 3 g" for f g :: u64
  by (metis bits_ident)

lemma marked_mark:
  "marked e (mark_page_as_occupied m e a) f \<longleftrightarrow> marked e m f \<or> f = pfn a"
proof -
  have lt: "unat (take_bit 3 f) < 8" for f :: u64
    using take_bit_nat_less_exp [of 3 "unat f"] by (simp add: unsigned_take_bit_eq)
  show ?thesis
    using lt [of f]
    by (auto simp: marked_def mark_page_as_occupied_def Let_def byte_index_eq bit_index_eq bit_simps frame_eq_iff [of f]
      u64_eq_iff [of "take_bit 3 f"])
qed

lemma bitmap_loop_marks:
  assumes "n \<le> N" "N \<le> 2 ^ 24"
  shows "\<exists>m'. bitmap_loop e (of_nat (4096 * N)) (of_nat (4096 * n)) m = Some (Inr m') \<and>
    (\<forall>f. marked e m' f \<longleftrightarrow> marked e m f \<or> n \<le> unat f \<and> unat f < N) \<and>
    (\<forall>x. PAGING_BITMAP_LENGTH_IN_BYTE \<le> x - e \<longrightarrow> m' x = m x)"
  using assms
proof (induction "N - n" arbitrary: n m)
  case 0
  then show ?case by (subst bitmap_loop.simps) auto
next
  case (Suc k)
  let ?p = "of_nat (4096 * n) :: u64"
  let ?m = "mark_page_as_occupied m e ?p"
  have n: "n < N" using Suc.hyps(2) by simp
  have u: "unat ?p = 4096 * n" using n Suc.prems by (intro unat_of_nat_u64) simp
  have u2: "unat (of_nat (4096 * N) :: u64) = 4096 * N" using Suc.prems by (intro unat_of_nat_u64) simp
  have f: "unat (pfn ?p) = n" by (simp only: unat_pfn u)
  have lt: "?p < of_nat (4096 * N)" using n by (simp add: word_less_nat_alt u u2 del: of_nat_mult)
  have nf: "\<not> is_page_free ?m e ?p" by (simp add: is_page_free_iff marked_mark)
  have step: "bitmap_loop e (of_nat (4096 * N)) ?p m = bitmap_loop e (of_nat (4096 * N)) (of_nat (4096 * Suc n)) ?m"
    using lt nf by (subst bitmap_loop.simps) (simp add: Let_def add.commute)
  have "k = N - Suc n" "Suc n \<le> N" using Suc.hyps(2) n by auto
  from Suc.hyps(1) [OF this Suc.prems(2), of ?m] obtain m' where
    IH: "bitmap_loop e (of_nat (4096 * N)) (of_nat (4096 * Suc n)) ?m = Some (Inr m')"
      "\<And>f. marked e m' f \<longleftrightarrow> marked e ?m f \<or> Suc n \<le> unat f \<and> unat f < N"
      "\<And>x. PAGING_BITMAP_LENGTH_IN_BYTE \<le> x - e \<Longrightarrow> m' x = ?m x" by blast
  have bd: "drop_bit 3 (pfn ?p) < PAGING_BITMAP_LENGTH_IN_BYTE"
    using n Suc.prems by (simp add: word_less_nat_alt unat_drop_bit_div f del: of_nat_mult)
  have "?m x = m x" if "PAGING_BITMAP_LENGTH_IN_BYTE \<le> x - e" for x
    using that bd by (auto simp: mark_page_as_occupied_def Let_def byte_index_eq)
  moreover have "marked e m' g \<longleftrightarrow> marked e m g \<or> n \<le> unat g \<and> unat g < N" for g
    using n f by (auto simp: IH(2) marked_mark u64_eq_iff)
  ultimately show ?case using IH step by auto
qed

lemma physical_page_bitmap_init_ok:
  assumes al: "aligned 12 e" and e: "unat e + 0x200000 \<le> 2 ^ 36"
  obtains s' where "physical_page_bitmap_init e s = Inr s'"
    "\<exists>m c. s' = s\<lparr>kmem := m, current_avail_page := c\<rparr>"
    "current_avail_page s' = e + 0x201000"
    "\<And>a. is_page_free (kmem s') e a \<longleftrightarrow> unat e + 0x200000 \<le> unat a \<and> unat a < 2 ^ 36"
    "\<And>x. PAGING_BITMAP_LENGTH_IN_BYTE \<le> x - e \<Longrightarrow> kmem s' x = kmem s x"
proof -
  obtain k where k: "unat e = 4096 * k" using al by (auto simp: aligned_iff_dvd)
  let ?N = "k + 512"
  let ?m = "memset (kmem s) e 0 PAGING_BITMAP_LENGTH_IN_BYTE"
  have N: "?N \<le> 2 ^ 24" using e k by simp
  have uN: "unat (of_nat (4096 * ?N) :: u64) = 4096 * ?N" using N by (intro unat_of_nat_u64) simp
  have fin: "PAGING_BITMAP_LENGTH_IN_PAGE * PAGE_SIZE_4K + e = of_nat (4096 * ?N)"
  proof -
    have c: "PAGING_BITMAP_LENGTH_IN_PAGE * PAGE_SIZE_4K = (0x200000 :: u64)" by simp
    show ?thesis unfolding c u64_eq_iff uN using e k by (subst unat_add_u64) simp_all
  qed
  obtain m' where m': "bitmap_loop e (of_nat (4096 * ?N)) 0 ?m = Some (Inr m')"
      "\<And>f. marked e m' f \<longleftrightarrow> marked e ?m f \<or> unat f < ?N"
      "\<And>x. PAGING_BITMAP_LENGTH_IN_BYTE \<le> x - e \<Longrightarrow> m' x = ?m x"
    using bitmap_loop_marks [of 0 ?N e ?m] N by (auto simp del: of_nat_mult of_nat_add)
  let ?s' = "s\<lparr>kmem := m', current_avail_page := of_nat (4096 * ?N) + PAGE_SIZE_4K\<rparr>"
  show thesis
  proof (rule that [of ?s'])
    show "physical_page_bitmap_init e s = Inr ?s'"
      unfolding physical_page_bitmap_init_def Let_def fin m'(1) by simp
    show "\<exists>m c. ?s' = s\<lparr>kmem := m, current_avail_page := c\<rparr>" by blast
    show "current_avail_page ?s' = e + 0x201000" using fin by (simp add: algebra_simps)
    show "kmem ?s' x = kmem s x" if "PAGING_BITMAP_LENGTH_IN_BYTE \<le> x - e" for x
      using that m'(3) by (auto simp: memset_def)
    show "is_page_free (kmem ?s') e a \<longleftrightarrow> unat e + 0x200000 \<le> unat a \<and> unat a < 2 ^ 36" for a
    proof -
      have fr: "drop_bit 3 (pfn a) < PAGING_BITMAP_LENGTH_IN_BYTE \<longleftrightarrow> unat a < 2 ^ 36"
        by (simp add: word_less_nat_alt unat_drop_bit_div unat_pfn div_less_iff_less_mult flip: div_mult2_eq)
      have "\<not> marked e ?m (pfn a)" if "drop_bit 3 (pfn a) < PAGING_BITMAP_LENGTH_IN_BYTE"
        using that by (simp add: marked_def memset_def)
      then have "is_page_free m' e a \<longleftrightarrow> unat a < 2 ^ 36 \<and> \<not> unat (pfn a) < ?N"
        by (auto simp: is_page_free_iff m'(2) fr)
      moreover have "\<not> unat (pfn a) < ?N \<longleftrightarrow> unat e + 0x200000 \<le> unat a"
        using k by (simp add: unat_pfn not_less less_eq_div_iff_mult_less_eq mult.commute)
      ultimately show ?thesis by auto
    qed
  qed
qed

section \<open>The memory list\<close>

definition segments :: "mem \<Rightarrow> u64 \<Rightarrow> nat \<Rightarrow> physical_memory_segment list" where
  "segments m a k = map (\<lambda>i. load_segment m (a + 24 * of_nat i)) [0..<k]"

lemma kmem_note_segment [simp]: "kmem (note_segment seg s) = kmem s"
  by (simp add: note_segment_def)

lemma segments_Suc: "segments m a (Suc k) = load_segment m a # segments m (a + 24) k"
  by (simp add: segments_def upt_conv_Cons map_Suc_upt [symmetric] algebra_simps del: upt_Suc)

lemma segment_loop_fold:
  assumes "list_all (\<lambda>d. seg_length d \<noteq> 0) (segments (kmem s) a k)"
    "seg_length (load_segment (kmem s) (a + 24 * of_nat k)) = 0"
  shows "segment_loop a s = Some (fold note_segment (segments (kmem s) a k) s)"
  using assms
proof (induction k arbitrary: a s)
  case 0
  then show ?case by (subst segment_loop.simps) (simp add: segments_def)
next
  case (Suc k)
  let ?s = "note_segment (load_segment (kmem s) a) s"
  have "segment_loop (a + 24) ?s = Some (fold note_segment (segments (kmem ?s) (a + 24) k) ?s)"
    by (rule Suc.IH) (use Suc.prems in \<open>simp_all add: segments_Suc algebra_simps\<close>)
  moreover have "segment_loop a s = segment_loop (a + 24) ?s"
    using Suc.prems(1) by (subst segment_loop.simps) (simp add: segments_Suc Let_def)
  ultimately show ?case by (simp add: segments_Suc)
qed

section \<open>Main properties\<close>

text \<open>
  C4 (allocator). Any sequence of requests of 1 to 1024 pages returns, and the blocks granted are
  page aligned, lie below 64 GiB and above the previous bump pointer, and each ends before the next
  one starts: no page is ever handed out twice.
\<close>

theorem allocations_disjoint:
  assumes "pm_ok s" "current_avail_page s \<noteq> 0" "list_all (\<lambda>n. 0 < n \<and> n \<le> 1024) ns"
  shows "\<exists>bs s'. alloc_run ns s = Inr (bs, s') \<and> sorted_wrt block_before bs \<and> list_all (block_ok s) bs"
  using assms by (rule alloc_run_blocks)

definition sample_kstate :: kstate where
  "sample_kstate = \<lparr>kmem = (\<lambda>_. 0), addr_low4G = 0x100000, addr_high4G = 0x100000000,
     length_low4G = 0x3ff00000, length_high4G = 0, current_avail_page = 0x800000,
     pml4_base = 0, cr3 = 0\<rparr>"

lemma sample_kstate_ok: "pm_ok sample_kstate" "current_avail_page sample_kstate \<noteq> 0"
  "n \<le> 200000 \<Longrightarrow> avail sample_kstate (4 + n)"
  by (simp_all add: pm_ok_def sample_kstate_def aligned_iff_dvd avail_def)

theorem allocations_disjoint_witness:
  "pm_ok sample_kstate \<and> (\<exists>bs s'. alloc_run [1, 3, 1024] sample_kstate = Inr (bs, s') \<and>
     sorted_wrt block_before bs \<and> list_all (block_ok sample_kstate) bs)"
  using allocations_disjoint [of sample_kstate "[1, 3, 1024]"] sample_kstate_ok by simp

lemma physical_memory_init_ok_law:
  assumes "list_all (\<lambda>d. seg_length d \<noteq> 0) (segments (kmem s) MEMORY_LIST_LONG_MODE_BASE k)"
    "seg_length (load_segment (kmem s) (MEMORY_LIST_LONG_MODE_BASE + 24 * of_nat k)) = 0"
    "aligned 12 image_end" "unat image_end + 0x200000 \<le> 2 ^ 36"
  shows "\<exists>s' m t. physical_memory_init image_end s = Inr s' \<and>
    t = fold note_segment (segments (kmem s) MEMORY_LIST_LONG_MODE_BASE k) s \<and>
    s' = t\<lparr>kmem := m, current_avail_page := image_end + 0x201000\<rparr> \<and>
    (\<forall>a. is_page_free m image_end a \<longleftrightarrow> unat image_end + 0x200000 \<le> unat a \<and> unat a < 2 ^ 36) \<and>
    (\<forall>x. PAGING_BITMAP_LENGTH_IN_BYTE \<le> x - image_end \<longrightarrow> m x = kmem t x)"
proof -
  let ?t = "fold note_segment (segments (kmem s) MEMORY_LIST_LONG_MODE_BASE k) s"
  from physical_page_bitmap_init_ok [OF assms(3,4), of ?t] obtain s' where
    s': "physical_page_bitmap_init image_end ?t = Inr s'"
    "\<exists>m c. s' = ?t\<lparr>kmem := m, current_avail_page := c\<rparr>" "current_avail_page s' = image_end + 0x201000"
    "\<And>a. is_page_free (kmem s') image_end a \<longleftrightarrow> unat image_end + 0x200000 \<le> unat a \<and> unat a < 2 ^ 36"
    "\<And>x. PAGING_BITMAP_LENGTH_IN_BYTE \<le> x - image_end \<Longrightarrow> kmem s' x = kmem ?t x"
    by blast
  have r: "physical_memory_init image_end s = Inr s'"
    using segment_loop_fold [OF assms(1,2)] s'(1) by (simp add: physical_memory_init_def)
  show ?thesis
    by (rule exI [of _ s'], rule exI [of _ "kmem s'"], rule exI [of _ ?t])
      (use r s' in auto)
qed

text \<open>
  C35 (memory initialisation). When the boot loader's list is terminated after \<open>k\<close> segments and the
  page-aligned kernel image ends low enough, \<open>physical_memory_init\<close> returns; the regions are those of
  the last matching segments of the list, exactly the pages from the end of the bitmap to 64 GiB
  are free in the bitmap, and the first page handed out is the page after the bitmap's end.
\<close>

theorem physical_memory_init_ok:
  assumes "list_all (\<lambda>d. seg_length d \<noteq> 0) (segments (kmem s) MEMORY_LIST_LONG_MODE_BASE k)"
    "seg_length (load_segment (kmem s) (MEMORY_LIST_LONG_MODE_BASE + 24 * of_nat k)) = 0"
    "aligned 12 image_end" "unat image_end + 0x200000 \<le> 2 ^ 36"
  shows "\<exists>s' m t. physical_memory_init image_end s = Inr s' \<and>
    t = fold note_segment (segments (kmem s) MEMORY_LIST_LONG_MODE_BASE k) s \<and>
    s' = t\<lparr>kmem := m, current_avail_page := image_end + 0x201000\<rparr> \<and>
    (\<forall>a. is_page_free m image_end a \<longleftrightarrow> unat image_end + 0x200000 \<le> unat a \<and> unat a < 2 ^ 36) \<and>
    (\<forall>x. PAGING_BITMAP_LENGTH_IN_BYTE \<le> x - image_end \<longrightarrow> m x = kmem t x)"
  using assms by (rule physical_memory_init_ok_law)

definition sample_list :: mem where
  "sample_list = (\<lambda>_. 0)(0x10002 := 0x10, 0x1000b := 0x40, 0x10010 := 1)"

theorem physical_memory_init_ok_witness:
  "\<exists>s'. physical_memory_init 0x200000 (sample_kstate\<lparr>kmem := sample_list\<rparr>) = Inr s' \<and>
     addr_low4G s' = 0x100000 \<and> length_low4G s' = 0x40000000 \<and> current_avail_page s' = 0x401000"
proof -
  let ?s = "sample_kstate\<lparr>kmem := sample_list\<rparr>"
  have seg: "load_segment sample_list 0x10000 = \<lparr>seg_address = 0x100000, seg_length = 0x40000000, seg_type = 1\<rparr>"
    "seg_length (load_segment sample_list 0x10018) = 0"
    by (simp_all add: load_segment_def load64_def load32_def load_bytes_def sample_list_def upt_rec)
  have segs: "segments (kmem ?s) MEMORY_LIST_LONG_MODE_BASE 1 = [load_segment sample_list 0x10000]"
    by (simp add: segments_def)
  show ?thesis
    using physical_memory_init_ok [of ?s 1 "0x200000"] seg segs
    by (auto simp: note_segment_def aligned_iff_dvd)
qed

end
