(* ===== verification/Page_Walk.thy ===== *)
theory Page_Walk
  imports Zelda_Prelude
begin

text \<open>
  Four-level radix tables in memory, independent of what an entry looks like: the host page tables
  and the extended page tables of the monitor are both of this shape.  A table is a page of 512
  quadwords; \<open>q\<close> reads a quadword of memory, \<open>is_tbl\<close> says that an entry refers to a lower
  table and \<open>tbl\<close> gives its address.  The locale \<open>radix_tables\<close> holds the laws an entry format has
  to satisfy and what follows from them: adding an empty table or writing a leaf entry changes the
  entries reached from the root at exactly one place.
\<close>

section \<open>Walking the tables\<close>

fun walk :: "(u64 \<Rightarrow> bool) \<Rightarrow> (u64 \<Rightarrow> u64) \<Rightarrow> (u64 \<Rightarrow> u64) \<Rightarrow> u64 \<Rightarrow> u64 list \<Rightarrow> u64 option" where
  "walk is_tbl tbl q t [] = Some t"
| "walk is_tbl tbl q t (i # is) =
     (if is_tbl (q (t + 8 * i)) then walk is_tbl tbl q (tbl (q (t + 8 * i))) is else None)"

definition entry :: "(u64 \<Rightarrow> bool) \<Rightarrow> (u64 \<Rightarrow> u64) \<Rightarrow> (u64 \<Rightarrow> u64) \<Rightarrow> u64 \<Rightarrow> u64 list \<Rightarrow> u64 \<Rightarrow> u64 option" where
  "entry is_tbl tbl q root p i = map_option (\<lambda>t. q (t + 8 * i)) (walk is_tbl tbl q root p)"

definition path_ok :: "u64 list \<Rightarrow> bool" where
  "path_ok p \<longleftrightarrow> length p \<le> 3 \<and> (\<forall>i \<in> set p. i < 512)"

text \<open>
  Tables are well formed when every table reached from the root lies in \<open>S\<close> and no table is reached
  on two paths.
\<close>

definition wf_tables :: "(u64 \<Rightarrow> bool) \<Rightarrow> (u64 \<Rightarrow> u64) \<Rightarrow> (u64 \<Rightarrow> u64) \<Rightarrow> u64 \<Rightarrow> u64 set \<Rightarrow> bool" where
  "wf_tables is_tbl tbl q root S \<longleftrightarrow>
     aligned 12 root \<and>
     (\<forall>p t. path_ok p \<longrightarrow> walk is_tbl tbl q root p = Some t \<longrightarrow> t \<in> S) \<and>
     (\<forall>p p' t. path_ok p \<longrightarrow> path_ok p' \<longrightarrow> walk is_tbl tbl q root p = Some t \<longrightarrow>
        walk is_tbl tbl q root p' = Some t \<longrightarrow> p = p')"

lemma unat_entry_addr:
  assumes "aligned 12 t" "i < 512"
  shows "unat (t + 8 * i) = unat t + 8 * unat i"
proof -
  obtain k where k: "unat t = 4096 * k" using assms by (auto simp: aligned_iff_dvd)
  have b: "4096 * k < 18446744073709551616" using unat_u64_less [of t] k by simp
  have i: "unat i < 512" using assms(2) by (simp add: word_less_nat_alt)
  then have "unat (8 * i) = 8 * unat i" by (simp add: unat_word_ariths)
  moreover have "k \<le> 4503599627370495" using b by linarith
  then have "4096 * k + 8 * unat i < 18446744073709551616" using i by linarith
  ultimately show ?thesis using k by (simp add: unat_word_ariths)
qed

lemma pfn_entry_addr [mem_simps]:
  assumes "aligned 12 t" "i < 512"
  shows "pfn (t + 8 * i) = pfn t"
proof -
  obtain k where k: "unat t = 4096 * k" using assms by (auto simp: aligned_iff_dvd)
  have i: "unat i < 512" using assms(2) by (simp add: word_less_nat_alt)
  show ?thesis
    using k i by (simp add: u64_eq_iff unat_pfn unat_entry_addr [OF assms])
qed

lemma aligned_entry_addr [mem_simps]:
  assumes "aligned 12 t" "i < 512"
  shows "aligned 3 (t + 8 * i)"
proof -
  have "aligned 3 t" using assms(1) aligned_mono [of 12 t 3] by simp
  then show ?thesis by (simp add: aligned_iff_dvd unat_entry_addr [OF assms])
qed

lemma page_eq_iff:
  assumes "aligned 12 p" "aligned 12 p'"
  shows "pfn p = pfn p' \<longleftrightarrow> p = p'"
proof -
  obtain j k where "unat p = 4096 * j" "unat p' = 4096 * k"
    using assms by (auto simp: aligned_iff_dvd elim!: dvdE)
  then show ?thesis by (simp add: u64_eq_iff unat_pfn)
qed

lemma entry_addr_eq_iff:
  assumes "aligned 12 t" "aligned 12 t'" "i < 512" "j < 512"
  shows "t + 8 * i = t' + 8 * j \<longleftrightarrow> t = t' \<and> i = j"
proof
  assume eq: "t + 8 * i = t' + 8 * j"
  then have "pfn (t + 8 * i) = pfn (t' + 8 * j)" by simp
  then have "t = t'" using assms by (simp add: mem_simps page_eq_iff)
  moreover have "unat (t + 8 * i) = unat (t' + 8 * j)" using eq by simp
  ultimately show "t = t' \<and> i = j"
    using assms by (simp add: unat_entry_addr u64_eq_iff [of i])
qed simp

text \<open>What memory holds after a fresh table was zeroed and hooked in, and after a leaf was written.\<close>

lemma fresh_table_mem:
  assumes "aligned 12 t" "aligned 12 P" "t \<noteq> P" "i < 512"
    and m': "m' = store64 (memset m P 0 4096) (t + 8 * i) e"
  shows "load64 m' (t + 8 * i) = e"
    and "\<And>b. aligned 3 b \<Longrightarrow> pfn b = pfn P \<Longrightarrow> load64 m' b = 0"
    and "\<And>b. aligned 3 b \<Longrightarrow> b \<noteq> t + 8 * i \<Longrightarrow> pfn b \<noteq> pfn P \<Longrightarrow> load64 m' b = load64 m b"
proof -
  have a3: "aligned 3 (t + 8 * i)" using assms by (simp add: mem_simps)
  have pf: "pfn (t + 8 * i) \<noteq> pfn P" using assms by (simp add: mem_simps page_eq_iff)
  show "load64 m' (t + 8 * i) = e" by (simp add: mem_simps m')
  show "load64 m' b = 0" if "aligned 3 b" "pfn b = pfn P" for b
  proof -
    have "b \<noteq> t + 8 * i" using that pf by auto
    then show ?thesis using that a3 assms(2) by (simp add: mem_simps m')
  qed
  show "load64 m' b = load64 m b" if "aligned 3 b" "b \<noteq> t + 8 * i" "pfn b \<noteq> pfn P" for b
    using that a3 assms(2) by (simp add: mem_simps m')
qed

lemma leaf_mem:
  assumes "aligned 12 t" "i < 512" and m': "m' = store64 m (t + 8 * i) e"
  shows "load64 m' (t + 8 * i) = e"
    and "\<And>b. aligned 3 b \<Longrightarrow> b \<noteq> t + 8 * i \<Longrightarrow> load64 m' b = load64 m b"
proof -
  have a3: "aligned 3 (t + 8 * i)" using assms by (simp add: mem_simps)
  show "load64 m' (t + 8 * i) = e" by (simp add: mem_simps m')
  show "load64 m' b = load64 m b" if "aligned 3 b" "b \<noteq> t + 8 * i" for b
    using that a3 by (simp add: mem_simps m')
qed

lemma walk_snoc:
  "walk is_tbl tbl q t (p @ [i]) =
     (case walk is_tbl tbl q t p of None \<Rightarrow> None
      | Some t' \<Rightarrow> if is_tbl (q (t' + 8 * i)) then Some (tbl (q (t' + 8 * i))) else None)"
  by (induction p arbitrary: t) auto

lemma walk_None_append: "walk is_tbl tbl q t p = None \<Longrightarrow> walk is_tbl tbl q t (p @ r) = None"
  by (induction p arbitrary: t) (auto split: if_splits)

lemma entry_below_leaf:
  assumes "walk is_tbl tbl q root p = Some t" "\<not> is_tbl (q (t + 8 * i))"
  shows "entry is_tbl tbl q root (p @ i # r) j = None"
  using walk_None_append [of is_tbl tbl q root "p @ [i]" r] assms
  by (simp add: entry_def walk_snoc)

lemma path_ok_Nil [simp]: "path_ok []"
  by (simp add: path_ok_def)

lemma path_ok_snoc [simp]: "path_ok (p @ [i]) \<longleftrightarrow> path_ok p \<and> length p \<le> 2 \<and> i < 512"
  by (auto simp: path_ok_def)

section \<open>The interface of an entry format\<close>

locale radix_tables =
  fixes is_tbl :: "u64 \<Rightarrow> bool" and tbl :: "u64 \<Rightarrow> u64"
  assumes not_tbl_0: "\<not> is_tbl 0"
    and tbl_aligned: "aligned 12 (tbl e)"
begin

lemma walk_aligned:
  assumes "aligned 12 root" "walk is_tbl tbl q root p = Some t"
  shows "aligned 12 t"
  using assms by (cases p rule: rev_cases) (auto simp: walk_snoc tbl_aligned split: option.splits if_splits)

lemma wf_walkD:
  assumes "wf_tables is_tbl tbl q root S" "path_ok p" "walk is_tbl tbl q root p = Some t"
  shows "t \<in> S" "aligned 12 t"
proof -
  show "t \<in> S" using assms unfolding wf_tables_def by blast
  have "aligned 12 root" using assms(1) by (simp add: wf_tables_def)
  then show "aligned 12 t" using assms(3) by (rule walk_aligned)
qed

lemma wf_inj:
  assumes "wf_tables is_tbl tbl q root S" "path_ok p" "path_ok p'"
    "walk is_tbl tbl q root p = Some t" "walk is_tbl tbl q root p' = Some t"
  shows "p = p'"
  using assms unfolding wf_tables_def by blast

lemma walk_install_table:
  assumes wf: "wf_tables is_tbl tbl q root S"
    and p: "path_ok p" "length p \<le> 2" "i < 512" "walk is_tbl tbl q root p = Some t"
    and absent: "\<not> is_tbl (q (t + 8 * i))"
    and fresh: "aligned 12 P" "P \<notin> S"
    and new: "is_tbl (q' (t + 8 * i))" "tbl (q' (t + 8 * i)) = P"
    and zero: "\<And>b. aligned 3 b \<Longrightarrow> pfn b = pfn P \<Longrightarrow> q' b = 0"
    and same: "\<And>b. aligned 3 b \<Longrightarrow> b \<noteq> t + 8 * i \<Longrightarrow> pfn b \<noteq> pfn P \<Longrightarrow> q' b = q b"
    and p': "path_ok p'"
  shows "walk is_tbl tbl q' root p' =
    (if p' = p @ [i] then Some P else walk is_tbl tbl q root p')"
  using p'
proof (induction p' rule: rev_induct)
  case Nil
  then show ?case by simp
next
  case (snoc j p')
  have p': "path_ok p'" "j < 512" using snoc.prems by auto
  have IH: "walk is_tbl tbl q' root p' = (if p' = p @ [i] then Some P else walk is_tbl tbl q root p')"
    using snoc.IH p' by simp
  have t: "aligned 12 t" using wf_walkD wf p by blast
  show ?case
  proof (cases "p' = p @ [i]")
    case True
    have "q' (P + 8 * j) = 0"
      by (rule zero) (simp_all add: mem_simps fresh p')
    moreover have "walk is_tbl tbl q root p' = None"
      using True p(4) absent by (simp add: walk_snoc)
    moreover have "walk is_tbl tbl q' root p' = Some P" "p' @ [j] \<noteq> p @ [i]"
      using True IH by auto
    ultimately show ?thesis by (simp add: walk_snoc [of _ _ _ _ p'] not_tbl_0)
  next
    case False
    show ?thesis
    proof (cases "walk is_tbl tbl q root p'")
      case None
      with False IH p(4) show ?thesis by (auto simp: walk_snoc)
    next
      case (Some t')
      then have t': "t' \<in> S" "aligned 12 t'" using wf_walkD wf p' by blast+
      show ?thesis
      proof (cases "t' + 8 * j = t + 8 * i")
        case True
        then have "t' = t" "j = i" using entry_addr_eq_iff t t' p(3) p' by auto
        moreover from \<open>t' = t\<close> have "p' = p" using wf_inj [OF wf p'(1) p(1)] Some p(4) by simp
        ultimately show ?thesis using False IH Some new by (simp add: walk_snoc)
      next
        case ne: False
        have "pfn t' \<noteq> pfn P" using page_eq_iff t' fresh by auto
        then have "q' (t' + 8 * j) = q (t' + 8 * j)"
          using ne by (intro same) (simp_all add: mem_simps t' p')
        moreover have "p' @ [j] \<noteq> p @ [i]" using ne Some p(4) by auto
        ultimately show ?thesis using False IH Some by (auto simp: walk_snoc)
      qed
    qed
  qed
qed

lemma wf_install_table:
  assumes wf: "wf_tables is_tbl tbl q root S"
    and p: "path_ok p" "length p \<le> 2" "i < 512" "walk is_tbl tbl q root p = Some t"
    and absent: "\<not> is_tbl (q (t + 8 * i))"
    and fresh: "aligned 12 P" "P \<notin> S"
    and new: "is_tbl (q' (t + 8 * i))" "tbl (q' (t + 8 * i)) = P"
    and zero: "\<And>b. aligned 3 b \<Longrightarrow> pfn b = pfn P \<Longrightarrow> q' b = 0"
    and same: "\<And>b. aligned 3 b \<Longrightarrow> b \<noteq> t + 8 * i \<Longrightarrow> pfn b \<noteq> pfn P \<Longrightarrow> q' b = q b"
  shows "wf_tables is_tbl tbl q' root (insert P S)"
proof -
  have w: "walk is_tbl tbl q' root p' =
      (if p' = p @ [i] then Some P else walk is_tbl tbl q root p')" if "path_ok p'" for p'
    by (rule walk_install_table [OF assms that])
  have notP: "walk is_tbl tbl q root p' \<noteq> Some P" if "path_ok p'" for p'
    using wf_walkD(1) [OF wf that, of P] fresh by blast
  show ?thesis unfolding wf_tables_def
  proof (intro conjI allI impI)
    show "aligned 12 root" using wf by (simp add: wf_tables_def)
    show "t' \<in> insert P S" if "path_ok p'" "walk is_tbl tbl q' root p' = Some t'" for p' t'
      using that wf_walkD(1) [OF wf that(1)] by (simp add: w split: if_splits)
    show "p1 = p2" if "path_ok p1" "path_ok p2" "walk is_tbl tbl q' root p1 = Some t'"
      "walk is_tbl tbl q' root p2 = Some t'" for p1 p2 t'
      using that notP [of p1] notP [of p2] wf_inj [OF wf that(1,2)]
      by (simp add: w split: if_splits)
  qed
qed

lemma entry_install_table:
  assumes wf: "wf_tables is_tbl tbl q root S"
    and p: "path_ok p" "length p \<le> 2" "i < 512" "walk is_tbl tbl q root p = Some t"
    and absent: "\<not> is_tbl (q (t + 8 * i))"
    and fresh: "aligned 12 P" "P \<notin> S"
    and new: "is_tbl (q' (t + 8 * i))" "tbl (q' (t + 8 * i)) = P"
    and zero: "\<And>b. aligned 3 b \<Longrightarrow> pfn b = pfn P \<Longrightarrow> q' b = 0"
    and same: "\<And>b. aligned 3 b \<Longrightarrow> b \<noteq> t + 8 * i \<Longrightarrow> pfn b \<noteq> pfn P \<Longrightarrow> q' b = q b"
    and p': "path_ok p'" "j < 512"
  shows "entry is_tbl tbl q' root p' j =
    (if p' = p \<and> j = i then Some (q' (t + 8 * i))
     else if p' = p @ [i] then Some 0 else entry is_tbl tbl q root p' j)"
proof -
  have w: "walk is_tbl tbl q' root p' = (if p' = p @ [i] then Some P else walk is_tbl tbl q root p')"
    by (rule walk_install_table [OF wf p absent fresh new zero same p'(1)])
  show ?thesis
  proof (cases "p' = p @ [i] \<or> walk is_tbl tbl q root p' = None")
    case True
    have "q' (P + 8 * j) = 0"
      by (rule zero) (simp_all add: mem_simps fresh p')
    with True w p(4) show ?thesis by (auto simp: entry_def)
  next
    case False
    then obtain t' where t'w: "walk is_tbl tbl q root p' = Some t'" and ne: "p' \<noteq> p @ [i]" by auto
    then have t': "t' \<in> S" "aligned 12 t'" using wf_walkD wf p' by blast+
    have t: "aligned 12 t" using wf_walkD wf p by blast
    have pf: "pfn t' \<noteq> pfn P" using page_eq_iff t' fresh by auto
    show ?thesis
    proof (cases "t' + 8 * j = t + 8 * i")
      case True
      then have "t' = t" "j = i" using entry_addr_eq_iff t t' p(3) p' by auto
      moreover from \<open>t' = t\<close> have "p' = p" using wf_inj [OF wf p'(1) p(1)] t'w p(4) by simp
      ultimately show ?thesis using w ne t'w by (simp add: entry_def)
    next
      case ne2: False
      then have "q' (t' + 8 * j) = q (t' + 8 * j)"
        using pf by (intro same) (simp_all add: mem_simps t' p')
      moreover have "\<not> (p' = p \<and> j = i)" using ne2 t'w p(4) by auto
      ultimately show ?thesis using w ne t'w by (auto simp: entry_def)
    qed
  qed
qed

lemma walk_set_leaf:
  assumes wf: "wf_tables is_tbl tbl q root S"
    and p: "path_ok p" "i < 512" "walk is_tbl tbl q root p = Some t"
    and leaf: "length p = 3 \<or> \<not> is_tbl (q (t + 8 * i)) \<and> \<not> is_tbl (q' (t + 8 * i))"
    and same: "\<And>b. aligned 3 b \<Longrightarrow> b \<noteq> t + 8 * i \<Longrightarrow> q' b = q b"
    and p': "path_ok p'"
  shows "walk is_tbl tbl q' root p' = walk is_tbl tbl q root p'"
  using p'
proof (induction p' rule: rev_induct)
  case Nil
  then show ?case by simp
next
  case (snoc j p')
  have p': "path_ok p'" "length p' \<le> 2" "j < 512" using snoc.prems by auto
  have IH: "walk is_tbl tbl q' root p' = walk is_tbl tbl q root p'"
    using snoc.IH p' by simp
  have t: "aligned 12 t" using wf_walkD wf p by blast
  show ?case
  proof (cases "walk is_tbl tbl q root p'")
    case None
    with IH show ?thesis by (simp add: walk_snoc)
  next
    case (Some t')
    then have t': "t' \<in> S" "aligned 12 t'" using wf_walkD wf p' by blast+
    show ?thesis
    proof (cases "t' + 8 * j = t + 8 * i")
      case True
      then have "t' = t" "j = i" using entry_addr_eq_iff t t' p p' by auto
      moreover from \<open>t' = t\<close> have "p' = p" using wf_inj [OF wf p'(1) p(1)] Some p(3) by simp
      ultimately show ?thesis using IH Some leaf p' by (auto simp: walk_snoc)
    next
      case False
      then have "q' (t' + 8 * j) = q (t' + 8 * j)"
        by (intro same) (simp_all add: mem_simps t' p')
      then show ?thesis using IH Some by (simp add: walk_snoc)
    qed
  qed
qed

lemma wf_set_leaf:
  assumes wf: "wf_tables is_tbl tbl q root S"
    and p: "path_ok p" "i < 512" "walk is_tbl tbl q root p = Some t"
    and leaf: "length p = 3 \<or> \<not> is_tbl (q (t + 8 * i)) \<and> \<not> is_tbl (q' (t + 8 * i))"
    and same: "\<And>b. aligned 3 b \<Longrightarrow> b \<noteq> t + 8 * i \<Longrightarrow> q' b = q b"
  shows "wf_tables is_tbl tbl q' root S"
  using wf walk_set_leaf [OF assms] by (simp add: wf_tables_def)

lemma entry_set_leaf:
  assumes wf: "wf_tables is_tbl tbl q root S"
    and p: "path_ok p" "i < 512" "walk is_tbl tbl q root p = Some t"
    and leaf: "length p = 3 \<or> \<not> is_tbl (q (t + 8 * i)) \<and> \<not> is_tbl (q' (t + 8 * i))"
    and same: "\<And>b. aligned 3 b \<Longrightarrow> b \<noteq> t + 8 * i \<Longrightarrow> q' b = q b"
    and p': "path_ok p'" "j < 512"
  shows "entry is_tbl tbl q' root p' j =
    (if p' = p \<and> j = i then Some (q' (t + 8 * i)) else entry is_tbl tbl q root p' j)"
proof (cases "walk is_tbl tbl q root p'")
  case None
  with walk_set_leaf [OF wf p leaf same p'(1)] p(3) show ?thesis by (auto simp: entry_def)
next
  case (Some t')
  then have t': "t' \<in> S" "aligned 12 t'" using wf_walkD wf p' by blast+
  have t: "aligned 12 t" using wf_walkD wf p by blast
  note w = walk_set_leaf [OF wf p leaf same p'(1)]
  show ?thesis
  proof (cases "t' + 8 * j = t + 8 * i")
    case True
    then have "t' = t" "j = i" using entry_addr_eq_iff t t' p p' by auto
    moreover from \<open>t' = t\<close> have "p' = p" using wf_inj [OF wf p'(1) p(1)] Some p(3) by simp
    ultimately show ?thesis using w Some by (simp add: entry_def)
  next
    case False
    then have "q' (t' + 8 * j) = q (t' + 8 * j)"
      by (intro same) (simp_all add: mem_simps t' p')
    moreover have "\<not> (p' = p \<and> j = i)" using False Some p(3) by auto
    ultimately show ?thesis using w Some by (auto simp: entry_def)
  qed
qed

lemma walk_frame:
  assumes wf: "wf_tables is_tbl tbl q root S"
    and same: "\<And>t i. t \<in> S \<Longrightarrow> aligned 12 t \<Longrightarrow> i < 512 \<Longrightarrow> q' (t + 8 * i) = q (t + 8 * i)"
    and p': "path_ok p'"
  shows "walk is_tbl tbl q' root p' = walk is_tbl tbl q root p'"
  using p'
proof (induction p' rule: rev_induct)
  case Nil
  then show ?case by simp
next
  case (snoc j p')
  then have p': "path_ok p'" "j < 512" by auto
  then have IH: "walk is_tbl tbl q' root p' = walk is_tbl tbl q root p'" using snoc by simp
  show ?case
    using IH wf_walkD [OF wf p'(1)] same p'
    by (auto simp: walk_snoc split: option.splits)
qed

lemma wf_frame:
  assumes wf: "wf_tables is_tbl tbl q root S"
    and same: "\<And>t i. t \<in> S \<Longrightarrow> aligned 12 t \<Longrightarrow> i < 512 \<Longrightarrow> q' (t + 8 * i) = q (t + 8 * i)"
  shows "wf_tables is_tbl tbl q' root S"
  using wf walk_frame [OF assms] by (simp add: wf_tables_def)

lemma entry_frame:
  assumes wf: "wf_tables is_tbl tbl q root S"
    and same: "\<And>t i. t \<in> S \<Longrightarrow> aligned 12 t \<Longrightarrow> i < 512 \<Longrightarrow> q' (t + 8 * i) = q (t + 8 * i)"
    and p': "path_ok p'" "j < 512"
  shows "entry is_tbl tbl q' root p' j = entry is_tbl tbl q root p' j"
  using walk_frame [OF wf same p'(1)] wf_walkD [OF wf p'(1)] same p'(2)
  by (cases "walk is_tbl tbl q root p'") (auto simp: entry_def)

lemma wf_mono: "wf_tables is_tbl tbl q root S \<Longrightarrow> S \<subseteq> S' \<Longrightarrow> wf_tables is_tbl tbl q root S'"
  by (auto simp: wf_tables_def)

lemma wf_empty_root:
  assumes "aligned 12 root" "\<And>i. i < 512 \<Longrightarrow> q (root + 8 * i) = 0"
  shows "wf_tables is_tbl tbl q root {root}"
proof -
  have "walk is_tbl tbl q root p = (if p = [] then Some root else None)" if "path_ok p" for p
    using that assms(2) not_tbl_0 by (cases p) (auto simp: path_ok_def)
  then show ?thesis using assms(1) by (auto simp: wf_tables_def split: if_splits)
qed

end

end
