(* ===== verification/Paging.thy ===== *)
theory Paging
  imports Phys_Mem Page_Walk
begin

text \<open>
  The kernel's own four-level page tables, \<open>memory/paging.c\<close>: the entry formats of
  \<open>memory/include/paging.h\<close>, the software translation \<open>pa\<close>, and \<open>map_address\<close> with its
  five blocks (level 4, level 3, 2 MiB page, level 2 table, 4 KiB page).  The proofs go through the
  radix-table interface of \<open>Page_Walk\<close>, interpreted as \<open>host\<close>, and end with what one
  \<open>map_address\<close> call does to the translation of every address.
\<close>

section \<open>Entries and indices\<close>

definition LEVEL_4_INDEX :: "u64 \<Rightarrow> u64" where "LEVEL_4_INDEX addr = drop_bit 39 addr AND 0x1ff"
definition LEVEL_3_INDEX :: "u64 \<Rightarrow> u64" where "LEVEL_3_INDEX addr = drop_bit 30 addr AND 0x1ff"
definition LEVEL_2_INDEX :: "u64 \<Rightarrow> u64" where "LEVEL_2_INDEX addr = drop_bit 21 addr AND 0x1ff"
definition LEVEL_1_INDEX :: "u64 \<Rightarrow> u64" where "LEVEL_1_INDEX addr = drop_bit 12 addr AND 0x1ff"

definition e_present :: "u64 \<Rightarrow> bool" where "e_present e \<longleftrightarrow> bf_get 0 1 e \<noteq> 0"
definition e_page_size :: "u64 \<Rightarrow> bool" where "e_page_size e \<longleftrightarrow> bf_get 7 1 e \<noteq> 0"
definition e_table :: "u64 \<Rightarrow> u64" where "e_table e = bf_shl 52 12 (bf_get 12 52 e)"

section \<open>Translation and mapping\<close>

definition pa :: "kstate \<Rightarrow> u64 \<Rightarrow> u64" where
  "pa s va =
     (let q = load64 (kmem s);
          l4_entry = q (pml4_base s + 8 * LEVEL_4_INDEX va)
      in if \<not> e_present l4_entry then - 1 else
      let l3_entry = q (e_table l4_entry + 8 * LEVEL_3_INDEX va)
      in if \<not> e_present l3_entry then - 1 else
      let l2_entry = q (e_table l3_entry + 8 * LEVEL_2_INDEX va)
      in if e_present l2_entry \<and> e_page_size l2_entry
         then bf_shl 43 21 (bf_get 21 43 l2_entry) OR (va AND 0x1fffff) else
         if \<not> e_present l2_entry then - 1 else
      let l1_entry = q (e_table l2_entry + 8 * LEVEL_1_INDEX va)
      in if \<not> e_present l1_entry then - 1
         else bf_shl 52 12 (bf_get 12 52 l1_entry) OR (va AND 0xfff))"

text \<open>The three field assignments that hook a table into an entry.\<close>

definition write_table_entry :: "mem \<Rightarrow> u64 \<Rightarrow> u64 \<Rightarrow> mem" where
  "write_table_entry m a addr =
     set_field (set_field (set_field m a 0 1 1) a 1 1 1) a 12 52 (drop_bit 12 addr)"

definition install_pml4_entry :: "u64 \<Rightarrow> kstate \<Rightarrow> (int \<times> kstate) result" where
  "install_pml4_entry l4_entry s =
     (if e_present (load64 (kmem s) l4_entry) then Inr (errno ERROR_OK, s)
      else bind_result (get_physical_page s) (\<lambda>(pdp_address, s').
        if pdp_address = 0 then Inr (- errno ERROR_OUT_OF_MEMORY, s')
        else let m1 = memset (kmem s') pdp_address 0 PAGE_SIZE_4K;
                 m2 = memset m1 l4_entry 0 8
             in Inr (errno ERROR_OK, s'\<lparr>kmem := write_table_entry m2 l4_entry pdp_address\<rparr>)))"

definition install_pdp_entry :: "u64 \<Rightarrow> kstate \<Rightarrow> (int \<times> kstate) result" where
  "install_pdp_entry l3_entry s =
     (if e_present (load64 (kmem s) l3_entry) then Inr (errno ERROR_OK, s)
      else bind_result (get_physical_page s) (\<lambda>(pd_address, s').
        if pd_address = 0 then Inr (- errno ERROR_OUT_OF_MEMORY, s')
        else let m1 = memset (kmem s') pd_address 0 PAGE_SIZE_4K;
                 m2 = memset m1 l3_entry 0 8
             in Inr (errno ERROR_OK, s'\<lparr>kmem := write_table_entry m2 l3_entry pd_address\<rparr>)))"

definition install_pd_table_entry :: "u64 \<Rightarrow> kstate \<Rightarrow> (int \<times> kstate) result" where
  "install_pd_table_entry l2_entry s =
     (if e_present (load64 (kmem s) l2_entry) then Inr (errno ERROR_OK, s)
      else bind_result (get_physical_page s) (\<lambda>(pt_addr, s').
        if pt_addr = 0 then Inr (- errno ERROR_OUT_OF_MEMORY, s')
        else let m1 = memset (kmem s') l2_entry 0 8;
                 m2 = memset m1 pt_addr 0 PAGE_SIZE_4K
             in Inr (errno ERROR_OK, s'\<lparr>kmem := write_table_entry m2 l2_entry pt_addr\<rparr>)))"

definition install_2m_page :: "u64 \<Rightarrow> u64 \<Rightarrow> kstate \<Rightarrow> (int \<times> kstate) result" where
  "install_2m_page l2_entry phy_addr s =
     (if e_present (load64 (kmem s) l2_entry) then Inr (- errno ERROR_DUPLICATION, s)
      else if phy_addr AND 0x1fffff \<noteq> 0 then Inl Assertion_failed
      else let m0 = memset (kmem s) l2_entry 0 8;
               m1 = set_field m0 l2_entry 0 1 1;
               m2 = set_field m1 l2_entry 1 1 1;
               m3 = set_field m2 l2_entry 7 1 1;
               m4 = set_field m3 l2_entry 21 43 (drop_bit 21 phy_addr)
           in Inr (errno ERROR_OK, s\<lparr>kmem := m4\<rparr>))"

definition install_4k_page :: "u64 \<Rightarrow> u64 \<Rightarrow> kstate \<Rightarrow> (int \<times> kstate) result" where
  "install_4k_page l1_entry phy_addr s =
     (if e_present (load64 (kmem s) l1_entry) then Inr (- errno ERROR_DUPLICATION, s)
      else if phy_addr AND 0xfff \<noteq> 0 then Inl Assertion_failed
      else let m0 = memset (kmem s) l1_entry 0 8;
               m1 = set_field m0 l1_entry 0 1 1;
               m2 = set_field m1 l1_entry 1 1 1;
               m3 = set_field m2 l1_entry 12 52 (drop_bit 12 phy_addr)
           in Inr (errno ERROR_OK, s\<lparr>kmem := m3\<rparr>))"

definition map_address :: "u64 \<Rightarrow> u64 \<Rightarrow> u32 \<Rightarrow> kstate \<Rightarrow> (int \<times> kstate) result" where
  "map_address virt_addr phy_addr page_size s =
     (if \<not> (page_size = PAGE_SIZE_4K \<or> page_size = PAGE_SIZE_2M) then Inl Assertion_failed else
      let l4_entry = pml4_base s + 8 * LEVEL_4_INDEX virt_addr in
      bind_result (install_pml4_entry l4_entry s) (\<lambda>(rc, s1).
      if rc \<noteq> errno ERROR_OK then Inr (rc, s1) else
      let l3_entry = e_table (load64 (kmem s1) l4_entry) + 8 * LEVEL_3_INDEX virt_addr in
      bind_result (install_pdp_entry l3_entry s1) (\<lambda>(rc, s2).
      if rc \<noteq> errno ERROR_OK then Inr (rc, s2) else
      let l2_entry = e_table (load64 (kmem s2) l3_entry) + 8 * LEVEL_2_INDEX virt_addr in
      if page_size = PAGE_SIZE_2M then install_2m_page l2_entry phy_addr s2 else
      bind_result (install_pd_table_entry l2_entry s2) (\<lambda>(rc, s3).
      if rc \<noteq> errno ERROR_OK then Inr (rc, s3) else
      let l1_entry = e_table (load64 (kmem s3) l2_entry) + 8 * LEVEL_1_INDEX virt_addr in
      install_4k_page l1_entry phy_addr s3))))"

section \<open>The tables as radix tables\<close>

definition e_is_table :: "u64 \<Rightarrow> bool" where
  "e_is_table e \<longleftrightarrow> e_present e \<and> \<not> e_page_size e"

lemma aligned_e_table: "aligned 12 (e_table e)"
  by (auto simp: aligned_def e_table_def bf_shl_def intro!: bit_word_eqI simp: bit_simps)

interpretation host: radix_tables e_is_table e_table
  by unfold_locales (simp_all add: e_is_table_def e_present_def aligned_e_table)

abbreviation "kwalk m root p \<equiv> walk e_is_table e_table (load64 m) root p"
abbreviation "kentry m root p i \<equiv> entry e_is_table e_table (load64 m) root p i"

definition table_entry :: "u64 \<Rightarrow> u64" where
  "table_entry P = bf_set 12 52 (drop_bit 12 P) (bf_set 1 1 1 (bf_set 0 1 1 0))"

lemma write_table_entry_eq:
  "write_table_entry (store64 m a 0) a P = store64 m a (table_entry P)"
  by (simp add: write_table_entry_def table_entry_def mem_simps)

lemma table_entry_props:
  assumes "aligned 12 P" "unat P < 2 ^ 52"
  shows "e_present (table_entry P)" "\<not> e_page_size (table_entry P)" "e_is_table (table_entry P)"
    "e_table (table_entry P) = P"
proof -
  show "e_present (table_entry P)"
    by (simp add: e_present_def bf_simps table_entry_def bit_bf_set)
  show "\<not> e_page_size (table_entry P)"
    by (simp add: e_page_size_def bf_simps table_entry_def bit_bf_set)
  then show "e_is_table (table_entry P)"
    using \<open>e_present (table_entry P)\<close> by (simp add: e_is_table_def)
  show "e_table (table_entry P) = P"
    using aligned_bitD [OF assms(1)] bit_below [OF assms(2)]
    by (auto intro!: bit_word_eqI
      simp: e_table_def bf_shl_def bit_simps bit_bf_get table_entry_def bit_bf_set)
qed

text \<open>What the three blocks that add a table have in common.\<close>

definition install_table :: "u64 \<Rightarrow> kstate \<Rightarrow> (int \<times> kstate) result" where
  "install_table a s =
     (if e_present (load64 (kmem s) a) then Inr (0, s)
      else bind_result (get_physical_page s) (\<lambda>(P, s').
        if P = 0 then Inr (- 4, s')
        else Inr (0, s'\<lparr>kmem := store64 (memset (kmem s') P 0 4096) a (table_entry P)\<rparr>)))"

lemma install_pml4_entry_eq: "install_pml4_entry a s = install_table a s"
  by (cases "get_physical_page s")
    (auto simp: install_pml4_entry_def install_table_def memset_8_eq_store64 write_table_entry_eq Let_def)

lemma install_pdp_entry_eq: "install_pdp_entry a s = install_table a s"
  by (cases "get_physical_page s")
    (auto simp: install_pdp_entry_def install_table_def memset_8_eq_store64 write_table_entry_eq Let_def)

section \<open>Well-formed page tables\<close>

text \<open>
  \<open>kwf S s\<close>: the allocator invariant holds, the tables reached from \<open>pml4_base\<close> are distinct
  and lie in \<open>S\<close>, all of them were handed out by the allocator, and the two upper levels hold no
  large pages.
\<close>

definition kwf :: "u64 set \<Rightarrow> kstate \<Rightarrow> bool" where
  "kwf S s \<longleftrightarrow> pm_ok s \<and>
     wf_tables e_is_table e_table (load64 (kmem s)) (pml4_base s) S \<and>
     (\<forall>t \<in> S. aligned 12 t \<and> unat t + 4096 \<le> unat (current_avail_page s)) \<and>
     (\<forall>p i e. path_ok p \<longrightarrow> length p \<le> 1 \<longrightarrow> i < 512 \<longrightarrow>
        kentry (kmem s) (pml4_base s) p i = Some e \<longrightarrow> e_present e \<longrightarrow> e_is_table e)"

lemma kwf_wf: "kwf S s \<Longrightarrow> wf_tables e_is_table e_table (load64 (kmem s)) (pml4_base s) S"
  by (simp add: kwf_def)

lemma kwf_avail: "kwf S s \<Longrightarrow> current_avail_page s \<noteq> 0"
  using host.wf_walkD(1) [OF kwf_wf path_ok_Nil] by (fastforce simp: kwf_def)

lemma kwf_upper:
  "kwf S s \<Longrightarrow> path_ok p \<Longrightarrow> length p \<le> 1 \<Longrightarrow> i < 512 \<Longrightarrow>
   kentry (kmem s) (pml4_base s) p i = Some e \<Longrightarrow> e_present e \<Longrightarrow> e_is_table e"
  unfolding kwf_def by blast

lemma kwf_fresh:
  assumes "kwf S s"
  shows "current_avail_page s \<notin> S"
  using assms by (fastforce simp: kwf_def)

lemma install_pd_table_entry_eq:
  assumes wf: "kwf S s" and "path_ok p" "i < 512" "kwalk (kmem s) (pml4_base s) p = Some t"
  shows "install_pd_table_entry (t + 8 * i) s = install_table (t + 8 * i) s"
proof (cases "get_physical_page s")
  case (Inr r)
  obtain P s' where r: "r = (P, s')" by (cases r)
  have t: "t \<in> S" "aligned 12 t" using host.wf_walkD [OF kwf_wf [OF wf]] assms by auto
  show ?thesis
  proof (cases "P = 0")
    case False
    have pm: "pm_ok s" using wf by (simp add: kwf_def)
    note ok = get_physical_page_success [OF pm Inr [unfolded r] False]
    have "P \<noteq> t" using kwf_fresh [OF wf] ok(1) t by auto
    then have "pfn (t + 8 * i) \<noteq> pfn P" using ok(4) t assms(3) by (simp add: mem_simps page_eq_iff)
    then have "memset (store64 (kmem s') (t + 8 * i) 0) P 0 4096 =
        store64 (memset (kmem s') P 0 4096) (t + 8 * i) 0"
      by (intro memset_store64_commute) (simp_all add: ok(4) mem_simps t assms(3))
    then show ?thesis using Inr r False
      by (simp add: install_pd_table_entry_def install_table_def memset_8_eq_store64 write_table_entry_eq Let_def)
  qed (use Inr r in \<open>simp add: install_pd_table_entry_def install_table_def\<close>)
qed (simp add: install_pd_table_entry_def install_table_def)

section \<open>Translation as a function of the entries\<close>

lemma index_take_bit:
  "LEVEL_4_INDEX a = take_bit 9 (drop_bit 39 a)" "LEVEL_3_INDEX a = take_bit 9 (drop_bit 30 a)"
  "LEVEL_2_INDEX a = take_bit 9 (drop_bit 21 a)" "LEVEL_1_INDEX a = take_bit 9 (drop_bit 12 a)"
proof -
  have "(0x1ff :: u64) = mask 9" by (simp add: mask_numeral)
  then show
    "LEVEL_4_INDEX a = take_bit 9 (drop_bit 39 a)" "LEVEL_3_INDEX a = take_bit 9 (drop_bit 30 a)"
    "LEVEL_2_INDEX a = take_bit 9 (drop_bit 21 a)" "LEVEL_1_INDEX a = take_bit 9 (drop_bit 12 a)"
    by (simp_all only: LEVEL_4_INDEX_def LEVEL_3_INDEX_def LEVEL_2_INDEX_def LEVEL_1_INDEX_def
      take_bit_eq_mask)
qed

lemma index_less [simp]:
  "LEVEL_4_INDEX a < 512" "LEVEL_3_INDEX a < 512" "LEVEL_2_INDEX a < 512" "LEVEL_1_INDEX a < 512"
proof -
  have t: "take_bit 9 w < 512" for w :: u64
    using take_bit_nat_less_exp [of 9 "unat w"] by (simp add: word_less_nat_alt unsigned_take_bit_eq)
  show
    "LEVEL_4_INDEX a < 512" "LEVEL_3_INDEX a < 512" "LEVEL_2_INDEX a < 512" "LEVEL_1_INDEX a < 512"
    unfolding index_take_bit by (rule t)+
qed

definition idx4 :: "u64 \<Rightarrow> u64 list" where "idx4 a = [LEVEL_4_INDEX a]"
definition idx3 :: "u64 \<Rightarrow> u64 list" where "idx3 a = [LEVEL_4_INDEX a, LEVEL_3_INDEX a]"
definition idx2 :: "u64 \<Rightarrow> u64 list" where
  "idx2 a = [LEVEL_4_INDEX a, LEVEL_3_INDEX a, LEVEL_2_INDEX a]"

lemma idx_snoc: "idx4 a = [] @ [LEVEL_4_INDEX a]" "idx3 a = idx4 a @ [LEVEL_3_INDEX a]"
  "idx2 a = idx3 a @ [LEVEL_2_INDEX a]"
  by (simp_all add: idx4_def idx3_def idx2_def)

lemma path_ok_idx [simp]: "path_ok (idx4 a)" "path_ok (idx3 a)" "path_ok (idx2 a)"
  by (simp_all add: idx4_def idx3_def idx2_def path_ok_def)

lemma length_idx [simp]: "length (idx4 a) = 1" "length (idx3 a) = 2" "length (idx2 a) = 3"
  by (simp_all add: idx4_def idx3_def idx2_def)

definition leaf_pa :: "(u64 list \<Rightarrow> u64 \<Rightarrow> u64 option) \<Rightarrow> u64 \<Rightarrow> u64" where
  "leaf_pa f va =
     (case f (idx3 va) (LEVEL_2_INDEX va) of None \<Rightarrow> - 1 | Some e2 \<Rightarrow>
        if e_present e2 \<and> e_page_size e2
        then bf_shl 43 21 (bf_get 21 43 e2) OR (va AND 0x1fffff)
        else case f (idx2 va) (LEVEL_1_INDEX va) of None \<Rightarrow> - 1 | Some e1 \<Rightarrow>
          if e_present e1 then bf_shl 52 12 (bf_get 12 52 e1) OR (va AND 0xfff) else - 1)"

lemma leaf_pa_cong:
  assumes "f (idx3 va) (LEVEL_2_INDEX va) = g (idx3 va) (LEVEL_2_INDEX va)"
    "f (idx2 va) (LEVEL_1_INDEX va) = g (idx2 va) (LEVEL_1_INDEX va)"
  shows "leaf_pa f va = leaf_pa g va"
  unfolding leaf_pa_def assms ..

lemma pa_eq_leaf:
  assumes "kwf S s"
  shows "pa s va = leaf_pa (kentry (kmem s) (pml4_base s)) va"
proof -
  let ?q = "load64 (kmem s)"
  let ?e4 = "?q (pml4_base s + 8 * LEVEL_4_INDEX va)"
  let ?e3 = "?q (e_table ?e4 + 8 * LEVEL_3_INDEX va)"
  have u4: "e_present ?e4 \<Longrightarrow> e_is_table ?e4"
    using kwf_upper [OF assms, of "[]" "LEVEL_4_INDEX va"] by (simp add: entry_def)
  have u3: "e_present ?e3 \<Longrightarrow> e_is_table ?e3" if "e_is_table ?e4"
    using kwf_upper [OF assms path_ok_idx(1) [of va], of "LEVEL_3_INDEX va"] that
    by (simp add: entry_def idx4_def)
  show ?thesis
    using u4 u3
    by (auto simp: pa_def leaf_pa_def Let_def entry_def idx3_def idx2_def e_is_table_def)
qed

section \<open>Adding a table\<close>

definition added_table :: "(u64 list \<Rightarrow> u64 \<Rightarrow> u64 option) \<Rightarrow> (u64 list \<Rightarrow> u64 \<Rightarrow> u64 option) \<Rightarrow>
    u64 list \<Rightarrow> u64 \<Rightarrow> u64 \<Rightarrow> bool" where
  "added_table f f' p i e \<longleftrightarrow> (\<forall>p' j. path_ok p' \<longrightarrow> j < 512 \<longrightarrow>
     f' p' j = (if p' = p \<and> j = i then Some e else if p' = p @ [i] then Some 0 else f p' j))"

lemma added_tableD:
  "added_table f f' p i e \<Longrightarrow> path_ok p' \<Longrightarrow> j < 512 \<Longrightarrow>
     f' p' j = (if p' = p \<and> j = i then Some e else if p' = p @ [i] then Some 0 else f p' j)"
  by (simp add: added_table_def)

lemma leaf_pa_added_table:
  assumes add: "added_table f f' p i e" and p: "length p \<le> 2"
    and old: "f p i = Some e0" "\<not> e_present e0" and new: "e_is_table e"
    and none: "\<And>r j. f (p @ i # r) j = None"
  shows "leaf_pa f' va = leaf_pa f va"
proof -
  note e2 = added_tableD [OF add path_ok_idx(2) index_less(3), of va va]
  note e1 = added_tableD [OF add path_ok_idx(3) index_less(4), of va va]
  have np: "\<not> e_present 0" by (simp add: e_present_def)
  have l: "idx2 va \<noteq> p" using p by auto
  consider "p @ [i] = idx3 va" | "p @ [i] = idx2 va" | "p @ [i] \<noteq> idx3 va" "p @ [i] \<noteq> idx2 va"
    by blast
  then show ?thesis
  proof cases
    case 1
    then have "f (idx3 va) (LEVEL_2_INDEX va) = None" using none [of "[]"] by simp
    moreover have "f' (idx3 va) (LEVEL_2_INDEX va) = Some 0" using 1 e2 by auto
    moreover have "f' (idx2 va) (LEVEL_1_INDEX va) = None"
    proof -
      have i2: "idx2 va = (p @ [i]) @ [LEVEL_2_INDEX va]" by (simp only: 1 idx_snoc(3))
      then have "idx2 va = p @ i # [LEVEL_2_INDEX va]" by simp
      then have "f (idx2 va) (LEVEL_1_INDEX va) = None" using none by simp
      moreover have "idx2 va \<noteq> p @ [i]" using i2 by auto
      ultimately show ?thesis using e1 l by simp
    qed
    ultimately show ?thesis by (simp add: leaf_pa_def np)
  next
    case 2
    then have pi: "p = idx3 va" "i = LEVEL_2_INDEX va" by (simp_all add: idx_snoc)
    have "f (idx2 va) (LEVEL_1_INDEX va) = None" using none [of "[]"] 2 by simp
    moreover have "f' (idx2 va) (LEVEL_1_INDEX va) = Some 0" using 2 l e1 by auto
    ultimately show ?thesis using e2 pi old new by (simp add: leaf_pa_def np e_is_table_def)
  next
    case 3
    then have "\<not> (idx3 va = p \<and> LEVEL_2_INDEX va = i)" by (auto simp: idx_snoc)
    with 3 l e1 e2 show ?thesis by (intro leaf_pa_cong) simp_all
  qed
qed

lemma install_table_cases:
  assumes wf: "kwf S s" and r: "install_table a s = Inr (rc, s')"
  obtains (present) "e_present (load64 (kmem s) a)" "rc = 0" "s' = s"
  | (exhausted) "\<not> e_present (load64 (kmem s) a)" "rc = - 4" "s' = s"
  | (fresh) P c where "\<not> e_present (load64 (kmem s) a)" "rc = 0" "P = current_avail_page s"
      "s' = s\<lparr>kmem := store64 (memset (kmem s) P 0 4096) a (table_entry P), current_avail_page := c\<rparr>"
      "pm_ok (s\<lparr>current_avail_page := c\<rparr>)" "aligned 12 P" "unat P + 4096 \<le> unat c" "unat P < 2 ^ 52"
proof (cases "e_present (load64 (kmem s) a)")
  case True
  with r have "rc = 0" "s' = s" by (simp_all add: install_table_def)
  with True show thesis by (rule present)
next
  case absent: False
  obtain P s1 where g: "get_physical_page s = Inr (P, s1)"
    using get_physical_page_not_Inl [of s] by (cases "get_physical_page s") auto
  have pm: "pm_ok s" using wf by (simp add: kwf_def)
  show thesis
  proof (cases "P = 0")
    case True
    have "s1 = s" by (rule get_physical_page_fail [OF g [unfolded True] kwf_avail [OF wf]])
    with True g r absent have "rc = - 4" "s' = s" by (simp_all add: install_table_def)
    with absent show thesis by (rule exhausted)
  next
    case False
    note ok = get_physical_page_success [OF pm g False]
    obtain c where c: "s1 = s\<lparr>current_avail_page := c\<rparr>" using ok(2) by blast
    show thesis
    proof (rule fresh [of P c])
      show "rc = 0"
        "s' = s\<lparr>kmem := store64 (memset (kmem s) P 0 4096) a (table_entry P), current_avail_page := c\<rparr>"
        using r absent g False c by (auto simp: install_table_def)
      show "pm_ok (s\<lparr>current_avail_page := c\<rparr>)" using ok(3) c by simp
      show "unat P + 4096 \<le> unat c" using ok(5) c by simp
      show "unat P < 2 ^ 52" using ok(6) by simp
    qed (rule ok(1) ok(4) absent)+
  qed
qed

lemma install_table_fresh:
  assumes wf: "kwf S s"
    and p: "path_ok p" "length p \<le> 2" "i < 512" "kwalk (kmem s) (pml4_base s) p = Some t"
    and absent: "\<not> e_present (load64 (kmem s) (t + 8 * i))"
    and P: "P = current_avail_page s" "aligned 12 P" "unat P + 4096 \<le> unat c" "unat P < 2 ^ 52"
    and pm: "pm_ok (s\<lparr>current_avail_page := c\<rparr>)"
    and s': "s' = s\<lparr>kmem := store64 (memset (kmem s) P 0 4096) (t + 8 * i) (table_entry P),
      current_avail_page := c\<rparr>"
  shows "kwf (insert P S) s'"
    and "kwalk (kmem s') (pml4_base s') (p @ [i]) = Some P"
    and "kwalk (kmem s') (pml4_base s') p = Some t"
    and "load64 (kmem s') (t + 8 * i) = table_entry P"
    and "pa s' va = pa s va"
    and "added_table (kentry (kmem s) (pml4_base s)) (kentry (kmem s') (pml4_base s')) p i (table_entry P)"
proof -
  have t: "t \<in> S" "aligned 12 t" using host.wf_walkD [OF kwf_wf [OF wf]] p by auto
  have PS: "P \<notin> S" using kwf_fresh [OF wf] P(1) by simp
  have m': "kmem s' = store64 (memset (kmem s) P 0 4096) (t + 8 * i) (table_entry P)" "pml4_base s' = pml4_base s"
    by (simp_all add: s')
  note te = table_entry_props [OF P(2,4)]
  have tP: "t \<noteq> P" using t(1) PS by auto
  note q = fresh_table_mem [OF t(2) P(2) tP p(3) m'(1)]
  show ld: "load64 (kmem s') (t + 8 * i) = table_entry P" by (rule q(1))
  have abs: "\<not> e_is_table (load64 (kmem s) (t + 8 * i))" using absent by (simp add: e_is_table_def)
  have new: "e_is_table (load64 (kmem s') (t + 8 * i))" "e_table (load64 (kmem s') (t + 8 * i)) = P"
    using te by (simp_all add: ld)
  note facts = kwf_wf [OF wf] p abs P(2) PS new q(2,3)
  show "kwalk (kmem s') (pml4_base s') (p @ [i]) = Some P" "kwalk (kmem s') (pml4_base s') p = Some t"
    unfolding m'(2) using host.walk_install_table [OF facts] p by simp_all
  have add: "added_table (kentry (kmem s) (pml4_base s)) (kentry (kmem s') (pml4_base s)) p i (table_entry P)"
    unfolding added_table_def using host.entry_install_table [OF facts] ld by simp
  then show "added_table (kentry (kmem s) (pml4_base s)) (kentry (kmem s') (pml4_base s')) p i (table_entry P)"
    unfolding m'(2) .
  show wf': "kwf (insert P S) s'" unfolding kwf_def
  proof (intro conjI allI impI ballI)
    show "pm_ok s'" using pm by (simp add: s' pm_ok_def)
    show "wf_tables e_is_table e_table (load64 (kmem s')) (pml4_base s') (insert P S)"
      unfolding m'(2) by (rule host.wf_install_table [OF facts])
    show "aligned 12 t'" "unat t' + 4096 \<le> unat (current_avail_page s')" if "t' \<in> insert P S" for t'
      using that wf P(1,2,3) by (fastforce simp: kwf_def s')+
    show "e_is_table e" if "path_ok p'" "length p' \<le> 1" "j < 512"
      "kentry (kmem s') (pml4_base s') p' j = Some e" "e_present e" for p' j e
      using that(4,5) te(3) kwf_upper [OF wf that(1-3)] added_tableD [OF add that(1,3)]
      by (auto simp: m'(2) e_present_def split: if_splits)
  qed
  have "pa s' va = leaf_pa (kentry (kmem s') (pml4_base s)) va"
    using pa_eq_leaf [OF wf'] m'(2) by simp
  also have "\<dots> = leaf_pa (kentry (kmem s) (pml4_base s)) va"
    using p absent
    by (intro leaf_pa_added_table [OF add p(2) _ absent te(3)] entry_below_leaf [OF p(4) abs])
      (simp add: entry_def)
  finally show "pa s' va = pa s va" using pa_eq_leaf [OF wf] by simp
qed

text \<open>Memory outside the pages of \<open>S\<close> is unchanged.\<close>

definition untouched :: "u64 set \<Rightarrow> kstate \<Rightarrow> kstate \<Rightarrow> bool" where
  "untouched S s s' \<longleftrightarrow> (\<forall>x. pfn x \<notin> pfn ` S \<longrightarrow> kmem s' x = kmem s x)"

lemma untouched_refl [simp]: "untouched S s s"
  by (simp add: untouched_def)

lemma untouched_trans: "untouched S s s' \<Longrightarrow> untouched S' s' s'' \<Longrightarrow> S \<subseteq> S' \<Longrightarrow> untouched S' s s''"
  by (auto simp: untouched_def)

lemma untouched_store:
  assumes "t \<in> S" "aligned 12 t" "i < 512"
  shows "untouched S s (s\<lparr>kmem := store64 (kmem s) (t + 8 * i) v\<rparr>)"
  using assms by (auto simp: untouched_def mem_simps intro!: store64_frame)

lemma install_table_ok:
  assumes wf: "kwf S s"
    and p: "path_ok p" "length p \<le> 2" "i < 512" "kwalk (kmem s) (pml4_base s) p = Some t"
    and r: "install_table (t + 8 * i) s = Inr (rc, s')"
  obtains S' where "S \<subseteq> S'" "kwf S' s'" "pml4_base s' = pml4_base s" "\<And>va. pa s' va = pa s va"
    "rc = 0 \<Longrightarrow> kwalk (kmem s') (pml4_base s') p = Some t"
    "rc = 0 \<Longrightarrow> e_present (load64 (kmem s') (t + 8 * i))"
    "untouched S' s s'"
  using wf r
proof (cases rule: install_table_cases)
  case present
  with wf p show thesis by (intro that [of S]) simp_all
next
  case exhausted
  with wf p show thesis by (intro that [of S]) simp_all
next
  case (fresh P c)
  note f = install_table_fresh [OF wf p fresh(1,3,6,7,8,5,4)]
  have te: "e_present (table_entry P)" "e_is_table (table_entry P)"
    using table_entry_props [OF fresh(6,8)] by simp_all
  have t: "t \<in> S" "aligned 12 t" using host.wf_walkD [OF kwf_wf [OF wf]] p by auto
  have "kmem s' x = kmem s x" if "pfn x \<noteq> pfn P" "pfn x \<notin> pfn ` S" for x
  proof -
    have "pfn x \<noteq> pfn (t + 8 * i)" using that(2) t p(3) by (auto simp: mem_simps)
    then show ?thesis using that(1) t p(3) fresh(6) by (simp add: fresh(4) mem_simps store64_frame memset_frame)
  qed
  then have un: "untouched (insert P S) s s'" by (auto simp: untouched_def)
  show thesis
    by (rule that [of "insert P S"]) (use f te un fresh(4) in auto)
qed

section \<open>Writing a page entry\<close>

lemma install_table_walk:
  assumes "kwf S' s'" "path_ok p" "length p \<le> 1" "i < 512" "kwalk (kmem s') (pml4_base s') p = Some t"
    "e_present (load64 (kmem s') (t + 8 * i))"
  shows "kwalk (kmem s') (pml4_base s') (p @ [i]) = Some (e_table (load64 (kmem s') (t + 8 * i)))"
  using kwf_upper [OF assms(1-4), of "load64 (kmem s') (t + 8 * i)"] assms(5,6)
  by (simp add: walk_snoc entry_def)

definition page_entry_2m :: "u64 \<Rightarrow> u64" where
  "page_entry_2m phy = bf_set 21 43 (drop_bit 21 phy) (bf_set 7 1 1 (bf_set 1 1 1 (bf_set 0 1 1 0)))"

definition page_entry_4k :: "u64 \<Rightarrow> u64" where
  "page_entry_4k phy = bf_set 12 52 (drop_bit 12 phy) (bf_set 1 1 1 (bf_set 0 1 1 0))"

lemma page_entry_2m_props:
  "e_present (page_entry_2m phy)" "e_page_size (page_entry_2m phy)" "\<not> e_is_table (page_entry_2m phy)"
  by (simp_all add: e_present_def e_page_size_def e_is_table_def bf_simps page_entry_2m_def bit_bf_set)

lemma page_entry_4k_props: "e_present (page_entry_4k phy)"
  by (simp add: e_present_def bf_simps page_entry_4k_def bit_bf_set)

lemma page_entry_2m_addr:
  assumes "aligned 21 phy"
  shows "bf_shl 43 21 (bf_get 21 43 (page_entry_2m phy)) = take_bit 43 phy"
  using aligned_bitD [OF assms]
  by (auto intro!: bit_word_eqI
    simp: bf_shl_def bit_simps bit_bf_get page_entry_2m_def bit_bf_set)

lemma page_entry_4k_addr:
  assumes "aligned 12 phy"
  shows "bf_shl 52 12 (bf_get 12 52 (page_entry_4k phy)) = take_bit 52 phy"
  using aligned_bitD [OF assms]
  by (auto intro!: bit_word_eqI
    simp: bf_shl_def bit_simps bit_bf_get page_entry_4k_def bit_bf_set)

lemma page_entry_2m_table:
  assumes "aligned 21 phy"
  shows "e_table (page_entry_2m phy) = take_bit 52 phy"
proof (rule bit_word_eqI)
  fix n
  have t: "bit (e_table e) n \<longleftrightarrow> n < 52 \<and> 12 \<le> n \<and> bit e n" for e
    by (auto simp: e_table_def bf_shl_def bit_simps bit_bf_get)
  have e: "12 \<le> n \<Longrightarrow> bit (page_entry_2m phy) n \<longleftrightarrow> 21 \<le> n \<and> n < 64 \<and> bit phy n"
    by (auto simp: page_entry_2m_def bit_bf_set bit_simps)
  show "bit (e_table (page_entry_2m phy)) n = bit (take_bit 52 phy) n"
    using aligned_bitD [OF assms, of n] e by (auto simp: t bit_take_bit_iff)
qed

lemma and_mask_aligned:
  "phy AND 0xfff = 0 \<longleftrightarrow> aligned 12 phy" "phy AND 0x1fffff = 0 \<longleftrightarrow> aligned 21 phy" for phy :: u64
proof -
  have "(0xfff :: u64) = mask 12" "(0x1fffff :: u64) = mask 21" by (simp_all add: mask_numeral)
  then show "phy AND 0xfff = 0 \<longleftrightarrow> aligned 12 phy" "phy AND 0x1fffff = 0 \<longleftrightarrow> aligned 21 phy"
    by (simp_all only: aligned_def take_bit_eq_mask)
qed

lemma install_2m_page_eq:
  "install_2m_page a phy s =
     (if e_present (load64 (kmem s) a) then Inr (- errno ERROR_DUPLICATION, s)
      else if \<not> aligned 21 phy then Inl Assertion_failed
      else Inr (0, s\<lparr>kmem := store64 (kmem s) a (page_entry_2m phy)\<rparr>))"
  by (simp add: install_2m_page_def Let_def memset_8_eq_store64 and_mask_aligned
    page_entry_2m_def mem_simps)

lemma install_4k_page_eq:
  "install_4k_page a phy s =
     (if e_present (load64 (kmem s) a) then Inr (- errno ERROR_DUPLICATION, s)
      else if \<not> aligned 12 phy then Inl Assertion_failed
      else Inr (0, s\<lparr>kmem := store64 (kmem s) a (page_entry_4k phy)\<rparr>))"
  by (simp add: install_4k_page_def Let_def memset_8_eq_store64 and_mask_aligned
    page_entry_4k_def mem_simps)

definition same_page :: "nat \<Rightarrow> u64 \<Rightarrow> u64 \<Rightarrow> bool" where
  "same_page n va va' \<longleftrightarrow> take_bit (48 - n) (drop_bit n va') = take_bit (48 - n) (drop_bit n va)"

lemma field_eq_iff:
  "take_bit n (drop_bit k a) = take_bit n (drop_bit k b) \<longleftrightarrow> (\<forall>j. k \<le> j \<and> j < k + n \<longrightarrow> bit a j = bit b j)"
  for a b :: u64
proof
  assume eq: "take_bit n (drop_bit k a) = take_bit n (drop_bit k b)"
  have "bit a j = bit b j" if "k \<le> j" "j < k + n" for j
  proof -
    have "bit (take_bit n (drop_bit k a)) (j - k) = bit (take_bit n (drop_bit k b)) (j - k)"
      using eq by simp
    moreover have "j - k < n" "k + (j - k) = j" using that by auto
    ultimately show ?thesis by (simp add: bit_take_bit_iff bit_drop_bit_eq)
  qed
  then show "\<forall>j. k \<le> j \<and> j < k + n \<longrightarrow> bit a j = bit b j" by blast
next
  assume "\<forall>j. k \<le> j \<and> j < k + n \<longrightarrow> bit a j = bit b j"
  then show "take_bit n (drop_bit k a) = take_bit n (drop_bit k b)"
    by (intro bit_word_eqI) (auto simp: bit_take_bit_iff bit_drop_bit_eq)
qed

lemma split_range:
  fixes Q :: "nat \<Rightarrow> bool"
  assumes "a \<le> b" "b \<le> c"
  shows "(\<forall>j. a \<le> j \<and> j < c \<longrightarrow> Q j) \<longleftrightarrow>
    (\<forall>j. b \<le> j \<and> j < c \<longrightarrow> Q j) \<and> (\<forall>j. a \<le> j \<and> j < b \<longrightarrow> Q j)"
  using assms by (meson le_less_trans less_imp_le_nat less_le_trans linorder_not_less)

lemma same_page_2m:
  "same_page 21 va va' \<longleftrightarrow> idx3 va' = idx3 va \<and> LEVEL_2_INDEX va' = LEVEL_2_INDEX va"
  unfolding same_page_def idx3_def index_take_bit list.inject field_eq_iff
  using split_range [of 21 39 48 "\<lambda>j. bit va' j = bit va j"]
    split_range [of 21 30 39 "\<lambda>j. bit va' j = bit va j"]
  by simp

lemma same_page_4k:
  "same_page 12 va va' \<longleftrightarrow> idx2 va' = idx2 va \<and> LEVEL_1_INDEX va' = LEVEL_1_INDEX va"
  unfolding same_page_def idx2_def index_take_bit list.inject field_eq_iff
  using split_range [of 12 39 48 "\<lambda>j. bit va' j = bit va j"]
    split_range [of 12 30 39 "\<lambda>j. bit va' j = bit va j"]
    split_range [of 12 21 30 "\<lambda>j. bit va' j = bit va j"]
  by simp

definition set_leaf :: "(u64 list \<Rightarrow> u64 \<Rightarrow> u64 option) \<Rightarrow> (u64 list \<Rightarrow> u64 \<Rightarrow> u64 option) \<Rightarrow>
    u64 list \<Rightarrow> u64 \<Rightarrow> u64 \<Rightarrow> bool" where
  "set_leaf f f' p i e \<longleftrightarrow> (\<forall>p' j. path_ok p' \<longrightarrow> j < 512 \<longrightarrow>
     f' p' j = (if p' = p \<and> j = i then Some e else f p' j))"

lemma set_leafD:
  "set_leaf f f' p i e \<Longrightarrow> path_ok p' \<Longrightarrow> j < 512 \<Longrightarrow>
     f' p' j = (if p' = p \<and> j = i then Some e else f p' j)"
  by (simp add: set_leaf_def)

lemma leaf_pa_set_2m:
  assumes "set_leaf f f' (idx3 va) (LEVEL_2_INDEX va) (page_entry_2m phy)" "aligned 21 phy"
  shows "leaf_pa f' va' =
    (if same_page 21 va va' then take_bit 43 phy OR (va' AND 0x1fffff) else leaf_pa f va')"
proof -
  have l: "idx2 va' \<noteq> idx3 va" using length_idx(2) [of va] length_idx(3) [of va'] by force
  note e2 = set_leafD [OF assms(1) path_ok_idx(2) index_less(3), of va' va']
  note e1 = set_leafD [OF assms(1) path_ok_idx(3) index_less(4), of va' va']
  show ?thesis
  proof (cases "same_page 21 va va'")
    case True
    with e2 show ?thesis
      by (simp add: same_page_2m leaf_pa_def page_entry_2m_props page_entry_2m_addr assms(2))
  next
    case False
    then have "leaf_pa f' va' = leaf_pa f va'"
      using e1 e2 l by (intro leaf_pa_cong) (auto simp: same_page_2m)
    with False show ?thesis by simp
  qed
qed

lemma leaf_pa_set_4k:
  assumes "set_leaf f f' (idx2 va) (LEVEL_1_INDEX va) (page_entry_4k phy)" "aligned 12 phy"
    and tbl: "f (idx3 va) (LEVEL_2_INDEX va) = Some e" "e_is_table e"
  shows "leaf_pa f' va' =
    (if same_page 12 va va' then take_bit 52 phy OR (va' AND 0xfff) else leaf_pa f va')"
proof -
  have l: "idx3 va' \<noteq> idx2 va" using length_idx(3) [of va] length_idx(2) [of va'] by force
  note e2 = set_leafD [OF assms(1) path_ok_idx(2) index_less(3), of va' va']
  note e1 = set_leafD [OF assms(1) path_ok_idx(3) index_less(4), of va' va']
  show ?thesis
  proof (cases "same_page 12 va va'")
    case True
    then have "idx3 va' = idx3 va" "LEVEL_2_INDEX va' = LEVEL_2_INDEX va"
      by (simp_all add: same_page_4k idx2_def idx3_def)
    with True e1 e2 l tbl show ?thesis
      by (simp add: same_page_4k leaf_pa_def page_entry_4k_props page_entry_4k_addr assms(2) e_is_table_def)
  next
    case False
    then have "leaf_pa f' va' = leaf_pa f va'"
      using e1 e2 l by (intro leaf_pa_cong) (auto simp: same_page_4k)
    with False show ?thesis by simp
  qed
qed

lemma store_leaf_ok:
  assumes wf: "kwf S s" and p: "path_ok p" "2 \<le> length p" "i < 512" "kwalk (kmem s) (pml4_base s) p = Some t"
    and leaf: "length p = 3 \<or> \<not> e_is_table (load64 (kmem s) (t + 8 * i)) \<and> \<not> e_is_table e"
    and s': "s' = s\<lparr>kmem := store64 (kmem s) (t + 8 * i) e\<rparr>"
  shows "kwf S s'" and "set_leaf (kentry (kmem s) (pml4_base s)) (kentry (kmem s') (pml4_base s')) p i e"
    and "untouched S s s'"
proof -
  have t: "t \<in> S" "aligned 12 t" using host.wf_walkD [OF kwf_wf [OF wf]] p by auto
  show "untouched S s s'" unfolding s' by (rule untouched_store [OF t p(3)])
  have m': "kmem s' = store64 (kmem s) (t + 8 * i) e" "pml4_base s' = pml4_base s" by (simp_all add: s')
  note q = leaf_mem [OF t(2) p(3) m'(1)]
  have leaf': "length p = 3 \<or> \<not> e_is_table (load64 (kmem s) (t + 8 * i)) \<and>
      \<not> e_is_table (load64 (kmem s') (t + 8 * i))"
    using leaf q(1) by simp
  note facts = kwf_wf [OF wf] p(1,3,4) leaf' q(2)
  show set: "set_leaf (kentry (kmem s) (pml4_base s)) (kentry (kmem s') (pml4_base s')) p i e"
    unfolding set_leaf_def m'(2) using host.entry_set_leaf [OF facts] q(1) by simp
  show "kwf S s'" unfolding kwf_def
  proof (intro conjI allI impI ballI)
    show "pm_ok s'" using wf by (simp add: s' pm_ok_def kwf_def)
    show "wf_tables e_is_table e_table (load64 (kmem s')) (pml4_base s') S"
      unfolding m'(2) by (rule host.wf_set_leaf [OF facts])
    show "aligned 12 t'" "unat t' + 4096 \<le> unat (current_avail_page s')" if "t' \<in> S" for t'
      using that wf by (simp_all add: kwf_def s')
    show "e_is_table e'" if "path_ok p'" "length p' \<le> 1" "j < 512"
      "kentry (kmem s') (pml4_base s') p' j = Some e'" "e_present e'" for p' j e'
    proof -
      have "p' \<noteq> p" using that(2) p(2) by auto
      then show ?thesis
        using that(4,5) kwf_upper [OF wf that(1-3)] set_leafD [OF set that(1,3)] by simp
    qed
  qed
qed

section \<open>One call of \<open>map_address\<close>\<close>

definition frames :: "u64 set \<Rightarrow> kstate \<Rightarrow> u64 set \<Rightarrow> kstate \<Rightarrow> bool" where
  "frames S s S' s' \<longleftrightarrow> S \<subseteq> S' \<and> kwf S' s' \<and> pml4_base s' = pml4_base s \<and>
     (\<forall>va. pa s' va = pa s va) \<and> untouched S' s s'"

lemma install_upper:
  assumes wf: "kwf S s" and p: "path_ok p" "length p \<le> 1" "i < 512" "kwalk (kmem s) (pml4_base s) p = Some t"
    and r: "install_table (t + 8 * i) s = Inr (rc, s')"
  obtains S' where "frames S s S' s'"
    "rc = 0 \<Longrightarrow> kwalk (kmem s') (pml4_base s') (p @ [i]) = Some (e_table (load64 (kmem s') (t + 8 * i)))"
proof -
  have "length p \<le> 2" using p(2) by simp
  from install_table_ok [OF wf p(1) this p(3,4) r] obtain S' where S':
    "S \<subseteq> S'" "kwf S' s'" "pml4_base s' = pml4_base s" "\<And>va. pa s' va = pa s va"
    "rc = 0 \<Longrightarrow> kwalk (kmem s') (pml4_base s') p = Some t"
    "rc = 0 \<Longrightarrow> e_present (load64 (kmem s') (t + 8 * i))" "untouched S' s s'" by metis
  show thesis
  proof (rule that [of S'])
    show "frames S s S' s'" using S' by (simp add: frames_def)
    show "kwalk (kmem s') (pml4_base s') (p @ [i]) = Some (e_table (load64 (kmem s') (t + 8 * i)))"
      if "rc = 0"
      using install_table_walk [OF S'(2) p(1-3) S'(5,6)] that by simp
  qed
qed

lemma frames_trans: "frames S s S' s' \<Longrightarrow> frames S' s' S'' s'' \<Longrightarrow> frames S s S'' s''"
  using untouched_trans by (auto simp: frames_def)

definition map_upper :: "u64 \<Rightarrow> kstate \<Rightarrow> (int \<times> u64 \<times> kstate) result" where
  "map_upper va s =
     (let l4_entry = pml4_base s + 8 * LEVEL_4_INDEX va in
      bind_result (install_table l4_entry s) (\<lambda>(rc, s1).
      if rc \<noteq> 0 then Inr (rc, 0, s1) else
      let l3_entry = e_table (load64 (kmem s1) l4_entry) + 8 * LEVEL_3_INDEX va in
      bind_result (install_table l3_entry s1) (\<lambda>(rc, s2).
      if rc \<noteq> 0 then Inr (rc, 0, s2) else Inr (0, e_table (load64 (kmem s2) l3_entry), s2))))"

lemma map_upper_ok:
  assumes wf: "kwf S s" and r: "map_upper va s = Inr (rc, t, s')"
  obtains S' where "frames S s S' s'"
    "rc = 0 \<Longrightarrow> kwalk (kmem s') (pml4_base s') (idx3 va) = Some t"
proof -
  let ?a4 = "pml4_base s + 8 * LEVEL_4_INDEX va"
  obtain rc1 s1 where r1: "install_table ?a4 s = Inr (rc1, s1)"
    using r by (cases "install_table ?a4 s") (auto simp: map_upper_def Let_def)
  have "kwalk (kmem s) (pml4_base s) [] = Some (pml4_base s)" by simp
  from install_upper [OF wf path_ok_Nil _ index_less(1) this r1] obtain S1 where S1:
    "frames S s S1 s1" "rc1 = 0 \<Longrightarrow> kwalk (kmem s1) (pml4_base s1) (idx4 va) = Some (e_table (load64 (kmem s1) ?a4))"
    by (auto simp: idx4_def)
  let ?t3 = "e_table (load64 (kmem s1) ?a4)"
  let ?a3 = "?t3 + 8 * LEVEL_3_INDEX va"
  show thesis
  proof (cases "rc1 = 0")
    case False
    with r r1 have "rc \<noteq> 0" "s' = s1" by (auto simp: map_upper_def Let_def)
    with S1 that show thesis by blast
  next
    case True
    then obtain rc2 s2 where r2: "install_table ?a3 s1 = Inr (rc2, s2)"
      using r r1 by (cases "install_table ?a3 s1") (auto simp: map_upper_def Let_def)
    have wf1: "kwf S1 s1" using S1 by (simp add: frames_def)
    from install_upper [OF wf1 path_ok_idx(1) _ index_less(2) S1(2) [OF True] r2] obtain S2 where S2:
      "frames S1 s1 S2 s2"
      "rc2 = 0 \<Longrightarrow> kwalk (kmem s2) (pml4_base s2) (idx3 va) = Some (e_table (load64 (kmem s2) ?a3))"
      by (auto simp: idx_snoc(2))
    have "s' = s2" "rc = rc2" "rc2 = 0 \<Longrightarrow> t = e_table (load64 (kmem s2) ?a3)"
      using r r1 r2 True by (auto simp: map_upper_def Let_def split: if_splits)
    with S2 frames_trans [OF S1(1) S2(1)] that show thesis by simp
  qed
qed

lemma map_address_eq:
  "map_address va phy sz s =
     (if \<not> (sz = PAGE_SIZE_4K \<or> sz = PAGE_SIZE_2M) then Inl Assertion_failed else
      bind_result (map_upper va s) (\<lambda>(rc, t, s2).
      if rc \<noteq> 0 then Inr (rc, s2) else
      if sz = PAGE_SIZE_2M then install_2m_page (t + 8 * LEVEL_2_INDEX va) phy s2 else
      bind_result (install_pd_table_entry (t + 8 * LEVEL_2_INDEX va) s2) (\<lambda>(rc, s3).
      if rc \<noteq> 0 then Inr (rc, s3) else
      install_4k_page (e_table (load64 (kmem s3) (t + 8 * LEVEL_2_INDEX va)) + 8 * LEVEL_1_INDEX va) phy s3)))"
  by (auto simp: map_address_def map_upper_def install_pml4_entry_eq install_pdp_entry_eq Let_def
    bind_result_def split: sum.splits)

definition pa_mapped :: "nat \<Rightarrow> nat \<Rightarrow> kstate \<Rightarrow> u64 \<Rightarrow> u64 \<Rightarrow> kstate \<Rightarrow> bool" where
  "pa_mapped n w s va phy s' \<longleftrightarrow> (\<forall>va'. pa s' va' =
     (if same_page n va va' then take_bit w phy OR take_bit n va' else pa s va'))"

lemma and_offset: "va AND 0xfff = take_bit 12 va" "va AND 0x1fffff = take_bit 21 va" for va :: u64
proof -
  have "(0xfff :: u64) = mask 12" "(0x1fffff :: u64) = mask 21" by (simp_all add: mask_numeral)
  then show "va AND 0xfff = take_bit 12 va" "va AND 0x1fffff = take_bit 21 va"
    by (simp_all only: take_bit_eq_mask)
qed

lemma install_2m_ok:
  assumes wf: "kwf S s" and w: "kwalk (kmem s) (pml4_base s) (idx3 va) = Some t"
    and r: "install_2m_page (t + 8 * LEVEL_2_INDEX va) phy s = Inr (rc, s')"
  shows "kwf S s' \<and> pml4_base s' = pml4_base s \<and> untouched S s s' \<and>
    (if rc = 0 then pa_mapped 21 43 s va phy s' else rc = - errno ERROR_DUPLICATION \<and> s' = s)"
proof (cases "e_present (load64 (kmem s) (t + 8 * LEVEL_2_INDEX va))")
  case True
  with r wf show ?thesis by (simp add: install_2m_page_eq)
next
  case False
  then have al: "aligned 21 phy" and rc: "rc = 0"
    and s': "s' = s\<lparr>kmem := store64 (kmem s) (t + 8 * LEVEL_2_INDEX va) (page_entry_2m phy)\<rparr>"
    using r by (auto simp: install_2m_page_eq split: if_splits)
  have leaf: "length (idx3 va) = 3 \<or> \<not> e_is_table (load64 (kmem s) (t + 8 * LEVEL_2_INDEX va)) \<and>
      \<not> e_is_table (page_entry_2m phy)"
    using False page_entry_2m_props(3) by (simp add: e_is_table_def)
  note ok = store_leaf_ok [OF wf path_ok_idx(2) _ index_less(3) w leaf s']
  have "pa s' va' = (if same_page 21 va va' then take_bit 43 phy OR take_bit 21 va' else pa s va')" for va'
    using leaf_pa_set_2m [OF ok(2) al, of va'] pa_eq_leaf [OF wf] pa_eq_leaf [OF ok(1)]
    by (simp add: and_offset)
  with ok(1,3) rc s' show ?thesis by (simp add: pa_mapped_def)
qed

lemma install_4k_ok:
  assumes wf: "kwf S s" and w: "kwalk (kmem s) (pml4_base s) (idx2 va) = Some t"
    and r: "install_4k_page (t + 8 * LEVEL_1_INDEX va) phy s = Inr (rc, s')"
  shows "kwf S s' \<and> pml4_base s' = pml4_base s \<and> untouched S s s' \<and>
    (if rc = 0 then pa_mapped 12 52 s va phy s' else rc = - errno ERROR_DUPLICATION \<and> s' = s)"
proof (cases "e_present (load64 (kmem s) (t + 8 * LEVEL_1_INDEX va))")
  case True
  with r wf show ?thesis by (simp add: install_4k_page_eq)
next
  case False
  then have al: "aligned 12 phy" and rc: "rc = 0"
    and s': "s' = s\<lparr>kmem := store64 (kmem s) (t + 8 * LEVEL_1_INDEX va) (page_entry_4k phy)\<rparr>"
    using r by (auto simp: install_4k_page_eq split: if_splits)
  note ok = store_leaf_ok [OF wf path_ok_idx(3) _ index_less(4) w _ s']
  obtain e where e: "kentry (kmem s) (pml4_base s) (idx3 va) (LEVEL_2_INDEX va) = Some e" "e_is_table e"
    using w by (auto simp: idx_snoc(3) walk_snoc entry_def split: option.splits if_splits)
  have "pa s' va' = (if same_page 12 va va' then take_bit 52 phy OR take_bit 12 va' else pa s va')" for va'
    using leaf_pa_set_4k [OF ok(2) al e, of va'] pa_eq_leaf [OF wf] pa_eq_leaf [OF ok(1)]
    by (simp add: and_offset)
  with ok(1,3) rc s' show ?thesis by (simp add: pa_mapped_def)
qed

lemma not_2m_if_unmapped:
  assumes wf: "kwf S s" and w: "kwalk (kmem s) (pml4_base s) (idx3 va) = Some t" and un: "pa s va = - 1"
    and pr: "e_present (load64 (kmem s) (t + 8 * LEVEL_2_INDEX va))"
  shows "e_is_table (load64 (kmem s) (t + 8 * LEVEL_2_INDEX va))"
proof (rule ccontr)
  let ?e = "load64 (kmem s) (t + 8 * LEVEL_2_INDEX va)"
  assume "\<not> e_is_table ?e"
  then have "pa s va = bf_shl 43 21 (bf_get 21 43 ?e) OR take_bit 21 va"
    using pr w by (simp add: pa_eq_leaf [OF wf] leaf_pa_def entry_def e_is_table_def and_offset)
  moreover have "\<not> bit (bf_shl 43 21 (bf_get 21 43 ?e) OR take_bit 21 va) 63"
    by (simp add: bit_simps bf_shl_def)
  moreover have "bit (- 1 :: u64) 63" by simp
  ultimately show False using un by simp
qed

lemma install_pd_ok:
  assumes wf: "kwf S s" and w: "kwalk (kmem s) (pml4_base s) (idx3 va) = Some t" and un: "pa s va = - 1"
    and r: "install_pd_table_entry (t + 8 * LEVEL_2_INDEX va) s = Inr (rc, s')"
  obtains S' where "frames S s S' s'"
    "rc = 0 \<Longrightarrow> kwalk (kmem s') (pml4_base s') (idx2 va) = Some (e_table (load64 (kmem s') (t + 8 * LEVEL_2_INDEX va)))"
proof -
  let ?a = "t + 8 * LEVEL_2_INDEX va"
  have r': "install_table ?a s = Inr (rc, s')"
    using r install_pd_table_entry_eq [OF wf path_ok_idx(2) index_less(3) w] by simp
  have l: "length (idx3 va) \<le> 2" by simp
  from install_table_ok [OF wf path_ok_idx(2) l index_less(3) w r'] obtain S' where S':
    "S \<subseteq> S'" "kwf S' s'" "pml4_base s' = pml4_base s" "\<And>va. pa s' va = pa s va"
    "rc = 0 \<Longrightarrow> kwalk (kmem s') (pml4_base s') (idx3 va) = Some t"
    "rc = 0 \<Longrightarrow> e_present (load64 (kmem s') ?a)" "untouched S' s s'" by metis
  show thesis
  proof (rule that [of S'])
    show "frames S s S' s'" using S' by (simp add: frames_def)
    assume rc: "rc = 0"
    have "e_is_table (load64 (kmem s') ?a)"
      using not_2m_if_unmapped [OF S'(2) S'(5) [OF rc] _ S'(6) [OF rc]] S'(4) un by simp
    then show "kwalk (kmem s') (pml4_base s') (idx2 va) = Some (e_table (load64 (kmem s') ?a))"
      using S'(5) [OF rc] by (simp add: idx_snoc(3) walk_snoc)
  qed
qed

lemma map_address_spec:
  assumes wf: "kwf S s" and r: "map_address va phy sz s = Inr (rc, s')"
    and un: "sz = PAGE_SIZE_4K \<Longrightarrow> pa s va = - 1"
  obtains S' where "S \<subseteq> S'" "kwf S' s'" "pml4_base s' = pml4_base s" "untouched S' s s'"
    "rc = 0 \<Longrightarrow> sz = PAGE_SIZE_2M \<Longrightarrow> pa_mapped 21 43 s va phy s'"
    "rc = 0 \<Longrightarrow> sz = PAGE_SIZE_4K \<Longrightarrow> pa_mapped 12 52 s va phy s'"
    "rc \<noteq> 0 \<Longrightarrow> pa s' = pa s"
proof -
  have sz: "sz = PAGE_SIZE_4K \<or> sz = PAGE_SIZE_2M" using r by (auto simp: map_address_eq split: if_splits)
  obtain rc2 t s2 where u: "map_upper va s = Inr (rc2, t, s2)"
    using r sz by (cases "map_upper va s") (auto simp: map_address_eq)
  from map_upper_ok [OF wf u] obtain S2 where S2: "frames S s S2 s2"
    "rc2 = 0 \<Longrightarrow> kwalk (kmem s2) (pml4_base s2) (idx3 va) = Some t" by blast
  have wf2: "kwf S2 s2" and sub2: "S \<subseteq> S2" and pa2: "\<And>va. pa s2 va = pa s va"
    and b2: "pml4_base s2 = pml4_base s" and un2: "untouched S2 s s2"
    using S2(1) by (auto simp: frames_def)
  consider "rc2 \<noteq> 0" | "rc2 = 0" "sz = PAGE_SIZE_2M" | "rc2 = 0" "sz = PAGE_SIZE_4K" using sz by blast
  then show thesis
  proof cases
    case 1
    with r u sz have "rc = rc2" "s' = s2" by (auto simp: map_address_eq)
    with 1 sub2 wf2 pa2 b2 un2 show thesis by (intro that [of S2]) auto
  next
    case 2
    with r u have "install_2m_page (t + 8 * LEVEL_2_INDEX va) phy s2 = Inr (rc, s')"
      by (simp add: map_address_eq)
    note ok = install_2m_ok [OF wf2 S2(2) [OF 2(1)] this]
    have "untouched S2 s s'" using untouched_trans [OF un2] ok by blast
    with ok 2 sub2 pa2 b2 show thesis
      by (intro that [of S2]) (auto simp: pa_mapped_def)
  next
    case 3
    let ?a = "t + 8 * LEVEL_2_INDEX va"
    obtain rc3 s3 where r3: "install_pd_table_entry ?a s2 = Inr (rc3, s3)"
      using r u 3 by (cases "install_pd_table_entry ?a s2") (auto simp: map_address_eq)
    from install_pd_ok [OF wf2 S2(2) [OF 3(1)] _ r3] un 3 pa2 obtain S3 where S3: "frames S2 s2 S3 s3"
      "rc3 = 0 \<Longrightarrow> kwalk (kmem s3) (pml4_base s3) (idx2 va) = Some (e_table (load64 (kmem s3) ?a))"
      by auto
    have un3: "untouched S3 s s3" using S3(1) un2 untouched_trans by (auto simp: frames_def)
    show thesis
    proof (cases "rc3 = 0")
      case False
      with r u 3 r3 have "rc = rc3" "s' = s3" by (auto simp: map_address_eq)
      with False 3 S3(1) sub2 pa2 b2 un3 show thesis by (intro that [of S3]) (auto simp: frames_def)
    next
      case True
      with r u 3 r3 have "install_4k_page (e_table (load64 (kmem s3) ?a) + 8 * LEVEL_1_INDEX va) phy s3 = Inr (rc, s')"
        by (simp add: map_address_eq)
      moreover have wf3: "kwf S3 s3" using S3(1) by (simp add: frames_def)
      ultimately have ok: "kwf S3 s' \<and> pml4_base s' = pml4_base s3 \<and> untouched S3 s3 s' \<and>
          (if rc = 0 then pa_mapped 12 52 s3 va phy s' else rc = - errno ERROR_DUPLICATION \<and> s' = s3)"
        using install_4k_ok [OF wf3 S3(2) [OF True]] by blast
      then have "untouched S3 s s'" using untouched_trans [OF un3] by blast
      with ok S3(1) 3 sub2 pa2 b2 show thesis
        by (intro that [of S3]) (auto simp: frames_def pa_mapped_def)
    qed
  qed
qed

section \<open>When a mapping succeeds\<close>

definition hole :: "kstate \<Rightarrow> u64 list \<Rightarrow> u64 \<Rightarrow> bool" where
  "hole s p i \<longleftrightarrow> (case kentry (kmem s) (pml4_base s) p i of None \<Rightarrow> True | Some e \<Rightarrow> \<not> e_present e)"

definition filled :: "kstate \<Rightarrow> kstate \<Rightarrow> (u64 list \<times> u64) set \<Rightarrow> bool" where
  "filled s s' E \<longleftrightarrow> (\<forall>p j. path_ok p \<longrightarrow> j < 512 \<longrightarrow> (hole s' p j \<longleftrightarrow> hole s p j \<and> (p, j) \<notin> E))"

lemma filledD: "filled s s' E \<Longrightarrow> path_ok p \<Longrightarrow> j < 512 \<Longrightarrow> hole s' p j \<longleftrightarrow> hole s p j \<and> (p, j) \<notin> E"
  by (simp add: filled_def)

lemma filled_trans: "filled s s' E \<Longrightarrow> filled s' s'' E' \<Longrightarrow> filled s s'' (E \<union> E')"
  unfolding filled_def by blast

lemma hole_walk: "kwalk (kmem s) (pml4_base s) p = Some t \<Longrightarrow> hole s p i \<longleftrightarrow> \<not> e_present (load64 (kmem s) (t + 8 * i))"
  by (simp add: hole_def entry_def)

lemma install_table_filled:
  assumes wf: "kwf S s"
    and p: "path_ok p" "length p \<le> 2" "i < 512" "kwalk (kmem s) (pml4_base s) p = Some t"
    and r: "install_table (t + 8 * i) s = Inr (0, s')"
  shows "filled s s' {(p, i)}"
  using wf r
proof (cases rule: install_table_cases)
  case present
  then have "\<not> hole s p i" using p by (simp add: hole_walk)
  with present show ?thesis by (auto simp: filled_def)
next
  case exhausted
  then show ?thesis by simp
next
  case (fresh P c)
  note f = install_table_fresh [OF wf p fresh(1,3,6,7,8,5,4)]
  have te: "e_present (table_entry P)" using table_entry_props [OF fresh(6,8)] by simp
  have "hole s (p @ [i]) j" for j
    using entry_below_leaf [OF p(4), of i "[]" j] fresh(1) by (simp add: hole_def e_is_table_def)
  moreover have "\<not> e_present 0" by (simp add: e_present_def)
  ultimately show ?thesis using added_tableD [OF f(6)] te
    by (simp add: filled_def hole_def)
qed

lemma install_table_total:
  assumes wf: "kwf S s" and p: "kwalk (kmem s) (pml4_base s) p = Some t"
    and av: "avail s ((if hole s p i then 1 else 0) + k)"
  obtains s' where "install_table (t + 8 * i) s = Inr (0, s')" "avail s' k"
proof (cases "hole s p i")
  case False
  with p that [of s] av show thesis by (simp add: hole_walk install_table_def)
next
  case True
  have pm: "pm_ok s" using wf by (simp add: kwf_def)
  from av True have "avail s (Suc k)" by simp
  from get_physical_page_avail [OF pm this] obtain s1
    where g: "get_physical_page s = Inr (current_avail_page s, s1)" "avail s1 k" by blast
  let ?s' = "s1\<lparr>kmem := store64 (memset (kmem s1) (current_avail_page s) 0 4096) (t + 8 * i)
    (table_entry (current_avail_page s))\<rparr>"
  have "install_table (t + 8 * i) s = Inr (0, ?s')"
    using True p g kwf_avail [OF wf] by (simp add: hole_walk install_table_def)
  moreover have "avail ?s' k" using g(2) by (simp add: avail_def)
  ultimately show thesis using that by blast
qed

definition need :: "kstate \<Rightarrow> u64 \<Rightarrow> nat" where
  "need s va = (if hole s [] (LEVEL_4_INDEX va) then 1 else 0) +
     (if hole s (idx4 va) (LEVEL_3_INDEX va) then 1 else 0)"

lemma map_upper_total:
  assumes wf: "kwf S s" and av: "avail s (need s va + k)"
  obtains t s' where "map_upper va s = Inr (0, t, s')" "avail s' k"
    "filled s s' {([], LEVEL_4_INDEX va), (idx4 va, LEVEL_3_INDEX va)}"
proof -
  let ?a4 = "pml4_base s + 8 * LEVEL_4_INDEX va"
  have w: "kwalk (kmem s) (pml4_base s) [] = Some (pml4_base s)" by simp
  obtain s1 where r1: "install_table ?a4 s = Inr (0, s1)"
    and av1: "avail s1 ((if hole s (idx4 va) (LEVEL_3_INDEX va) then 1 else 0) + k)"
    by (rule install_table_total [OF wf w]) (use av in \<open>simp add: need_def add.assoc\<close>)
  note f1 = install_table_filled [OF wf path_ok_Nil _ index_less(1) w r1, simplified]
  from install_upper [OF wf path_ok_Nil _ index_less(1) w r1] obtain S1 where S1:
    "frames S s S1 s1" "kwalk (kmem s1) (pml4_base s1) (idx4 va) = Some (e_table (load64 (kmem s1) ?a4))"
    by (auto simp: idx4_def)
  let ?a3 = "e_table (load64 (kmem s1) ?a4) + 8 * LEVEL_3_INDEX va"
  have wf1: "kwf S1 s1" using S1 by (simp add: frames_def)
  have "hole s1 (idx4 va) (LEVEL_3_INDEX va) = hole s (idx4 va) (LEVEL_3_INDEX va)"
    using filledD [OF f1 path_ok_idx(1) index_less(2)] by (auto simp: idx4_def)
  with av1 have av2: "avail s1 ((if hole s1 (idx4 va) (LEVEL_3_INDEX va) then 1 else 0) + k)" by simp
  from install_table_total [OF wf1 S1(2) av2] obtain s2
    where r2: "install_table ?a3 s1 = Inr (0, s2)" and av2: "avail s2 k" by blast
  have l: "length (idx4 va) \<le> 2" by simp
  note f2 = install_table_filled [OF wf1 path_ok_idx(1) l index_less(2) S1(2) r2]
  show thesis
  proof (rule that [OF _ av2])
    show "map_upper va s = Inr (0, e_table (load64 (kmem s2) ?a3), s2)"
      using r1 r2 by (simp add: map_upper_def Let_def)
    show "filled s s2 {([], LEVEL_4_INDEX va), (idx4 va, LEVEL_3_INDEX va)}"
      using filled_trans [OF f1 f2] by (simp add: insert_commute)
  qed
qed

lemma map_2m_total:
  assumes wf: "kwf S s" and av: "avail s (need s va + k)"
    and ho: "hole s (idx3 va) (LEVEL_2_INDEX va)" and al: "aligned 21 phy"
  obtains s' where "map_address va phy PAGE_SIZE_2M s = Inr (0, s')" "avail s' k"
    "filled s s' {([], LEVEL_4_INDEX va), (idx4 va, LEVEL_3_INDEX va), (idx3 va, LEVEL_2_INDEX va)}"
    "kentry (kmem s') (pml4_base s') (idx3 va) (LEVEL_2_INDEX va) = Some (page_entry_2m phy)"
proof -
  from map_upper_total [OF wf av] obtain t s2 where u: "map_upper va s = Inr (0, t, s2)"
    and av2: "avail s2 k" and f: "filled s s2 {([], LEVEL_4_INDEX va), (idx4 va, LEVEL_3_INDEX va)}" by blast
  let ?a = "t + 8 * LEVEL_2_INDEX va"
  from map_upper_ok [OF wf u] obtain S2 where S2: "frames S s S2 s2"
    "kwalk (kmem s2) (pml4_base s2) (idx3 va) = Some t" by blast
  have "hole s2 (idx3 va) (LEVEL_2_INDEX va)" 
    using filledD [OF f path_ok_idx(2) index_less(3)] ho by (auto simp: idx3_def idx4_def)
  then have np: "\<not> e_present (load64 (kmem s2) ?a)" using S2(2) by (simp add: hole_walk)
  let ?s' = "s2\<lparr>kmem := store64 (kmem s2) ?a (page_entry_2m phy)\<rparr>"
  have r: "install_2m_page ?a phy s2 = Inr (0, ?s')" using np al by (simp add: install_2m_page_eq)
  have wf2: "kwf S2 s2" using S2 by (simp add: frames_def)
  have leaf: "length (idx3 va) = 3 \<or> \<not> e_is_table (load64 (kmem s2) ?a) \<and> \<not> e_is_table (page_entry_2m phy)"
    using np page_entry_2m_props(3) by (simp add: e_is_table_def)
  note ok = store_leaf_ok [OF wf2 path_ok_idx(2) _ index_less(3) S2(2) leaf refl]
  have f2: "filled s2 ?s' {(idx3 va, LEVEL_2_INDEX va)}"
    using set_leafD [OF ok(2)] page_entry_2m_props(1) by (simp add: filled_def hole_def)
  show thesis
  proof (rule that [of ?s'])
    show "map_address va phy PAGE_SIZE_2M s = Inr (0, ?s')" using u r by (simp add: map_address_eq)
    show "avail ?s' k" using av2 by (simp add: avail_def)
    show "filled s ?s' {([], LEVEL_4_INDEX va), (idx4 va, LEVEL_3_INDEX va), (idx3 va, LEVEL_2_INDEX va)}"
      using filled_trans [OF f f2] by (simp add: insert_commute)
    show "kentry (kmem ?s') (pml4_base ?s') (idx3 va) (LEVEL_2_INDEX va) = Some (page_entry_2m phy)"
      using set_leafD [OF ok(2) path_ok_idx(2) index_less(3)] by simp
  qed
qed

lemma not_4k_if_unmapped:
  assumes wf: "kwf S s" and w: "kwalk (kmem s) (pml4_base s) (idx2 va) = Some t" and un: "pa s va = - 1" and al: "aligned 12 va"
  shows "\<not> e_present (load64 (kmem s) (t + 8 * LEVEL_1_INDEX va))"
proof
  let ?e = "load64 (kmem s) (t + 8 * LEVEL_1_INDEX va)"
  assume pr: "e_present ?e"
  obtain e where e: "kentry (kmem s) (pml4_base s) (idx3 va) (LEVEL_2_INDEX va) = Some e" "e_is_table e"
    using w by (auto simp: idx_snoc(3) walk_snoc entry_def split: option.splits if_splits)
  then have "pa s va = bf_shl 52 12 (bf_get 12 52 ?e) OR take_bit 12 va"
    using pr w by (simp add: pa_eq_leaf [OF wf] leaf_pa_def e_is_table_def and_offset) (simp add: entry_def and_offset)
  moreover have "\<not> bit (bf_shl 52 12 (bf_get 12 52 ?e) OR take_bit 12 va) 0"
    using aligned_bitD [OF al, of 0] by (auto simp: bit_simps bf_shl_def)
  moreover have "bit (- 1 :: u64) 0" by simp
  ultimately show False using un by simp
qed

lemma map_4k_total:
  assumes wf: "kwf S s" and av: "avail s (3 + k)" and un: "pa s va = - 1" and al: "aligned 12 va" "aligned 12 phy"
  obtains s' where "map_address va phy PAGE_SIZE_4K s = Inr (0, s')" "avail s' k"
proof -
  have "avail s (need s va + (1 + k))" using av by (rule avail_mono) (simp add: need_def)
  from map_upper_total [OF wf this] obtain t s2 where u: "map_upper va s = Inr (0, t, s2)" and av2: "avail s2 (1 + k)" by blast
  let ?a = "t + 8 * LEVEL_2_INDEX va"
  from map_upper_ok [OF wf u] obtain S2 where S2: "frames S s S2 s2" "kwalk (kmem s2) (pml4_base s2) (idx3 va) = Some t" by blast
  then have wf2: "kwf S2 s2" and un2: "pa s2 va = - 1" using un by (auto simp: frames_def)
  have "avail s2 ((if hole s2 (idx3 va) (LEVEL_2_INDEX va) then 1 else 0) + k)" using av2 by (rule avail_mono) simp
  from install_table_total [OF wf2 S2(2) this] obtain s3 where "install_table ?a s2 = Inr (0, s3)" and av3: "avail s3 k" by blast
  then have r3: "install_pd_table_entry ?a s2 = Inr (0, s3)"
    using install_pd_table_entry_eq [OF wf2 path_ok_idx(2) index_less(3) S2(2)] by simp
  let ?t = "e_table (load64 (kmem s3) ?a)"
  from install_pd_ok [OF wf2 S2(2) un2 r3] obtain S3 where S3: "frames S2 s2 S3 s3"
    "kwalk (kmem s3) (pml4_base s3) (idx2 va) = Some ?t" by blast
  then have wf3: "kwf S3 s3" and un3: "pa s3 va = - 1" using un2 by (auto simp: frames_def)
  have np: "\<not> e_present (load64 (kmem s3) (?t + 8 * LEVEL_1_INDEX va))" by (rule not_4k_if_unmapped [OF wf3 S3(2) un3 al(1)])
  let ?s' = "s3\<lparr>kmem := store64 (kmem s3) (?t + 8 * LEVEL_1_INDEX va) (page_entry_4k phy)\<rparr>"
  have "map_address va phy PAGE_SIZE_4K s = Inr (0, ?s')" using u r3 np al(2) by (simp add: map_address_eq install_4k_page_eq)
  moreover have "avail ?s' k" using av3 by (simp add: avail_def)
  ultimately show thesis using that by blast
qed

lemma install_table_region:
  assumes "install_table a s = Inr (rc, s')"
  shows "low_region s' = low_region s"
proof (cases "get_physical_page s")
  case (Inr r)
  obtain P s1 where r: "r = (P, s1)" by (cases r)
  have "low_region s1 = low_region s" using get_physical_page_region Inr r by blast
  with assms Inr r show ?thesis by (auto simp: install_table_def split: if_splits)
qed (use assms in \<open>auto simp: install_table_def split: if_splits\<close>)

lemma map_2m_region:
  assumes "map_address va phy PAGE_SIZE_2M s = Inr (rc, s')"
  shows "low_region s' = low_region s"
proof -
  obtain rc2 t s2 where u: "map_upper va s = Inr (rc2, t, s2)"
    using assms by (cases "map_upper va s") (auto simp: map_address_eq)
  then have "low_region s2 = low_region s"
    by (auto simp: map_upper_def Let_def bind_result_eq_Inr split: if_splits dest!: install_table_region)
  then show ?thesis using assms u
    by (auto simp: map_address_eq install_2m_page_eq split: if_splits)
qed

section \<open>A 4 KiB mapping inside a large page\<close>

lemma map_upper_present:
  assumes wf: "kwf S s" and w: "kwalk (kmem s) (pml4_base s) (idx3 va) = Some t"
  shows "map_upper va s = Inr (0, t, s)"
  using w by (auto simp: map_upper_def idx3_def install_table_def Let_def e_is_table_def split: if_splits)

lemma kwf_frame:
  assumes wf: "kwf S s" and same: "\<And>x. pfn x \<in> pfn ` S \<Longrightarrow> kmem s' x = kmem s x"
    and b: "pml4_base s' = pml4_base s" and pm: "pm_ok s'"
    and cur: "unat (current_avail_page s) \<le> unat (current_avail_page s')"
  shows "kwf S s'" "pa s' va = pa s va"
proof -
  have ld: "load64 (kmem s') (t + 8 * j) = load64 (kmem s) (t + 8 * j)"
    if "t \<in> S" "aligned 12 t" "j < 512" for t j
  proof (rule load64_cong)
    fix i :: nat assume "i < 8"
    then have "pfn (t + 8 * j + of_nat i) = pfn t"
      using that pfn_add_small [of "t + 8 * j" i] by (simp add: mem_simps)
    then show "kmem s' (t + 8 * j + of_nat i) = kmem s (t + 8 * j + of_nat i)" using that(1) same by simp
  qed
  have fr: "kentry (kmem s') (pml4_base s) p j = kentry (kmem s) (pml4_base s) p j" if "path_ok p" "j < 512" for p j
    by (rule host.entry_frame [OF kwf_wf [OF wf] ld that])
  show wf': "kwf S s'" unfolding kwf_def b
  proof (intro conjI allI impI ballI)
    show "pm_ok s'" by fact
    show "wf_tables e_is_table e_table (load64 (kmem s')) (pml4_base s) S"
      by (rule host.wf_frame [OF kwf_wf [OF wf] ld])
    show "aligned 12 t" "unat t + 4096 \<le> unat (current_avail_page s')" if "t \<in> S" for t
      using that wf cur by (fastforce simp: kwf_def)+
    show "e_is_table e" if "path_ok p" "length p \<le> 1" "j < 512" "kentry (kmem s') (pml4_base s) p j = Some e"
      "e_present e" for p j e
      using that kwf_upper [OF wf that(1-3)] fr [OF that(1,3)] by simp
  qed
  show "pa s' va = pa s va"
    unfolding pa_eq_leaf [OF wf] pa_eq_leaf [OF wf'] b by (rule leaf_pa_cong) (simp_all add: fr)
qed

lemma pfn_in_tables:
  assumes "kwf S s" "aligned 12 d"
  shows "pfn d \<in> pfn ` S \<longleftrightarrow> d \<in> S"
  using assms page_eq_iff [of d] by (auto simp: kwf_def)

section \<open>Main properties\<close>

text \<open>
  C2 (map_address). Whatever \<open>map_address\<close> returns, the page tables stay well formed.  When it
  returns ERROR_OK, every address of the page of \<open>va\<close> translates to the same offset in the page at
  \<open>phy\<close>, and every other address translates as before; when it returns an error no translation
  changes.  No byte outside the pages that hold tables changes.  A 4 KiB mapping is required to be of an address not translated yet.
\<close>

theorem map_address_translates:
  assumes "kwf S s" "map_address va phy sz s = Inr (rc, s')" "sz = PAGE_SIZE_4K \<Longrightarrow> pa s va = - 1"
  shows "\<exists>S'. S \<subseteq> S' \<and> kwf S' s' \<and> untouched S' s s' \<and>
    (\<forall>va'. pa s' va' =
       (if rc = errno ERROR_OK \<and> sz = PAGE_SIZE_2M \<and> same_page 21 va va' then take_bit 43 phy OR take_bit 21 va'
        else if rc = errno ERROR_OK \<and> sz = PAGE_SIZE_4K \<and> same_page 12 va va' then take_bit 52 phy OR take_bit 12 va'
        else pa s va'))"
proof -
  have sz: "sz = PAGE_SIZE_4K \<or> sz = PAGE_SIZE_2M" using assms(2) by (auto simp: map_address_eq split: if_splits)
  from map_address_spec [OF assms] obtain S' where S': "S \<subseteq> S'" "kwf S' s'" "untouched S' s s'"
    "rc = 0 \<Longrightarrow> sz = PAGE_SIZE_2M \<Longrightarrow> pa_mapped 21 43 s va phy s'"
    "rc = 0 \<Longrightarrow> sz = PAGE_SIZE_4K \<Longrightarrow> pa_mapped 12 52 s va phy s'"
    "rc \<noteq> 0 \<Longrightarrow> pa s' = pa s" by blast
  show ?thesis
    using S' sz by (intro exI [of _ S'], cases "rc = 0") (auto simp: pa_mapped_def)
qed

text \<open>
  C37 (4 KiB inside 2 MiB). \<open>map_address\<close> does not look at the page-size bit before it descends: asked
  for a 4 KiB mapping inside an existing 2 MiB page it can report success while no translation
  changes, and it overwrites eight bytes of the memory the entry's address bits point to.
\<close>

theorem map_4k_inside_2m_corrupts:
  assumes "kwf S s" "kwalk (kmem s) (pml4_base s) (idx3 va) = Some t"
    "e = load64 (kmem s) (t + 8 * LEVEL_2_INDEX va)" "e_present e" "e_page_size e"
    "a = e_table e + 8 * LEVEL_1_INDEX va" "e_table e \<notin> S" "\<not> e_present (load64 (kmem s) a)" "aligned 12 phy"
  shows "\<exists>s'. map_address va phy PAGE_SIZE_4K s = Inr (errno ERROR_OK, s') \<and>
    load64 (kmem s') a = page_entry_4k phy \<and> load64 (kmem s') a \<noteq> load64 (kmem s) a \<and>
    (\<forall>va'. pa s' va' = pa s va')"
proof -
  let ?s' = "s\<lparr>kmem := store64 (kmem s) a (page_entry_4k phy)\<rparr>"
  have "install_pd_table_entry (t + 8 * LEVEL_2_INDEX va) s = Inr (0, s)"
    using assms(3,4) by (simp add: install_pd_table_entry_def)
  then have "map_address va phy PAGE_SIZE_4K s = Inr (0, ?s')"
    using assms(3,6,8,9) by (simp add: map_address_eq map_upper_present [OF assms(1,2)] install_4k_page_eq)
  moreover have "load64 (kmem ?s') a = page_entry_4k phy" by (simp add: mem_simps)
  moreover have "page_entry_4k phy \<noteq> load64 (kmem s) a" using page_entry_4k_props assms(8) by metis
  moreover have "pa ?s' va' = pa s va'" for va'
  proof (rule kwf_frame(2) [OF assms(1)])
    have a: "pfn a \<notin> pfn ` S" "aligned 3 a"
      using pfn_in_tables [OF assms(1) aligned_e_table] assms(7) by (simp_all add: assms(6) mem_simps aligned_e_table)
    show "kmem ?s' x = kmem s x" if x: "pfn x \<in> pfn ` S" for x
    proof -
      have "pfn x \<noteq> pfn a" using x a(1) by metis
      then show ?thesis using a(2) by (simp add: store64_frame)
    qed
  qed (use assms(1) in \<open>simp_all add: kwf_def pm_ok_def\<close>)
  ultimately show ?thesis by auto
qed

end
