(* ===== verification/Identity_Map.thy ===== *)
theory Identity_Map
  imports Paging
begin

text \<open>
  The boot-time use of \<open>map_address\<close>: \<open>paging_init\<close> allocates the root table and maps the first
  2 GiB onto themselves with 2 MiB pages, and \<open>ap_paging_init\<close> loads the same root on the other
  processors.
\<close>

section \<open>Initialisation\<close>

lemma next_2m_less:
  fixes va :: u64
  assumes "va < 0x80000000"
  shows "unat (va + PAGE_SIZE_2M) = unat va + 0x200000"
proof -
  have "unat va < 0x80000000" using assms by (simp add: word_less_nat_alt)
  then show ?thesis by (simp add: unat_word_ariths)
qed

function paging_init_loop :: "u64 \<Rightarrow> kstate \<Rightarrow> kstate result" where
  "paging_init_loop virt_addr s =
     (if virt_addr < 0x80000000
      then bind_result (map_address virt_addr virt_addr PAGE_SIZE_2M s) (\<lambda>(rc, s').
        if rc = errno ERROR_OK then paging_init_loop (virt_addr + PAGE_SIZE_2M) s'
        else Inl Assertion_failed)
      else Inr s)"
  by pat_completeness auto
termination
  by (relation "measure (\<lambda>(va, s). 0x80000000 - unat va)")
    (simp_all add: next_2m_less word_less_nat_alt)

declare paging_init_loop.simps [simp del]

definition paging_init :: "kstate \<Rightarrow> kstate result" where
  "paging_init s =
     bind_result (get_physical_page s) (\<lambda>(p, s1).
     bind_result (paging_init_loop 0 (s1\<lparr>pml4_base := p, kmem := memset (kmem s1) p 0 PAGE_SIZE_4K\<rparr>)) (\<lambda>s2.
     Inr (s2\<lparr>cr3 := pml4_base s2\<rparr>)))"

definition ap_paging_init :: "kstate \<Rightarrow> kstate" where
  "ap_paging_init s = s\<lparr>cr3 := pml4_base s\<rparr>"

section \<open>The loop invariant\<close>

definition va_2m :: "nat \<Rightarrow> u64" where "va_2m k = of_nat (0x200000 * k)"

lemma unat_va_2m: "k \<le> 1024 \<Longrightarrow> unat (va_2m k) = 0x200000 * k"
  unfolding va_2m_def by (rule unat_of_nat_u64) simp

lemma unat_index:
  "unat (LEVEL_4_INDEX a) = unat a div 2 ^ 39 mod 512" "unat (LEVEL_3_INDEX a) = unat a div 2 ^ 30 mod 512"
  "unat (LEVEL_2_INDEX a) = unat a div 2 ^ 21 mod 512"
  by (simp_all add: index_take_bit unat_field)

lemma idx_va_2m:
  assumes "k < 1024"
  shows "unat (LEVEL_4_INDEX (va_2m k)) = 0" "unat (LEVEL_3_INDEX (va_2m k)) = k div 512"
    "unat (LEVEL_2_INDEX (va_2m k)) = k mod 512"
proof -
  have u: "unat (va_2m k) = 0x200000 * k" using assms by (simp add: unat_va_2m)
  have k: "0x200000 * k div 2 ^ 30 = k div 512" using assms
    by (simp add: div_mult2_eq [of "0x200000 * k" "0x200000" 512, simplified])
  show "unat (LEVEL_4_INDEX (va_2m k)) = 0" using assms by (simp add: unat_index u)
  have "k div 512 < 512" using assms by simp
  then show "unat (LEVEL_3_INDEX (va_2m k)) = k div 512" unfolding unat_index u k by simp
  show "unat (LEVEL_2_INDEX (va_2m k)) = k mod 512" by (simp add: unat_index u)
qed

lemma aligned_va_2m: "k \<le> 1024 \<Longrightarrow> aligned 21 (va_2m k)"
  by (simp add: aligned_iff_dvd unat_va_2m)

lemma same_page_va_2m:
  assumes "k < 1024"
  shows "same_page 21 (va_2m k) va \<longleftrightarrow> unat (take_bit 48 va) div 0x200000 = k"
proof -
  have f: "unat (take_bit 27 (drop_bit 21 a)) = unat (take_bit 48 a) div 0x200000" for a :: u64
  proof -
    have "take_bit 27 (drop_bit 21 a) = drop_bit 21 (take_bit 48 a)" by (simp add: drop_bit_take_bit)
    then show ?thesis by (simp only: unat_drop_bit_eq) (simp add: drop_bit_eq_div)
  qed
  have "unat (take_bit 48 (va_2m k)) = 0x200000 * k"
    using assms by (simp add: unsigned_take_bit_eq unat_va_2m take_bit_nat_eq_self)
  then show ?thesis by (simp add: same_page_def u64_eq_iff f)
qed

lemma join_2m:
  assumes "unat (take_bit 48 va) div 0x200000 = k" "k < 1024"
  shows "take_bit 43 (va_2m k) OR take_bit 21 va = take_bit 48 va"
proof -
  have "va_2m k = push_bit 21 (drop_bit 21 (take_bit 48 va))"
  proof -
    have "unat (drop_bit 21 (take_bit 48 va)) = k"
      using assms(1) by (simp only: unat_drop_bit_eq) (simp add: drop_bit_eq_div)
    then have "drop_bit 21 (take_bit 48 va) = of_nat k"
      using assms(2) unat_of_nat_u64 [of k] by (simp add: u64_eq_iff)
    then show ?thesis by (simp add: push_bit_of_nat push_bit_eq_mult va_2m_def mult.commute)
  qed
  moreover have "take_bit 43 (va_2m k) = va_2m k"
    using assms(2) by (simp add: u64_eq_iff unsigned_take_bit_eq unat_va_2m take_bit_nat_eq_self)
  ultimately show ?thesis
    by (simp, intro bit_word_eqI) (auto simp: bit_simps)
qed

text \<open>Table pages still needed after the first \<open>k\<close> large pages were mapped.\<close>

definition spare :: "nat \<Rightarrow> nat" where "spare k = (if k = 0 then 3 else if k \<le> 512 then 1 else 0)"

text \<open>
  The first \<open>k\<close> large pages are mapped to themselves and nothing else is, with \<open>r\<close> pages to spare
  once the remaining tables are allocated.
\<close>

definition identity_upto :: "nat \<Rightarrow> nat \<Rightarrow> u64 \<times> u64 \<Rightarrow> u64 set \<Rightarrow> kstate \<Rightarrow> bool" where
  "identity_upto k r lo S s \<longleftrightarrow> kwf S s \<and>
     (\<forall>va. pa s va = (if unat (take_bit 48 va) < 0x200000 * k then take_bit 48 va else - 1)) \<and>
     (\<forall>j. k \<le> j \<and> j < 1024 \<longrightarrow> hole s (idx3 (va_2m j)) (LEVEL_2_INDEX (va_2m j))) \<and>
     avail s (spare k + r) \<and> low_region s = lo \<and>
     (0 < k \<longrightarrow> \<not> hole s [] 0) \<and> (0 < k \<longrightarrow> \<not> hole s [0] 0) \<and> (512 < k \<longrightarrow> \<not> hole s [0] 1)"

lemma index_va_2m:
  assumes "k < 1024"
  shows "LEVEL_4_INDEX (va_2m k) = 0" "idx4 (va_2m k) = [0]"
    "LEVEL_3_INDEX (va_2m k) = (if k < 512 then 0 else 1)"
proof -
  show l4: "LEVEL_4_INDEX (va_2m k) = 0" using idx_va_2m(1) [OF assms] by (simp add: u64_eq_iff)
  then show "idx4 (va_2m k) = [0]" by (simp add: idx4_def)
  have "k div 512 = (if k < 512 then 0 else 1)" using assms by auto
  then show "LEVEL_3_INDEX (va_2m k) = (if k < 512 then 0 else 1)"
    using idx_va_2m(2) [OF assms] by (simp add: u64_eq_iff)
qed

lemma va_2m_inj:
  assumes "j < 1024" "k < 1024" "idx3 (va_2m j) = idx3 (va_2m k)" "LEVEL_2_INDEX (va_2m j) = LEVEL_2_INDEX (va_2m k)"
  shows "j = k"
proof -
  have "j div 512 = k div 512" "j mod 512 = k mod 512"
    using idx_va_2m [OF assms(1)] idx_va_2m [OF assms(2)] assms(3,4) by (auto simp: idx3_def)
  then show ?thesis by (metis div_mult_mod_eq)
qed

lemma identity_need:
  assumes inv: "identity_upto k r lo S s" and k: "k < 1024"
  shows "avail s (need s (va_2m k) + (spare (Suc k) + r))"
proof -
  have h: "0 < k \<Longrightarrow> \<not> hole s [] 0" "0 < k \<Longrightarrow> \<not> hole s [0] 0" "512 < k \<Longrightarrow> \<not> hole s [0] 1"
    using inv by (auto simp: identity_upto_def)
  consider "k = 0" | "0 < k" "k < 512" | "k = 512" | "512 < k" by linarith
  then have "need s (va_2m k) + (spare (Suc k) + r) \<le> spare k + r"
    by cases (use k h in \<open>simp_all add: need_def index_va_2m spare_def\<close>)
  moreover have "avail s (spare k + r)"
    using inv unfolding identity_upto_def by blast
  ultimately show ?thesis by (rule avail_mono [rotated])
qed

lemma identity_step:
  assumes inv: "identity_upto k r lo S s" and k: "k < 1024"
  obtains s' S' where "map_address (va_2m k) (va_2m k) PAGE_SIZE_2M s = Inr (0, s')"
    "identity_upto (Suc k) r lo S' s'"
proof -
  let ?v = "va_2m k"
  have wf: "kwf S s" and ho: "hole s (idx3 ?v) (LEVEL_2_INDEX ?v)" using inv k by (auto simp: identity_upto_def)
  have k': "k \<le> 1024" using k by simp
  from map_2m_total [OF wf identity_need [OF inv k] ho aligned_va_2m [OF k']] obtain s' where
    r': "map_address ?v ?v PAGE_SIZE_2M s = Inr (0, s')" and av: "avail s' (spare (Suc k) + r)"
    and f: "filled s s' {([], LEVEL_4_INDEX ?v), (idx4 ?v, LEVEL_3_INDEX ?v), (idx3 ?v, LEVEL_2_INDEX ?v)}" by blast
  from map_address_spec [OF wf r'] obtain S' where S': "kwf S' s'" "pa_mapped 21 43 s ?v ?v s'" by auto
  note hole' = filledD [OF f, unfolded index_va_2m(1,2) [OF k]]
  have "identity_upto (Suc k) r lo S' s'" unfolding identity_upto_def
  proof (intro conjI allI impI)
    show "kwf S' s'" by fact
    show "pa s' va = (if unat (take_bit 48 va) < 0x200000 * Suc k then take_bit 48 va else - 1)" for va
    proof (cases "unat (take_bit 48 va) div 0x200000 = k")
      case True
      then have "unat (take_bit 48 va) < 0x200000 * Suc k" by (simp add: div_eq_iff_range)
      with True S'(2) show ?thesis
        using join_2m [OF True k] by (simp add: pa_mapped_def same_page_va_2m k)
    next
      case False
      then have "unat (take_bit 48 va) < 0x200000 * Suc k \<longleftrightarrow> unat (take_bit 48 va) < 0x200000 * k"
        using mult_le_mono2 [of k "Suc k" "0x200000 :: nat"]
        by (simp only: div_eq_iff_range zero_less_numeral) (meson Suc_leD le_refl not_le order_less_le_trans)
      with False S'(2) inv show ?thesis
        by (simp add: pa_mapped_def same_page_va_2m k identity_upto_def)
    qed
    show "hole s' (idx3 (va_2m j)) (LEVEL_2_INDEX (va_2m j))" if "Suc k \<le> j \<and> j < 1024" for j
    proof -
      have "(idx3 (va_2m j), LEVEL_2_INDEX (va_2m j)) \<noteq> (idx3 ?v, LEVEL_2_INDEX ?v)"
        using va_2m_inj [of j k] that k by auto
      then show ?thesis using that inv hole' [OF path_ok_idx(2) index_less(3), of "va_2m j" "va_2m j"]
        by (auto simp: identity_upto_def idx3_def)
    qed
    show "avail s' (spare (Suc k) + r)" by (rule av)
    show "low_region s' = lo" using map_2m_region [OF r'] inv by (simp add: identity_upto_def)
    show "\<not> hole s' [] 0" using hole' [of "[]" 0] by simp
    show "\<not> hole s' [0] 0"
      using hole' [of "[0]" 0] inv k by (auto simp: identity_upto_def path_ok_def index_va_2m)
    show "\<not> hole s' [0] 1" if "512 < Suc k"
      using hole' [of "[0]" 1] that inv k by (auto simp: identity_upto_def path_ok_def index_va_2m)
  qed
  with r' that show thesis by blast
qed

lemma va_2m_less: "k \<le> 1024 \<Longrightarrow> va_2m k < 0x80000000 \<longleftrightarrow> k < 1024"
  by (simp add: word_less_nat_alt unat_va_2m)

lemma va_2m_Suc: "va_2m k + PAGE_SIZE_2M = va_2m (Suc k)"
  by (simp add: va_2m_def algebra_simps)

lemma paging_init_loop_identity:
  assumes "identity_upto k r lo S s" "k \<le> 1024"
  shows "\<exists>s' S'. paging_init_loop (va_2m k) s = Inr s' \<and> identity_upto 1024 r lo S' s'"
  using assms
proof (induction "1024 - k" arbitrary: k S s)
  case 0
  then have "k = 1024" by simp
  with 0 va_2m_less [of k] show ?case by (subst paging_init_loop.simps) auto
next
  case (Suc n)
  then have k: "k < 1024" by simp
  from identity_step [OF Suc.prems(1) k] obtain s' S' where
    r: "map_address (va_2m k) (va_2m k) PAGE_SIZE_2M s = Inr (0, s')" and inv: "identity_upto (Suc k) r lo S' s'"
    by blast
  have "paging_init_loop (va_2m k) s = paging_init_loop (va_2m (Suc k)) s'"
    using r k by (subst paging_init_loop.simps) (simp add: va_2m_less va_2m_Suc)
  moreover have "n = 1024 - Suc k" "Suc k \<le> 1024" using Suc.hyps(2) k by auto
  ultimately show ?case using Suc.hyps(1) [OF _ inv] by simp
qed

lemma fresh_pml4:
  assumes pm: "pm_ok s" and c0: "current_avail_page s \<noteq> 0" and av: "avail s (4 + r)"
  obtains s1 where "get_physical_page s = Inr (current_avail_page s, s1)"
    "identity_upto 0 r (low_region s) {current_avail_page s}
       (s1\<lparr>pml4_base := current_avail_page s, kmem := memset (kmem s1) (current_avail_page s) 0 PAGE_SIZE_4K\<rparr>)"
proof -
  let ?P = "current_avail_page s"
  have "avail s (Suc (3 + r))" using av by (simp add: eval_nat_numeral)
  from get_physical_page_avail [OF pm this] obtain s1 where
    g: "get_physical_page s = Inr (?P, s1)" and av1: "avail s1 (3 + r)" by blast
  note ok = get_physical_page_success [OF pm g c0]
  let ?s = "s1\<lparr>pml4_base := ?P, kmem := memset (kmem s1) ?P 0 PAGE_SIZE_4K\<rparr>"
  have z: "load64 (kmem ?s) (?P + 8 * i) = 0" if "i < 512" for i
    using that ok(4) by (simp add: mem_simps)
  have e: "kentry (kmem ?s) (pml4_base ?s) p i = (if p = [] then Some 0 else None)" if "path_ok p" "i < 512" for p i
  proof (cases p)
    case Nil
    then show ?thesis using z [OF that(2)] by (simp add: entry_def)
  next
    case (Cons j r)
    then have "j < 512" using that by (simp add: path_ok_def)
    with Cons z show ?thesis by (simp add: entry_def host.not_tbl_0)
  qed
  have np: "\<not> e_present 0" by (simp add: e_present_def)
  have wf: "kwf {?P} ?s" unfolding kwf_def
  proof (intro conjI allI impI ballI)
    show "pm_ok ?s" using ok(3) by (simp add: pm_ok_def)
    show "wf_tables e_is_table e_table (load64 (kmem ?s)) (pml4_base ?s) {?P}"
      using host.wf_empty_root [OF ok(4), of "load64 (kmem ?s)"] z by simp
    show "aligned 12 t" "unat t + 4096 \<le> unat (current_avail_page ?s)" if "t \<in> {?P}" for t
      using that ok(4,5) by simp_all
    show "e_is_table d" if "path_ok p" "i < 512" "kentry (kmem ?s) (pml4_base ?s) p i = Some d" "e_present d" for p i d
      using that np e [OF that(1,2)] by (auto split: if_splits)
  qed
  have "identity_upto 0 r (low_region s) {?P} ?s" unfolding identity_upto_def
  proof (intro conjI allI impI)
    show "pa ?s va = (if unat (take_bit 48 va) < 0x200000 * 0 then take_bit 48 va else - 1)" for va
      using e [OF path_ok_idx(2) index_less(3), of va va] length_idx(2) [of va]
      by (simp add: pa_eq_leaf [OF wf] leaf_pa_def idx3_def)
    show "hole ?s (idx3 (va_2m j)) (LEVEL_2_INDEX (va_2m j))" if "0 \<le> j \<and> j < 1024" for j
      using e [OF path_ok_idx(2) index_less(3), of "va_2m j" "va_2m j"] by (simp add: hole_def idx3_def)
    show "avail ?s (spare 0 + r)" using av1 by (simp add: avail_def spare_def)
    show "low_region ?s = low_region s" using get_physical_page_region [OF g] by simp
  qed (use wf in simp_all)
  with g that show thesis by blast
qed

section \<open>Main properties\<close>

lemma paging_init_identity_law:
  assumes "pm_ok s" "current_avail_page s \<noteq> 0" "avail s (4 + r)"
  shows "\<exists>s' S. paging_init s = Inr s' \<and> kwf S s' \<and> cr3 s' = pml4_base s' \<and> avail s' r \<and>
    (\<forall>va. pa s' va = (if take_bit 48 va < 0x80000000 then take_bit 48 va else - 1))"
proof -
  from fresh_pml4 [OF assms] obtain s1 where
    g: "get_physical_page s = Inr (current_avail_page s, s1)" and
    inv: "identity_upto 0 r (low_region s) {current_avail_page s}
       (s1\<lparr>pml4_base := current_avail_page s, kmem := memset (kmem s1) (current_avail_page s) 0 PAGE_SIZE_4K\<rparr>)"
    by blast
  from paging_init_loop_identity [OF inv] obtain s2 S2 where
    l: "paging_init_loop 0 (s1\<lparr>pml4_base := current_avail_page s,
        kmem := memset (kmem s1) (current_avail_page s) 0 PAGE_SIZE_4K\<rparr>) = Inr s2"
    and inv2: "identity_upto 1024 r (low_region s) S2 s2" by (auto simp: va_2m_def)
  let ?s' = "s2\<lparr>cr3 := pml4_base s2\<rparr>"
  have "paging_init s = Inr ?s'" using g l by (simp add: paging_init_def)
  moreover have "kwf S2 ?s'" "\<And>va. pa ?s' va = pa s2 va"
    using inv2 by (auto simp: identity_upto_def kwf_def pm_ok_def pa_def)
  ultimately show ?thesis
    using inv2 by (intro exI [of _ ?s'] exI [of _ S2]) (simp add: identity_upto_def word_less_nat_alt spare_def)
qed

text \<open>
  C3 (paging_init). With four and \<open>r\<close> free pages below 4 GiB, \<open>paging_init\<close> returns leaving \<open>r\<close> of them; its page tables are
  well formed and loaded into cr3, every address below 2 GiB translates to itself (only the low 48
  bits of an address count), and no other address is translated.
\<close>

theorem paging_init_identity:
  assumes "pm_ok s" "current_avail_page s \<noteq> 0" "avail s (4 + r)"
  shows "\<exists>s' S. paging_init s = Inr s' \<and> kwf S s' \<and> cr3 s' = pml4_base s' \<and> avail s' r \<and>
    (\<forall>va. pa s' va = (if take_bit 48 va < 0x80000000 then take_bit 48 va else - 1))"
  using assms by (rule paging_init_identity_law)

theorem paging_init_identity_witness:
  "avail sample_kstate (4 + 8) \<and> (\<exists>s'. paging_init sample_kstate = Inr s' \<and> pa s' 0x1234567 = 0x1234567 \<and>
     pa s' 0x80000000 = - 1)"
proof -
  from paging_init_identity [OF sample_kstate_ok, of 8] obtain s' S where
    s': "paging_init sample_kstate = Inr s'"
      "\<forall>va. pa s' va = (if take_bit 48 va < 0x80000000 then take_bit 48 va else - 1)" by auto
  then show ?thesis using sample_kstate_ok(3) [of 8] by (intro conjI exI [of _ s']) simp_all
qed

text \<open>Concrete page tables, for the witnesses of the properties of \<open>map_address\<close>.\<close>

theorem map_address_translates_witness:
  "\<exists>S s s'. kwf S s \<and> map_address 0x400000 0x600000 PAGE_SIZE_2M s = Inr (0, s') \<and> pa s' 0x412345 = 0x612345"
proof -
  let ?P = "current_avail_page sample_kstate"
  from fresh_pml4 [OF sample_kstate_ok(1,2), of 0] sample_kstate_ok(3) [of 0] obtain s1 where
    inv: "identity_upto 0 0 (low_region sample_kstate) {?P} (s1\<lparr>pml4_base := ?P, kmem := memset (kmem s1) ?P 0 PAGE_SIZE_4K\<rparr>)" by blast
  let ?s = "s1\<lparr>pml4_base := ?P, kmem := memset (kmem s1) ?P 0 PAGE_SIZE_4K\<rparr>"
  have wf: "kwf {?P} ?s" and un: "pa ?s va = - 1" and av: "avail ?s 3"
    and ho: "hole ?s (idx3 (va_2m 2)) (LEVEL_2_INDEX (va_2m 2))" for va
    using inv by (auto simp: identity_upto_def spare_def)
  have va: "va_2m 2 = 0x400000" by (simp add: va_2m_def)
  have "avail ?s (need ?s (va_2m 2) + 0)" using av by (rule avail_mono) (simp add: need_def)
  then obtain s' where r: "map_address 0x400000 0x600000 PAGE_SIZE_2M ?s = Inr (0, s')"
    using map_2m_total [OF wf _ ho, of 0 "0x600000"] by (auto simp: va aligned_iff_dvd)
  have "pa s' 0x412345 = 0x612345"
    using map_address_translates [OF wf r] by (auto simp: same_page_def take_bit_eq_mask mask_numeral)
  with wf r show ?thesis by blast
qed

lemma sample_2m_page:
  obtains S s where "kwf S s" "pa s 0x400000 = 0x1000000000"
    "kentry (kmem s) (pml4_base s) (idx3 0x400000) (LEVEL_2_INDEX 0x400000) = Some (page_entry_2m 0x1000000000)"
    "0x1000000000 \<notin> S" "load64 (kmem s) 0x1000000000 = 0"
proof -
  let ?P = "current_avail_page sample_kstate"
  from fresh_pml4 [OF sample_kstate_ok(1,2), of 0] sample_kstate_ok(3) [of 0] obtain s1 where
    g: "get_physical_page sample_kstate = Inr (?P, s1)" and
    inv: "identity_upto 0 0 (low_region sample_kstate) {?P} (s1\<lparr>pml4_base := ?P, kmem := memset (kmem s1) ?P 0 PAGE_SIZE_4K\<rparr>)" by blast
  let ?s = "s1\<lparr>pml4_base := ?P, kmem := memset (kmem s1) ?P 0 PAGE_SIZE_4K\<rparr>"
  have wf: "kwf {?P} ?s" and av: "avail ?s 3"
    and ho: "hole ?s (idx3 (va_2m 2)) (LEVEL_2_INDEX (va_2m 2))"
    using inv by (auto simp: identity_upto_def spare_def)
  have va: "va_2m 2 = 0x400000" by (simp add: va_2m_def)
  have al: "aligned 21 0x1000000000" by (simp add: aligned_iff_dvd)
  have "avail ?s (need ?s (va_2m 2) + 1)" using av by (rule avail_mono) (simp add: need_def)
  from map_2m_total [OF wf this ho al] obtain s where
    r: "map_address 0x400000 0x1000000000 PAGE_SIZE_2M ?s = Inr (0, s)" and av1: "avail s 1" and
    e: "kentry (kmem s) (pml4_base s) (idx3 0x400000) (LEVEL_2_INDEX 0x400000) = Some (page_entry_2m 0x1000000000)"
    unfolding va by metis
  from map_address_spec [OF wf r] obtain S where S: "kwf S s" "untouched S ?s s" "pa_mapped 21 43 ?s 0x400000 0x1000000000 s"
    by auto
  have cur: "unat (current_avail_page s) + 4096 \<le> 0x1000000000"
    using S(1) av1 by (auto simp: kwf_def pm_ok_def avail_def)
  have low: "unat t + 4096 \<le> 0x1000000000" if "t \<in> S" for t
    using that S(1) cur by (fastforce simp: kwf_def)
  have notin: "pfn 0x1000000000 \<notin> pfn ` S"
  proof
    assume "pfn 0x1000000000 \<in> pfn ` S"
    then obtain t where t: "t \<in> S" "pfn t = pfn 0x1000000000" by auto
    then have "unat (pfn t) = 0x1000000" by (simp add: unat_pfn)
    then have "0x1000000 \<le> unat t div 4096" by (simp only: unat_pfn)
    then show False using low [OF t(1)] by (simp add: less_eq_div_iff_mult_less_eq)
  qed
  have zero: "kmem ?s = (\<lambda>_. 0)"
    using g by (auto simp: sample_kstate_def get_physical_page_def get_physical_pages_def Let_def memset_def
      split: if_splits)
  have "load64 (kmem s) 0x1000000000 = load64 (kmem ?s) 0x1000000000"
  proof (rule load64_cong)
    fix i :: nat assume "i < 8"
    then have "pfn (0x1000000000 + of_nat i) = pfn 0x1000000000"
      by (intro pfn_add_small) (simp_all add: aligned_iff_dvd)
    then show "kmem s (0x1000000000 + of_nat i) = kmem ?s (0x1000000000 + of_nat i)"
      using S(2) notin by (simp add: untouched_def)
  qed
  also have "\<dots> = 0" unfolding zero by (simp add: load64_def load_bytes_def upt_rec)
  finally have "load64 (kmem s) 0x1000000000 = 0" .
  moreover have "pa s 0x400000 = 0x1000000000"
    using S(3) by (simp add: pa_mapped_def same_page_def)
  moreover have "0x1000000000 \<notin> S" using notin by blast
  ultimately show thesis using that S(1) e by blast
qed

theorem map_4k_inside_2m_corrupts_witness:
  "\<exists>s s'. map_address 0x400000 0x600000 PAGE_SIZE_4K s = Inr (0, s') \<and> pa s 0x400000 = 0x1000000000 \<and>
     load64 (kmem s) 0x1000000000 = 0 \<and> load64 (kmem s') 0x1000000000 = page_entry_4k 0x600000 \<and>
     pa s' 0x400000 = 0x1000000000"
proof -
  obtain S s where s: "kwf S s" "pa s 0x400000 = 0x1000000000"
    "kentry (kmem s) (pml4_base s) (idx3 0x400000) (LEVEL_2_INDEX 0x400000) = Some (page_entry_2m 0x1000000000)"
    "0x1000000000 \<notin> S" "load64 (kmem s) 0x1000000000 = 0"
    by (rule sample_2m_page)
  then obtain t where t: "kwalk (kmem s) (pml4_base s) (idx3 0x400000) = Some t"
    "page_entry_2m 0x1000000000 = load64 (kmem s) (t + 8 * LEVEL_2_INDEX 0x400000)"
    by (auto simp: entry_def)
  have tb: "e_table (page_entry_2m 0x1000000000) = 0x1000000000"
    by (simp add: page_entry_2m_table aligned_iff_dvd)
  have a: "0x1000000000 = e_table (page_entry_2m 0x1000000000) + 8 * LEVEL_1_INDEX 0x400000"
    by (simp add: tb LEVEL_1_INDEX_def)
  have "\<not> e_present (load64 (kmem s) 0x1000000000)" "aligned 12 0x600000"
    by (simp_all add: s(5) e_present_def aligned_iff_dvd)
  from map_4k_inside_2m_corrupts [OF s(1) t(1) t(2) page_entry_2m_props(1,2) a _ this] s tb
  obtain s' where "map_address 0x400000 0x600000 PAGE_SIZE_4K s = Inr (0, s')"
    "load64 (kmem s') 0x1000000000 = page_entry_4k 0x600000" "pa s' 0x400000 = pa s 0x400000" by auto
  with s(2,5) show ?thesis by (intro exI [of _ s] exI [of _ s']) simp
qed

end
