(* ===== verification/Apic.thy ===== *)
theory Apic
  imports Identity_Map
begin

text \<open>
  The interrupt controllers of the host: \<open>x86_64/lapic.c\<close>, \<open>x86_64/ioapic.c\<close>.  The code reaches the
  controllers through memory-mapped registers, ports and model-specific registers.  The model records
  every such access; what a read gives is a parameter, a function of the accesses made so far, and
  the properties name what they rely on of it.  Log output is left out.
\<close>

section \<open>Accesses to the platform\<close>

datatype access =
    Store32 u32 u32
  | Load32 u32
  | Out8 u16 u8
  | In8 u16
  | Write_msr u32 u64
  | Read_msr u32

text \<open>The accesses made so far, the newest first.\<close>

type_synonym history = "access list"

record platform =
  mmio_value :: "history \<Rightarrow> u32 \<Rightarrow> u32"
  port_value :: "history \<Rightarrow> u16 \<Rightarrow> u8"
  msr_value :: "history \<Rightarrow> u32 \<Rightarrow> u64"
  cpuid_value :: "u32 \<Rightarrow> u32 \<times> u32 \<times> u32 \<times> u32"

definition inb :: "platform \<Rightarrow> u16 \<Rightarrow> history \<Rightarrow> u8 \<times> history" where
  "inb p port h = (port_value p h port, In8 port # h)"

definition outb :: "u16 \<Rightarrow> u8 \<Rightarrow> history \<Rightarrow> history" where
  "outb port v h = Out8 port v # h"

text \<open>The two halves of a model-specific register, as \<open>RDMSR\<close> leaves them in \<open>eax\<close> and \<open>edx\<close>.\<close>

definition RDMSR :: "platform \<Rightarrow> u32 \<Rightarrow> history \<Rightarrow> (u32 \<times> u32) \<times> history" where
  "RDMSR p msr h = (let v = msr_value p h msr in ((ucast v, ucast (drop_bit 32 v)), Read_msr msr # h))"

definition WRMSR :: "u32 \<Rightarrow> u32 \<Rightarrow> u32 \<Rightarrow> history \<Rightarrow> history" where
  "WRMSR msr eax edx h = Write_msr msr (push_bit 32 (ucast edx) OR ucast eax) # h"

section \<open>The local controller\<close>

abbreviation APIC_BASE :: u64 where "APIC_BASE \<equiv> 0xfee00000"
abbreviation APIC_LVT_MASKED :: u32 where "APIC_LVT_MASKED \<equiv> 0x10000"
abbreviation APIC_ID_REGISTER :: u32 where "APIC_ID_REGISTER \<equiv> 0xfee00020"
abbreviation APIC_TIMER_REGISTER :: u32 where "APIC_TIMER_REGISTER \<equiv> 0xfee00320"
abbreviation APIC_LINT0_REGISTER :: u32 where "APIC_LINT0_REGISTER \<equiv> 0xfee00350"
abbreviation APIC_LINT1_REGISTER :: u32 where "APIC_LINT1_REGISTER \<equiv> 0xfee00360"
abbreviation APIC_PERF_COUNTER_REGISTER :: u32 where "APIC_PERF_COUNTER_REGISTER \<equiv> 0xfee00340"
abbreviation APIC_ERROR_REGISTER :: u32 where "APIC_ERROR_REGISTER \<equiv> 0xfee00370"
abbreviation APIC_ERROR_STATUS_REGISTER :: u32 where "APIC_ERROR_STATUS_REGISTER \<equiv> 0xfee00280"
abbreviation APIC_EOI_REGISTER :: u32 where "APIC_EOI_REGISTER \<equiv> 0xfee000b0"
abbreviation APIC_TASK_PRIORITY_REGISTER :: u32 where "APIC_TASK_PRIORITY_REGISTER \<equiv> 0xfee00080"
abbreviation APIC_SPURIOUS_REGISTER :: u32 where "APIC_SPURIOUS_REGISTER \<equiv> 0xfee000f0"
abbreviation APIC_SPURIOUS_REGISTER_APIC_ENABLE :: u32 where "APIC_SPURIOUS_REGISTER_APIC_ENABLE \<equiv> 0x100"
abbreviation APIC_ICR_LOW :: u32 where "APIC_ICR_LOW \<equiv> 0xfee00300"
abbreviation APIC_ICR_HIGH :: u32 where "APIC_ICR_HIGH \<equiv> 0xfee00310"
abbreviation APIC_TDC_REGISTER :: u32 where "APIC_TDC_REGISTER \<equiv> 0xfee003e0"
abbreviation APIC_TIC_REGISTER :: u32 where "APIC_TIC_REGISTER \<equiv> 0xfee00380"
abbreviation APIC_TIMER_MODE_PERODIC :: u32 where "APIC_TIMER_MODE_PERODIC \<equiv> 0x20000"
abbreviation APIC_ICR_DELIVERY_INIT :: u32 where "APIC_ICR_DELIVERY_INIT \<equiv> 0x500"
abbreviation APIC_ICR_DELIVERY_STARTUP :: u32 where "APIC_ICR_DELIVERY_STARTUP \<equiv> 0x600"
abbreviation APIC_ICR_DELIVER_STATUS_SENDPENDING :: u32 where "APIC_ICR_DELIVER_STATUS_SENDPENDING \<equiv> 0x1000"
abbreviation APIC_ICR_LEVEL_ASSERT :: u32 where "APIC_ICR_LEVEL_ASSERT \<equiv> 0x4000"
abbreviation APIC_ICR_TRIGGER_LEVEL :: u32 where "APIC_ICR_TRIGGER_LEVEL \<equiv> 0x8000"
abbreviation APIC_ICR_SHORTHAND_OTHER :: u32 where "APIC_ICR_SHORTHAND_OTHER \<equiv> 0xc0000"
abbreviation IRQ_BASE :: u32 where "IRQ_BASE \<equiv> 32"
abbreviation IRQ_TIMER :: u32 where "IRQ_TIMER \<equiv> 0"
abbreviation IRQ_ERROR :: u32 where "IRQ_ERROR \<equiv> 19"
abbreviation APIC_BASE_MSR :: u32 where "APIC_BASE_MSR \<equiv> 0x1b"
abbreviation APIC_MSR_BSP_FLAG :: u32 where "APIC_MSR_BSP_FLAG \<equiv> 0x100"
abbreviation APIC_MSR_ENABLE_FLAG :: u32 where "APIC_MSR_ENABLE_FLAG \<equiv> 0x800"
abbreviation AP_BOOT_BASE :: u32 where "AP_BOOT_BASE \<equiv> 0x11000"

definition lapic_read :: "platform \<Rightarrow> u32 \<Rightarrow> history \<Rightarrow> u32 \<times> history" where
  "lapic_read p reg_address h = (mmio_value p h reg_address, Load32 reg_address # h)"

definition lapic_write :: "platform \<Rightarrow> u32 \<Rightarrow> u32 \<Rightarrow> history \<Rightarrow> history" where
  "lapic_write p reg_address v h = snd (lapic_read p APIC_ID_REGISTER (Store32 reg_address v # h))"

definition cpu :: "platform \<Rightarrow> u32" where
  "cpu p = (case cpuid_value p 1 of (eax, ebx, ecx, edx) \<Rightarrow> drop_bit 24 ebx)"

definition mask_lvt_entry :: "platform \<Rightarrow> u32 \<Rightarrow> history \<Rightarrow> history" where
  "mask_lvt_entry p reg_address h =
     (case lapic_read p reg_address h of (reg, h) \<Rightarrow> lapic_write p reg_address (reg OR APIC_LVT_MASKED) h)"

definition is_bootstrap_processor :: "platform \<Rightarrow> history \<Rightarrow> bool \<times> history" where
  "is_bootstrap_processor p h =
     (case RDMSR p APIC_BASE_MSR h of ((eax, edx), h) \<Rightarrow> (eax AND APIC_MSR_BSP_FLAG \<noteq> 0, h))"

definition local_apic_base :: "platform \<Rightarrow> history \<Rightarrow> u32 \<times> history" where
  "local_apic_base p h = (case RDMSR p APIC_BASE_MSR h of ((eax, edx), h) \<Rightarrow> (eax AND 0xfffff000, h))"

definition is_local_apic_enabled :: "platform \<Rightarrow> history \<Rightarrow> bool \<times> history" where
  "is_local_apic_enabled p h =
     (case RDMSR p APIC_BASE_MSR h of ((eax, edx), h) \<Rightarrow>
      case lapic_read p APIC_SPURIOUS_REGISTER h of (svr, h) \<Rightarrow>
      (eax AND APIC_MSR_ENABLE_FLAG \<noteq> 0 \<and> svr AND APIC_SPURIOUS_REGISTER_APIC_ENABLE \<noteq> 0, h))"

definition enable_apic_base :: "platform \<Rightarrow> history \<Rightarrow> u32 \<times> history" where
  "enable_apic_base p h =
     (case RDMSR p APIC_BASE_MSR h of ((eax, edx), h) \<Rightarrow>
      if eax AND APIC_MSR_ENABLE_FLAG = 0
      then (case RDMSR p APIC_BASE_MSR (WRMSR APIC_BASE_MSR (eax OR APIC_MSR_ENABLE_FLAG) edx h) of ((eax, edx), h) \<Rightarrow> (eax, h))
      else (eax, h))"

text \<open>The second test is on the flag of the model-specific register, as in the code.\<close>

definition enable_spurious :: "platform \<Rightarrow> history \<Rightarrow> u32 \<times> history" where
  "enable_spurious p h =
     (case lapic_read p APIC_SPURIOUS_REGISTER h of (svr, h) \<Rightarrow>
      if svr AND APIC_MSR_ENABLE_FLAG = 0
      then lapic_read p APIC_SPURIOUS_REGISTER
        (lapic_write p APIC_SPURIOUS_REGISTER (svr OR APIC_SPURIOUS_REGISTER_APIC_ENABLE) h)
      else (svr, h))"

definition enable_local_apic :: "platform \<Rightarrow> history \<Rightarrow> history result" where
  "enable_local_apic p h =
     (case enable_apic_base p h of (eax, h) \<Rightarrow>
      if eax AND APIC_MSR_ENABLE_FLAG = 0 then Inl Assertion_failed else
      case enable_spurious p h of (svr, h) \<Rightarrow>
      if svr AND APIC_SPURIOUS_REGISTER_APIC_ENABLE = 0 then Inl Assertion_failed else Inr h)"

definition acknowledge_interrupt :: "platform \<Rightarrow> history \<Rightarrow> history" where
  "acknowledge_interrupt p h = lapic_write p APIC_EOI_REGISTER 0x0 h"

partial_function (option) icr_wait :: "platform \<Rightarrow> history \<Rightarrow> history option" where
  "icr_wait p h =
     (case lapic_read p APIC_ICR_LOW h of (v, h) \<Rightarrow>
      if v AND APIC_ICR_DELIVER_STATUS_SENDPENDING \<noteq> 0 then icr_wait p h else Some h)"

text \<open>The two delays only count, and leave no trace here.\<close>

definition start_other_processors :: "platform \<Rightarrow> history \<Rightarrow> history option" where
  "start_other_processors p h =
     Option.bind (icr_wait p (lapic_write p APIC_ICR_LOW
         (APIC_ICR_SHORTHAND_OTHER OR APIC_ICR_DELIVERY_INIT OR APIC_ICR_TRIGGER_LEVEL OR APIC_ICR_LEVEL_ASSERT)
         (lapic_write p APIC_ICR_HIGH 0x0 h))) (\<lambda>h.
     icr_wait p (lapic_write p APIC_ICR_LOW
         (APIC_ICR_SHORTHAND_OTHER OR APIC_ICR_DELIVERY_STARTUP OR drop_bit 12 AP_BOOT_BASE)
         (lapic_write p APIC_ICR_HIGH 0x0 h)))"

definition disable_pics :: "history \<Rightarrow> history" where
  "disable_pics h = outb 0x21 0xff (outb 0xa1 0xff h)"

definition enable_checked :: "platform \<Rightarrow> history \<Rightarrow> history result" where
  "enable_checked p h =
     bind_result (enable_local_apic p h) (\<lambda>h.
     case is_local_apic_enabled p h of (on, h) \<Rightarrow> if on then Inr h else Inl Assertion_failed)"

definition program_timer :: "platform \<Rightarrow> history \<Rightarrow> history" where
  "program_timer p h =
     lapic_write p APIC_TIC_REGISTER 10000000
       (lapic_write p APIC_TIMER_REGISTER (APIC_TIMER_MODE_PERODIC OR (IRQ_BASE + IRQ_TIMER))
         (lapic_write p APIC_TDC_REGISTER 0xb h))"

definition program_lvt :: "platform \<Rightarrow> history \<Rightarrow> history" where
  "program_lvt p h =
     (let h = mask_lvt_entry p APIC_LINT0_REGISTER h;
          h = mask_lvt_entry p APIC_LINT1_REGISTER h;
          h = mask_lvt_entry p APIC_PERF_COUNTER_REGISTER h;
          h = lapic_write p APIC_ERROR_REGISTER (IRQ_ERROR + IRQ_BASE) h;
          h = lapic_write p APIC_ERROR_STATUS_REGISTER 0x0 h;
          h = lapic_write p APIC_ERROR_STATUS_REGISTER 0x0 h;
          h = lapic_write p APIC_EOI_REGISTER 0x0 h
      in lapic_write p APIC_TASK_PRIORITY_REGISTER 0x0 h)"

definition local_apic_init :: "platform \<Rightarrow> kstate \<Rightarrow> history \<Rightarrow> (kstate \<times> history) result" where
  "local_apic_init p k h =
     bind_result (map_address APIC_BASE APIC_BASE PAGE_SIZE_4K k) (\<lambda>(rc, k).
     if rc \<noteq> errno ERROR_OK then Inl Assertion_failed else
     bind_result (enable_checked p (disable_pics h)) (\<lambda>h.
     Inr (k, program_lvt p (program_timer p h))))"

definition local_apic_ap_init :: "platform \<Rightarrow> kstate \<Rightarrow> history \<Rightarrow> (kstate \<times> history) result" where
  "local_apic_ap_init p k h =
     bind_result (map_address APIC_BASE APIC_BASE PAGE_SIZE_4K k) (\<lambda>(rc, k).
     if rc \<noteq> errno ERROR_OK \<and> rc \<noteq> - errno ERROR_DUPLICATION then Inl Assertion_failed else
     bind_result (enable_checked p (disable_pics h)) (\<lambda>h. Inr (k, h)))"

section \<open>The input and output controller\<close>

abbreviation IOAPIC_BASE :: "'a::numeral" where "IOAPIC_BASE \<equiv> 0xfec00000"
abbreviation IOAPIC_OFFSET_ID :: u32 where "IOAPIC_OFFSET_ID \<equiv> 0x0"
abbreviation IOAPIC_OFFSET_VERSION :: u32 where "IOAPIC_OFFSET_VERSION \<equiv> 0x1"
abbreviation IOAPIC_REDIRECT_ENTRY_MASKED :: u32 where "IOAPIC_REDIRECT_ENTRY_MASKED \<equiv> 0x10000"

definition IOAPIC_OFFSET_RED_TBL :: "u32 \<Rightarrow> u32" where
  "IOAPIC_OFFSET_RED_TBL n = 0x10 + 2 * n"

definition ioapic_write :: "u32 \<Rightarrow> u32 \<Rightarrow> history \<Rightarrow> history" where
  "ioapic_write offset v h = Store32 (IOAPIC_BASE + 0x10) v # Store32 IOAPIC_BASE offset # h"

definition ioapic_read :: "platform \<Rightarrow> u32 \<Rightarrow> history \<Rightarrow> u32 \<times> history" where
  "ioapic_read p offset h =
     (let h = Store32 IOAPIC_BASE offset # h in (mmio_value p h (IOAPIC_BASE + 0x10), Load32 (IOAPIC_BASE + 0x10) # h))"

definition ioapic_redirect_entry :: "u32 \<Rightarrow> u32 \<Rightarrow> history \<Rightarrow> history" where
  "ioapic_redirect_entry n c h =
     ioapic_write (IOAPIC_OFFSET_RED_TBL n + 1) (push_bit 24 c)
       (ioapic_write (IOAPIC_OFFSET_RED_TBL n) (0x20 + n) h)"

definition mask_redirect_entry :: "u32 \<Rightarrow> history \<Rightarrow> history" where
  "mask_redirect_entry idx h =
     ioapic_write (IOAPIC_OFFSET_RED_TBL idx + 1) 0
       (ioapic_write (IOAPIC_OFFSET_RED_TBL idx) (IOAPIC_REDIRECT_ENTRY_MASKED OR (0x20 + idx)) h)"

function redirect_loop :: "u32 \<Rightarrow> u32 \<Rightarrow> history \<Rightarrow> history" where
  "redirect_loop idx v h =
     (if idx \<le> drop_bit 16 v then redirect_loop (idx + 1) v (mask_redirect_entry idx h) else h)"
  by pat_completeness auto
termination
proof (relation "measure (\<lambda>(idx, v, h). 2 ^ 32 - unat idx)")
  fix idx v :: u32 and h :: history
  assume "idx \<le> drop_bit 16 v"
  moreover have "unat (drop_bit 16 v) < 2 ^ 16"
  proof -
    have "unat v < 2 ^ LENGTH(32)" by (rule unsigned_less)
    then show ?thesis by (simp add: drop_bit_eq_div unat_div less_mult_imp_div_less)
  qed
  ultimately have "unat idx < 2 ^ 16" by (simp add: word_le_nat_alt)
  then show "((idx + 1, v, mask_redirect_entry idx h), idx, v, h) \<in> measure (\<lambda>(idx, v, h). 2 ^ 32 - unat idx)"
    by (simp add: unat_word_ariths)
qed simp

declare redirect_loop.simps [simp del]

definition io_apic_init :: "platform \<Rightarrow> kstate \<Rightarrow> history \<Rightarrow> (kstate \<times> history) result" where
  "io_apic_init p k h =
     bind_result (map_address IOAPIC_BASE IOAPIC_BASE PAGE_SIZE_4K k) (\<lambda>(rc, k).
     if rc \<noteq> errno ERROR_OK then Inl Assertion_failed else
     case ioapic_read p IOAPIC_OFFSET_ID h of (ioapic_id, h) \<Rightarrow>
     case ioapic_read p IOAPIC_OFFSET_VERSION h of (ioapic_version, h) \<Rightarrow>
     Inr (k, redirect_loop 0 ioapic_version h))"

section \<open>What the controllers hold after a history\<close>

fun last_store :: "history \<Rightarrow> u32 \<Rightarrow> u32 option" where
  "last_store [] a = None"
| "last_store (Store32 b v # h) a = (if b = a then Some v else last_store h a)"
| "last_store (_ # h) a = last_store h a"

text \<open>A register of the second controller is written through a window, at the index stored last.\<close>

fun ioapic_reg :: "history \<Rightarrow> u32 \<Rightarrow> u32 option" where
  "ioapic_reg [] r = None"
| "ioapic_reg (Store32 b v # h) r =
     (if b = IOAPIC_BASE + 0x10 \<and> last_store h IOAPIC_BASE = Some r then Some v else ioapic_reg h r)"
| "ioapic_reg (_ # h) r = ioapic_reg h r"

definition apic_enabled :: "platform \<Rightarrow> history \<Rightarrow> bool" where
  "apic_enabled p h \<longleftrightarrow> bit (mmio_value p h APIC_SPURIOUS_REGISTER) 8 \<and> bit (msr_value p h APIC_BASE_MSR) 11"

fun changes_enable :: "access \<Rightarrow> bool" where
  "changes_enable (Store32 a v) \<longleftrightarrow> a = APIC_SPURIOUS_REGISTER"
| "changes_enable (Write_msr m v) \<longleftrightarrow> True"
| "changes_enable _ \<longleftrightarrow> False"

text \<open>
  What the manual of the processor says of the two enable flags: a write sets them, nothing else
  changes them, and bit 11 of the spurious vector register is reserved.
\<close>

definition apic_documented :: "platform \<Rightarrow> bool" where
  "apic_documented p \<longleftrightarrow>
     (\<forall>h. \<not> bit (mmio_value p h APIC_SPURIOUS_REGISTER) 11) \<and>
     (\<forall>h v. bit (mmio_value p (Store32 APIC_SPURIOUS_REGISTER v # h) APIC_SPURIOUS_REGISTER) 8 = bit v 8) \<and>
     (\<forall>h v. bit (msr_value p (Store32 APIC_SPURIOUS_REGISTER v # h) APIC_BASE_MSR) 11 = bit (msr_value p h APIC_BASE_MSR) 11) \<and>
     (\<forall>h v. bit (msr_value p (Write_msr APIC_BASE_MSR v # h) APIC_BASE_MSR) 11 = bit v 11) \<and>
     (\<forall>h a. \<not> changes_enable a \<longrightarrow>
        bit (mmio_value p (a # h) APIC_SPURIOUS_REGISTER) 8 = bit (mmio_value p h APIC_SPURIOUS_REGISTER) 8 \<and>
        bit (msr_value p (a # h) APIC_BASE_MSR) 11 = bit (msr_value p h APIC_BASE_MSR) 11)"

lemma documentedD:
  assumes "apic_documented p"
  shows "\<not> bit (mmio_value p h APIC_SPURIOUS_REGISTER) 11"
    "bit (mmio_value p (Store32 APIC_SPURIOUS_REGISTER v # h) APIC_SPURIOUS_REGISTER) 8 = bit v 8"
    "bit (msr_value p (Store32 APIC_SPURIOUS_REGISTER v # h) APIC_BASE_MSR) 11 = bit (msr_value p h APIC_BASE_MSR) 11"
    "bit (msr_value p (Write_msr APIC_BASE_MSR w # h) APIC_BASE_MSR) 11 = bit w 11"
    "\<not> changes_enable a \<Longrightarrow>
      bit (mmio_value p (a # h) APIC_SPURIOUS_REGISTER) 8 = bit (mmio_value p h APIC_SPURIOUS_REGISTER) 8"
    "\<not> changes_enable a \<Longrightarrow> bit (msr_value p (a # h) APIC_BASE_MSR) 11 = bit (msr_value p h APIC_BASE_MSR) 11"
  using assms unfolding apic_documented_def by blast+

text \<open>The accesses that stay within the page of the local controller, its base register and the old controllers' masks.\<close>

fun apic_access :: "access \<Rightarrow> bool" where
  "apic_access (Store32 a v) \<longleftrightarrow> drop_bit 12 a = 0xfee00"
| "apic_access (Load32 a) \<longleftrightarrow> drop_bit 12 a = 0xfee00"
| "apic_access (Out8 port v) \<longleftrightarrow> port \<in> {0x21, 0xa1} \<and> v = 0xff"
| "apic_access (In8 port) \<longleftrightarrow> False"
| "apic_access (Write_msr m v) \<longleftrightarrow> m = APIC_BASE_MSR"
| "apic_access (Read_msr m) \<longleftrightarrow> m = APIC_BASE_MSR"

definition apic_only :: "history \<Rightarrow> history \<Rightarrow> bool" where
  "apic_only h h' \<longleftrightarrow> (\<exists>n. h' = n @ h \<and> list_all apic_access n)"

lemma apic_only_refl [simp]: "apic_only h h"
  by (simp add: apic_only_def)

lemma apic_only_Cons [simp]: "apic_access a \<Longrightarrow> apic_only h h' \<Longrightarrow> apic_only h (a # h')"
  unfolding apic_only_def by (elim exE) (rule_tac x = "a # n" in exI, simp)

lemma apic_only_trans: "apic_only h h1 \<Longrightarrow> apic_only h1 h2 \<Longrightarrow> apic_only h h2"
  unfolding apic_only_def by (elim exE) (rule_tac x = "na @ n" in exI, simp)

lemma apic_only_frame:
  assumes "apic_only h h'"
  shows "ioapic_reg h' r = ioapic_reg h r" "last_store h' IOAPIC_BASE = last_store h IOAPIC_BASE"
proof -
  from assms obtain n where n: "h' = n @ h" "list_all apic_access n" by (auto simp: apic_only_def)
  have "ioapic_reg (n @ h) r = ioapic_reg h r \<and> last_store (n @ h) IOAPIC_BASE = last_store h IOAPIC_BASE" using n(2)
  proof (induction n)
    case (Cons a n)
    then show ?case by (cases a) auto
  qed simp
  then show "ioapic_reg h' r = ioapic_reg h r" "last_store h' IOAPIC_BASE = last_store h IOAPIC_BASE" by (simp_all add: n(1))
qed

section \<open>Enabling the local controller\<close>

lemma and_flag: "(x AND 0x800 = 0) = (\<not> bit x 11)" "(x AND 0x100 = 0) = (\<not> bit x 8)" "(x AND 0x1000 = 0) = (\<not> bit x 12)" for x :: u32
  using and_exp_eq_0_iff_not_bit [of x 11] and_exp_eq_0_iff_not_bit [of x 8] and_exp_eq_0_iff_not_bit [of x 12] by simp_all

lemma half_flags: "bit (ucast v :: u32) 11 = bit v 11" "bit (push_bit 32 (ucast e) OR ucast (w OR 0x800) :: u64) 11" for v :: u64 and w e :: u32
proof -
  have "bit (0x800 :: u32) 11" by simp
  then show "bit (push_bit 32 (ucast e) OR ucast (w OR 0x800) :: u64) 11" by (simp add: bit_simps del: bit_numeral_simps)
qed (simp add: bit_simps)

lemma apic_steps:
  assumes "apic_documented p"
  shows "\<exists>v h'. enable_apic_base p h = (v, h') \<and> bit v 11 \<and> apic_only h h' \<and> bit (msr_value p h' APIC_BASE_MSR) 11"
    "bit (msr_value p h APIC_BASE_MSR) 11 \<Longrightarrow> \<exists>v h'. enable_spurious p h = (v, h') \<and> bit v 8 \<and> apic_only h h' \<and> apic_enabled p h'"
  using documentedD [OF assms]
  by (auto simp: enable_apic_base_def enable_spurious_def RDMSR_def WRMSR_def lapic_read_def lapic_write_def Let_def and_flag
      half_flags apic_enabled_def bit_simps)

lemma enable_checked_ok:
  assumes "apic_documented p"
  obtains h' where "enable_checked p h = Inr h'" "apic_only h h'" "apic_enabled p h'"
proof -
  from apic_steps(1) [OF assms] obtain v h1 where 1: "enable_apic_base p h = (v, h1)" "bit v 11" "apic_only h h1"
    "bit (msr_value p h1 APIC_BASE_MSR) 11" by blast
  from apic_steps(2) [OF assms 1(4)] obtain w h2 where 2: "enable_spurious p h1 = (w, h2)" "bit w 8" "apic_only h1 h2" "apic_enabled p h2" by blast
  let ?h = "Load32 APIC_SPURIOUS_REGISTER # Read_msr APIC_BASE_MSR # h2"
  have "enable_checked p h = Inr ?h" using 1 2 documentedD(5,6) [OF assms]
    by (simp add: enable_checked_def enable_local_apic_def is_local_apic_enabled_def RDMSR_def lapic_read_def Let_def and_flag
        half_flags apic_enabled_def)
  moreover have "apic_enabled p ?h" using 2(4) documentedD(5,6) [OF assms] by (simp add: apic_enabled_def)
  moreover have "apic_only h ?h" using apic_only_trans [OF 1(3) 2(3)] by simp
  ultimately show thesis using that by blast
qed

section \<open>The whole initialisation\<close>

definition apic_programmed :: "history \<Rightarrow> bool" where
  "apic_programmed h \<longleftrightarrow>
     last_store h APIC_TDC_REGISTER = Some 0xb \<and>
     last_store h APIC_TIMER_REGISTER = Some (push_bit 17 1 OR 32) \<and>
     last_store h APIC_TIC_REGISTER = Some 10000000 \<and>
     (\<forall>r \<in> {APIC_LINT0_REGISTER, APIC_LINT1_REGISTER, APIC_PERF_COUNTER_REGISTER}. \<exists>v. last_store h r = Some v \<and> bit v 16) \<and>
     last_store h APIC_ERROR_REGISTER = Some 51 \<and>
     last_store h APIC_TASK_PRIORITY_REGISTER = Some 0"

lemma apic_only_writes:
  assumes "apic_only h h'" "drop_bit 12 reg = 0xfee00"
  shows "apic_only h (lapic_write p reg v h')" "apic_only h (mask_lvt_entry p reg h')"
  using assms by (simp_all add: lapic_write_def mask_lvt_entry_def lapic_read_def)

lemma apic_enabled_writes:
  assumes "apic_documented p" "apic_enabled p h" "reg \<noteq> APIC_SPURIOUS_REGISTER"
  shows "apic_enabled p (lapic_write p reg v h)" "apic_enabled p (mask_lvt_entry p reg h)"
  using assms documentedD(5,6) [OF assms(1)]
  by (simp_all add: lapic_write_def mask_lvt_entry_def lapic_read_def apic_enabled_def)

lemma program_ok:
  assumes "apic_documented p" "apic_only h h'" "apic_enabled p h'"
  shows "apic_only h (program_lvt p (program_timer p h'))" "apic_enabled p (program_lvt p (program_timer p h'))"
    "apic_programmed (program_lvt p (program_timer p h'))"
proof -
  show "apic_only h (program_lvt p (program_timer p h'))" "apic_enabled p (program_lvt p (program_timer p h'))"
    using assms(2,3) by (simp_all add: program_lvt_def program_timer_def Let_def apic_only_writes apic_enabled_writes [OF assms(1)])
  have "bit (x OR 0x10000) 16" for x :: u32 by (simp add: bit_simps)
  then show "apic_programmed (program_lvt p (program_timer p h'))"
    by (simp add: apic_programmed_def program_lvt_def program_timer_def Let_def mask_lvt_entry_def lapic_write_def lapic_read_def)
qed

lemma map_own_page:
  assumes "kwf S k" "avail k (3 + r)" "pa k a = - 1" "aligned 12 a" "take_bit 52 a = a"
  obtains S' k' where "map_address a a PAGE_SIZE_4K k = Inr (0, k')" "kwf S' k'" "avail k' r"
    "\<forall>va. pa k' va = (if same_page 12 a va then a OR take_bit 12 va else pa k va)"
proof -
  from map_4k_total [OF assms(1-4) assms(4)] obtain k' where k': "map_address a a PAGE_SIZE_4K k = Inr (0, k')" "avail k' r" by blast
  from map_address_spec [OF assms(1) k'(1)] assms(3) obtain S' where "kwf S' k'" "pa_mapped 12 52 k a a k'" by auto
  with k' that show thesis by (auto simp: pa_mapped_def assms(5))
qed

lemma local_apic_init_ok:
  assumes "kwf S k" "avail k (3 + r)" "pa k APIC_BASE = - 1" "apic_documented p"
  obtains S' k' h' where "local_apic_init p k h = Inr (k', h')" "kwf S' k'" "avail k' r"
    "\<forall>va. pa k' va = (if same_page 12 APIC_BASE va then APIC_BASE OR take_bit 12 va else pa k va)"
    "apic_only h h'" "apic_enabled p h'" "apic_programmed h'"
proof -
  have "aligned 12 APIC_BASE" "take_bit 52 APIC_BASE = APIC_BASE" by (simp_all add: aligned_iff_dvd take_bit_eq_mask mask_numeral)
  from map_own_page [OF assms(1-3) this] obtain S' k' where k':
    "map_address APIC_BASE APIC_BASE PAGE_SIZE_4K k = Inr (0, k')" "kwf S' k'" "avail k' r"
    "\<forall>va. pa k' va = (if same_page 12 APIC_BASE va then APIC_BASE OR take_bit 12 va else pa k va)" by metis
  from enable_checked_ok [OF assms(4), of "disable_pics h"] obtain h1 where
    h1: "enable_checked p (disable_pics h) = Inr h1" "apic_only (disable_pics h) h1" "apic_enabled p h1" .
  have "apic_only h (disable_pics h)" by (simp add: disable_pics_def outb_def)
  from program_ok [OF assms(4) apic_only_trans [OF this h1(2)] h1(3)] k' h1(1) that show thesis
    by (simp add: local_apic_init_def)
qed

section \<open>Starting the other processors\<close>

text \<open>The delivery status clears when it is polled often enough.\<close>

definition ipi_delivered :: "platform \<Rightarrow> bool" where
  "ipi_delivered p \<longleftrightarrow> (\<forall>h. \<exists>n. \<not> bit (mmio_value p (replicate n (Load32 APIC_ICR_LOW) @ h) APIC_ICR_LOW) 12)"

lemma icr_wait_ok:
  assumes "\<not> bit (mmio_value p (replicate n (Load32 APIC_ICR_LOW) @ h) APIC_ICR_LOW) 12"
  shows "\<exists>m. icr_wait p h = Some (replicate (Suc m) (Load32 APIC_ICR_LOW) @ h) \<and>
    \<not> bit (mmio_value p (replicate m (Load32 APIC_ICR_LOW) @ h) APIC_ICR_LOW) 12"
  using assms
proof (induction n arbitrary: h)
  case 0
  then show ?case by (intro exI [of _ 0]) (simp add: icr_wait.simps [of p h] lapic_read_def and_flag)
next
  case (Suc n)
  let ?l = "Load32 APIC_ICR_LOW"
  show ?case
  proof (cases "bit (mmio_value p h APIC_ICR_LOW) 12")
    case False
    then show ?thesis by (intro exI [of _ 0]) (simp add: icr_wait.simps [of p h] lapic_read_def and_flag)
  next
    case True
    have shift: "replicate k ?l @ ?l # h = ?l # replicate k ?l @ h" for k by (induction k) simp_all
    with Suc.prems have "\<not> bit (mmio_value p (replicate n ?l @ ?l # h) APIC_ICR_LOW) 12" by (simp add: shift)
    from Suc.IH [OF this] obtain m where "icr_wait p (?l # h) = Some (replicate (Suc m) ?l @ ?l # h)"
      "\<not> bit (mmio_value p (replicate m ?l @ ?l # h) APIC_ICR_LOW) 12" by blast
    with True show ?thesis by (intro exI [of _ "Suc m"]) (simp add: icr_wait.simps [of p h] lapic_read_def and_flag shift)
  qed
qed

text \<open>One command to all other processors, and the fields the controller reads in it.\<close>

definition ipi :: "u32 \<Rightarrow> access list" where
  "ipi command = [Load32 APIC_ID_REGISTER, Store32 APIC_ICR_LOW command, Load32 APIC_ID_REGISTER, Store32 APIC_ICR_HIGH 0]"

definition ipi_vector :: "u32 \<Rightarrow> u32" where "ipi_vector command = take_bit 8 command"
definition ipi_mode :: "u32 \<Rightarrow> u32" where "ipi_mode command = take_bit 3 (drop_bit 8 command)"
definition ipi_shorthand :: "u32 \<Rightarrow> u32" where "ipi_shorthand command = take_bit 2 (drop_bit 18 command)"

lemma ipi_eq: "lapic_write p APIC_ICR_LOW c (lapic_write p APIC_ICR_HIGH 0 h) = ipi c @ h"
  by (simp add: ipi_def lapic_write_def lapic_read_def)

section \<open>The redirection table\<close>

lemma ioapic_reg_write: "ioapic_reg (ioapic_write offset v h) r = (if r = offset then Some v else ioapic_reg h r)"
  by (simp add: ioapic_write_def)

lemma unat_last_entry: "unat (drop_bit 16 v) < 2 ^ 16" for v :: u32
proof -
  have "unat v < 2 ^ LENGTH(32)" by (rule unsigned_less)
  then show ?thesis by (simp add: drop_bit_eq_div unat_div less_mult_imp_div_less)
qed

lemma red_tbl_eq_iff:
  assumes "e \<le> drop_bit 16 v" "f \<le> drop_bit 16 v"
  shows "IOAPIC_OFFSET_RED_TBL e = IOAPIC_OFFSET_RED_TBL f \<longleftrightarrow> e = f" "IOAPIC_OFFSET_RED_TBL e + 1 \<noteq> IOAPIC_OFFSET_RED_TBL f"
    "IOAPIC_OFFSET_RED_TBL e \<noteq> IOAPIC_OFFSET_RED_TBL f + 1"
proof -
  have b: "unat e < 2 ^ 16" "unat f < 2 ^ 16" using assms unat_last_entry [of v] by (simp_all add: word_le_nat_alt)
  then have u: "unat (IOAPIC_OFFSET_RED_TBL e) = 16 + 2 * unat e" "unat (IOAPIC_OFFSET_RED_TBL f) = 16 + 2 * unat f"
    "unat (IOAPIC_OFFSET_RED_TBL e + 1) = 17 + 2 * unat e" "unat (IOAPIC_OFFSET_RED_TBL f + 1) = 17 + 2 * unat f"
    by (simp_all add: IOAPIC_OFFSET_RED_TBL_def unat_word_ariths)
  have eq: "x = y \<longleftrightarrow> unat x = unat y" for x y :: u32 by (simp add: word_unat_eq_iff)
  show "IOAPIC_OFFSET_RED_TBL e = IOAPIC_OFFSET_RED_TBL f \<longleftrightarrow> e = f" "IOAPIC_OFFSET_RED_TBL e + 1 \<noteq> IOAPIC_OFFSET_RED_TBL f"
    "IOAPIC_OFFSET_RED_TBL e \<noteq> IOAPIC_OFFSET_RED_TBL f + 1"
    unfolding eq u by presburger+
qed

lemma redirect_loop_other:
  assumes "\<forall>e. idx \<le> e \<and> e \<le> drop_bit 16 v \<longrightarrow> r \<noteq> IOAPIC_OFFSET_RED_TBL e \<and> r \<noteq> IOAPIC_OFFSET_RED_TBL e + 1"
  shows "ioapic_reg (redirect_loop idx v h) r = ioapic_reg h r"
  using assms
proof (induction idx v h rule: redirect_loop.induct)
  case (1 idx v h)
  show ?case
  proof (cases "idx \<le> drop_bit 16 v")
    case True
    have "idx \<le> idx + 1" using True unat_last_entry [of v] by (simp add: word_le_nat_alt unat_word_ariths)
    then have "idx \<le> e" if "idx + 1 \<le> e" for e using that by (rule order_trans)
    with 1 True have "ioapic_reg (redirect_loop (idx + 1) v (mask_redirect_entry idx h)) r = ioapic_reg (mask_redirect_entry idx h) r" by blast
    with 1(2) True show ?thesis by (simp add: redirect_loop.simps [of idx] mask_redirect_entry_def ioapic_reg_write)
  qed (simp add: redirect_loop.simps [of idx])
qed

lemma redirect_loop_masks:
  assumes "idx \<le> e" "e \<le> drop_bit 16 v"
  shows "ioapic_reg (redirect_loop idx v h) (IOAPIC_OFFSET_RED_TBL e) = Some (IOAPIC_REDIRECT_ENTRY_MASKED OR (0x20 + e)) \<and>
    ioapic_reg (redirect_loop idx v h) (IOAPIC_OFFSET_RED_TBL e + 1) = Some 0"
  using assms
proof (induction idx v h rule: redirect_loop.induct)
  case (1 idx v h)
  have idx: "idx \<le> drop_bit 16 v" using 1(2,3) by (rule order_trans)
  have lt: "idx + 1 \<le> f \<longleftrightarrow> idx < f" for f
    using idx unat_last_entry [of v] by (simp add: word_le_nat_alt word_less_nat_alt unat_word_ariths Suc_le_eq)
  show ?case
  proof (cases "e = idx")
    case False
    with 1 idx lt show ?thesis by (simp add: redirect_loop.simps [of idx])
  next
    case True
    have "ioapic_reg (redirect_loop (idx + 1) v (mask_redirect_entry idx h)) r = ioapic_reg (mask_redirect_entry idx h) r"
      if "r \<in> {IOAPIC_OFFSET_RED_TBL e, IOAPIC_OFFSET_RED_TBL e + 1}" for r
      using that red_tbl_eq_iff [OF 1(3)] by (intro redirect_loop_other) (auto simp: lt True)
    then show ?thesis using idx True red_tbl_eq_iff(2) [OF idx idx]
      by (simp add: redirect_loop.simps [of idx] mask_redirect_entry_def ioapic_reg_write)
  qed
qed

text \<open>Accesses that leave the local controller as it was programmed.\<close>

fun apic_quiet :: "access \<Rightarrow> bool" where
  "apic_quiet (Store32 a v) \<longleftrightarrow> a \<in> {APIC_ICR_LOW, APIC_ICR_HIGH, IOAPIC_BASE, IOAPIC_BASE + 0x10}"
| "apic_quiet (Write_msr m v) \<longleftrightarrow> False"
| "apic_quiet _ \<longleftrightarrow> True"

definition apic_ready :: "platform \<Rightarrow> history \<Rightarrow> bool" where
  "apic_ready p h \<longleftrightarrow> apic_enabled p h \<and> apic_programmed h"

lemma apic_ready_quiet:
  assumes "apic_documented p" "list_all apic_quiet n" "apic_ready p h"
  shows "apic_ready p (n @ h)"
  using assms(2)
proof (induction n)
  case (Cons a n)
  then have "apic_ready p (n @ h)" "apic_quiet a" by simp_all
  moreover from this(2) have "\<not> changes_enable a" by (cases a) auto
  ultimately show ?case using documentedD(5,6) [OF assms(1)]
    by (cases a) (auto simp: apic_ready_def apic_enabled_def apic_programmed_def)
qed (use assms(3) in simp)

lemma apic_quiet_ipi: "list_all apic_quiet (ipi c)"
  by (simp add: ipi_def)

lemma redirect_loop_quiet: "\<exists>n. redirect_loop idx v h = n @ h \<and> list_all apic_quiet n"
proof (induction idx v h rule: redirect_loop.induct)
  case (1 idx v h)
  show ?case
  proof (cases "idx \<le> drop_bit 16 v")
    case True
    from 1 [OF this] obtain n where n: "redirect_loop (idx + 1) v (mask_redirect_entry idx h) = n @ mask_redirect_entry idx h"
      "list_all apic_quiet n" by blast
    let ?q = "[Store32 (IOAPIC_BASE + 0x10) 0, Store32 IOAPIC_BASE (IOAPIC_OFFSET_RED_TBL idx + 1),
      Store32 (IOAPIC_BASE + 0x10) (IOAPIC_REDIRECT_ENTRY_MASKED OR (0x20 + idx)), Store32 IOAPIC_BASE (IOAPIC_OFFSET_RED_TBL idx)]"
    have "mask_redirect_entry idx h = ?q @ h" by (simp add: mask_redirect_entry_def ioapic_write_def)
    with n True show ?thesis by (intro exI [of _ "n @ ?q"]) (simp add: redirect_loop.simps [of idx])
  qed (simp add: redirect_loop.simps [of idx])
qed

definition redirect_masked :: "u32 \<Rightarrow> history \<Rightarrow> bool" where
  "redirect_masked n h \<longleftrightarrow> (\<forall>e \<le> n.
     ioapic_reg h (IOAPIC_OFFSET_RED_TBL e) = Some (IOAPIC_REDIRECT_ENTRY_MASKED OR (0x20 + e)) \<and>
     ioapic_reg h (IOAPIC_OFFSET_RED_TBL e + 1) = Some 0)"

text \<open>The number of the last entry, from the version register as it is read at this point.\<close>

definition last_redirect :: "platform \<Rightarrow> history \<Rightarrow> u32" where
  "last_redirect p h = drop_bit 16 (fst (ioapic_read p IOAPIC_OFFSET_VERSION (snd (ioapic_read p IOAPIC_OFFSET_ID h))))"

lemma io_apic_init_ok:
  assumes "kwf S k" "avail k (3 + r)" "pa k IOAPIC_BASE = - 1"
  obtains S' k' h' where "io_apic_init p k h = Inr (k', h')" "kwf S' k'" "avail k' r"
    "\<forall>va. pa k' va = (if same_page 12 IOAPIC_BASE va then IOAPIC_BASE OR take_bit 12 va else pa k va)"
    "redirect_masked (last_redirect p h) h'" "\<exists>n. h' = n @ h \<and> list_all apic_quiet n"
proof -
  have "aligned 12 (IOAPIC_BASE :: u64)" "take_bit 52 (IOAPIC_BASE :: u64) = IOAPIC_BASE"
    by (simp_all add: aligned_iff_dvd take_bit_eq_mask mask_numeral)
  from map_own_page [OF assms this] obtain S' k' where k':
    "map_address IOAPIC_BASE IOAPIC_BASE PAGE_SIZE_4K k = Inr (0, k')" "kwf S' k'" "avail k' r"
    "\<forall>va. pa k' va = (if same_page 12 IOAPIC_BASE va then IOAPIC_BASE OR take_bit 12 va else pa k va)" by metis
  let ?r = "ioapic_read p IOAPIC_OFFSET_VERSION (snd (ioapic_read p IOAPIC_OFFSET_ID h))"
  have "io_apic_init p k h = Inr (k', redirect_loop 0 (fst ?r) (snd ?r))"
    using k'(1) by (simp add: io_apic_init_def case_prod_beta)
  moreover have "redirect_masked (last_redirect p h) (redirect_loop 0 (fst ?r) (snd ?r))"
    using redirect_loop_masks [of 0 _ "fst ?r"] by (simp add: redirect_masked_def last_redirect_def)
  moreover have "\<exists>n. redirect_loop 0 (fst ?r) (snd ?r) = n @ h \<and> list_all apic_quiet n"
  proof -
    obtain n where n: "redirect_loop 0 (fst ?r) (snd ?r) = n @ snd ?r" "list_all apic_quiet n" using redirect_loop_quiet by blast
    let ?q = "[Load32 (IOAPIC_BASE + 0x10), Store32 IOAPIC_BASE 1, Load32 (IOAPIC_BASE + 0x10), Store32 IOAPIC_BASE 0]"
    have "snd ?r = ?q @ h" by (simp add: ioapic_read_def Let_def)
    with n show ?thesis by (intro exI [of _ "n @ ?q"]) simp
  qed
  ultimately show thesis using that k' by blast
qed

lemma redirect_entry_reg:
  "ioapic_reg (ioapic_redirect_entry n c h) r =
     (if r = IOAPIC_OFFSET_RED_TBL n + 1 then Some (push_bit 24 c)
      else if r = IOAPIC_OFFSET_RED_TBL n then Some (0x20 + n) else ioapic_reg h r)"
  by (simp add: ioapic_redirect_entry_def ioapic_reg_write)

section \<open>The other processors\<close>

text \<open>
  A page mapped alone in its 2 MiB range stays as it is when it is mapped again, which is what a
  processor started later does with the page of the controller.
\<close>

lemma map_4k_again:
  assumes wf: "kwf S s" and m: "pa s va \<noteq> - 1" and un: "pa s va' = - 1" "same_page 21 va va'"
  shows "map_address va phy PAGE_SIZE_4K s = Inr (- errno ERROR_DUPLICATION, s)"
proof -
  have i: "idx3 va' = idx3 va" "LEVEL_2_INDEX va' = LEVEL_2_INDEX va" using un(2) by (simp_all add: same_page_2m)
  obtain t e2 where t: "kwalk (kmem s) (pml4_base s) (idx3 va) = Some t" "e2 = load64 (kmem s) (t + 8 * LEVEL_2_INDEX va)"
    using m by (auto simp: pa_eq_leaf [OF wf] leaf_pa_def entry_def split: option.splits)
  have p2: "e_present e2"
  proof (rule ccontr)
    assume "\<not> e_present e2"
    then have "kwalk (kmem s) (pml4_base s) (idx2 va) = None" using t by (simp add: idx_snoc(3) walk_snoc e_is_table_def)
    with m t \<open>\<not> e_present e2\<close> show False by (simp add: pa_eq_leaf [OF wf] leaf_pa_def entry_def)
  qed
  have "e_is_table e2" using not_2m_if_unmapped [OF wf, of va' t] t i un(1) p2 by simp
  then have w2: "kwalk (kmem s) (pml4_base s) (idx2 va) = Some (e_table e2)" using t by (simp add: idx_snoc(3) walk_snoc)
  have "e_present (load64 (kmem s) (e_table e2 + 8 * LEVEL_1_INDEX va))"
    using m t w2 \<open>e_is_table e2\<close> by (auto simp: pa_eq_leaf [OF wf] leaf_pa_def entry_def e_is_table_def split: if_splits)
  moreover have "install_pd_table_entry (t + 8 * LEVEL_2_INDEX va) s = Inr (0, s)"
    using p2 t by (simp add: install_pd_table_entry_eq [OF wf path_ok_idx(2) index_less(3) t(1)] install_table_def)
  ultimately show ?thesis using t by (simp add: map_address_eq map_upper_present [OF wf t(1)] install_4k_page_eq)
qed

lemma start_sequence:
  assumes "ipi_delivered p"
  obtains m n where
    "\<not> bit (mmio_value p (replicate m (Load32 APIC_ICR_LOW) @ ipi 0xcc500 @ h) APIC_ICR_LOW) 12"
    "\<not> bit (mmio_value p (replicate n (Load32 APIC_ICR_LOW) @ ipi 0xc0611 @ Load32 APIC_ICR_LOW #
       replicate m (Load32 APIC_ICR_LOW) @ ipi 0xcc500 @ h) APIC_ICR_LOW) 12"
    "start_other_processors p h = Some (Load32 APIC_ICR_LOW # replicate n (Load32 APIC_ICR_LOW) @ ipi 0xc0611 @
       Load32 APIC_ICR_LOW # replicate m (Load32 APIC_ICR_LOW) @ ipi 0xcc500 @ h)"
proof -
  let ?poll = "Load32 APIC_ICR_LOW"
  have wait: "\<exists>m. icr_wait p g = Some (?poll # replicate m ?poll @ g) \<and> \<not> bit (mmio_value p (replicate m ?poll @ g) APIC_ICR_LOW) 12" for g
    using assms icr_wait_ok by (fastforce simp: ipi_delivered_def)
  obtain m where m: "icr_wait p (ipi 0xcc500 @ h) = Some (?poll # replicate m ?poll @ ipi 0xcc500 @ h)"
    "\<not> bit (mmio_value p (replicate m ?poll @ ipi 0xcc500 @ h) APIC_ICR_LOW) 12" using wait by blast
  let ?h1 = "?poll # replicate m ?poll @ ipi 0xcc500 @ h"
  obtain n where n: "icr_wait p (ipi 0xc0611 @ ?h1) = Some (?poll # replicate n ?poll @ ipi 0xc0611 @ ?h1)"
    "\<not> bit (mmio_value p (replicate n ?poll @ ipi 0xc0611 @ ?h1) APIC_ICR_LOW) 12" using wait by blast
  have "start_other_processors p h = Some (?poll # replicate n ?poll @ ipi 0xc0611 @ ?h1)"
    using m(1) n(1) by (simp add: start_other_processors_def ipi_eq)
  with m(2) n(2) show thesis using that by blast
qed

lemma start_other_processors_frame:
  assumes "ipi_delivered p"
  obtains h' n where "start_other_processors p h = Some h'" "h' = n @ h" "list_all apic_quiet n" "apic_only h h'"
proof -
  from start_sequence [OF assms, of h] obtain m n where
    r: "start_other_processors p h = Some (Load32 APIC_ICR_LOW # replicate n (Load32 APIC_ICR_LOW) @ ipi 0xc0611 @
      Load32 APIC_ICR_LOW # replicate m (Load32 APIC_ICR_LOW) @ ipi 0xcc500 @ h)" by blast
  let ?n = "Load32 APIC_ICR_LOW # replicate n (Load32 APIC_ICR_LOW) @ ipi 0xc0611 @
    Load32 APIC_ICR_LOW # replicate m (Load32 APIC_ICR_LOW) @ ipi 0xcc500"
  have "list_all apic_quiet ?n" "list_all apic_access ?n" by (auto simp: ipi_def list_all_iff)
  then show thesis using that [of "?n @ h" ?n] r by (auto simp: apic_only_def)
qed

section \<open>Main property\<close>

text \<open>
  C25 (starting the processors). If a command is delivered when its status is polled often enough, the
  bootstrap processor returns from starting the others; it has sent one INIT and then one start-up
  command to all of them, the second only after the first was delivered and both delivered in the
  end, and the start-up vector is the page the entry code of the other processors is at.
\<close>

theorem aps_started:
  assumes "ipi_delivered p"
  shows "\<exists>init startup m n.
    let poll = Load32 APIC_ICR_LOW; h1 = replicate m poll @ ipi init @ h; h2 = replicate n poll @ ipi startup @ poll # h1 in
    start_other_processors p h = Some (poll # h2) \<and>
    \<not> bit (mmio_value p h1 APIC_ICR_LOW) 12 \<and> \<not> bit (mmio_value p h2 APIC_ICR_LOW) 12 \<and>
    ipi_mode init = 5 \<and> ipi_mode startup = 6 \<and> ipi_shorthand init = 3 \<and> ipi_shorthand startup = 3 \<and>
    push_bit 12 (ipi_vector startup) = AP_BOOT_BASE"
proof -
  from start_sequence [OF assms, of h] obtain m n where
    "\<not> bit (mmio_value p (replicate m (Load32 APIC_ICR_LOW) @ ipi 0xcc500 @ h) APIC_ICR_LOW) 12"
    "\<not> bit (mmio_value p (replicate n (Load32 APIC_ICR_LOW) @ ipi 0xc0611 @ Load32 APIC_ICR_LOW #
       replicate m (Load32 APIC_ICR_LOW) @ ipi 0xcc500 @ h) APIC_ICR_LOW) 12"
    "start_other_processors p h = Some (Load32 APIC_ICR_LOW # replicate n (Load32 APIC_ICR_LOW) @ ipi 0xc0611 @
       Load32 APIC_ICR_LOW # replicate m (Load32 APIC_ICR_LOW) @ ipi 0xcc500 @ h)" .
  then show ?thesis
    by (intro exI [of _ "0xcc500"] exI [of _ "0xc0611"] exI [of _ m] exI [of _ n])
      (simp add: Let_def ipi_mode_def ipi_shorthand_def ipi_vector_def take_bit_eq_mask mask_numeral)
qed

text \<open>
  A platform as the properties describe it: registers read back what was stored, the reserved and the
  status bits read as zero, and the version register of the second controller reports 24 entries.
\<close>

fun last_wrmsr :: "history \<Rightarrow> u32 \<Rightarrow> u64" where
  "last_wrmsr [] m = 0xfee00100"
| "last_wrmsr (Write_msr n v # h) m = (if n = m then v else last_wrmsr h m)"
| "last_wrmsr (_ # h) m = last_wrmsr h m"

definition sample_platform :: platform where
  "sample_platform =
     \<lparr>mmio_value = (\<lambda>h a. if a = IOAPIC_BASE + 0x10 \<and> last_store h IOAPIC_BASE = Some 1 then 0x170011
        else case last_store h a of None \<Rightarrow> 0 | Some v \<Rightarrow> v AND NOT 0x1800),
      port_value = (\<lambda>h a. of_nat (length h) + 1),
      msr_value = last_wrmsr,
      cpuid_value = (\<lambda>leaf. (0, 0, 0, 0xffffffff))\<rparr>"

lemma sample_platform_documented: "apic_documented sample_platform"
proof -
  have m: "\<not> bit (0x1800 :: u32) 8" "bit (0x1800 :: u32) 11" by simp_all
  have q: "last_store (a # h) r = last_store h r \<and> last_wrmsr (a # h) x = last_wrmsr h x"
    if "\<not> changes_enable a" "r = APIC_SPURIOUS_REGISTER" for a h r x using that by (cases a) auto
  show ?thesis using q m
    by (auto simp: apic_documented_def sample_platform_def bit_simps split: option.splits simp del: bit_numeral_simps)
qed

lemma sample_platform_delivers: "ipi_delivered sample_platform"
proof -
  have "bit (0x1800 :: u32) 12" by simp
  then have "\<not> bit (mmio_value sample_platform h APIC_ICR_LOW) 12" for h
    by (auto simp: sample_platform_def bit_simps split: option.splits simp del: bit_numeral_simps)
  then show ?thesis by (simp add: ipi_delivered_def)
qed

theorem aps_started_witness: "ipi_delivered sample_platform \<and> (\<exists>h. start_other_processors sample_platform [] = Some h)"
  using aps_started [OF sample_platform_delivers, of "[]"] sample_platform_delivers by (auto simp: Let_def)

end
