(* ===== verification/Descriptors.thy ===== *)
theory Descriptors
  imports Zelda_Prelude
begin

text \<open>
  Segment, task and interrupt descriptors: \<open>x86_64/gdt.c\<close>, \<open>x86_64/tss.c\<close> and the tables of
  \<open>x86_64/interrupt.c\<close>, with the guest's copies of the last, \<open>guest/interrupt.c\<close> and
  \<open>guest/gdt64.c\<close>.  A descriptor is the quadword, or the pair of quadwords, its bit-fields are packed
  into; the processor's own reading of a descriptor is given separately.
\<close>

abbreviation DPL_0 :: u64 where "DPL_0 \<equiv> 0x0"
abbreviation DPL_3 :: u64 where "DPL_3 \<equiv> 0x3"
abbreviation KERNEL_CODE_SELECTOR :: u64 where "KERNEL_CODE_SELECTOR \<equiv> 0x08"
abbreviation KERNEL_DATA_SELECTOR :: u64 where "KERNEL_DATA_SELECTOR \<equiv> 0x10"
abbreviation USER_CODE_SELECTOR :: u64 where "USER_CODE_SELECTOR \<equiv> 0x1b"
abbreviation USER_DATA_SELECTOR :: u64 where "USER_DATA_SELECTOR \<equiv> 0x23"
abbreviation TSS0_SELECTOR :: u64 where "TSS0_SELECTOR \<equiv> 0x28"
abbreviation MAX_NR_CPUS :: nat where "MAX_NR_CPUS \<equiv> 64"
abbreviation u_SEGMENT_BASE :: u64 where "u_SEGMENT_BASE \<equiv> 0x0"
abbreviation u_SEGMENT_LIMIT :: u64 where "u_SEGMENT_LIMIT \<equiv> - 1"
abbreviation u_SEGMENT_TYPE_RW_DATA :: u64 where "u_SEGMENT_TYPE_RW_DATA \<equiv> 0x2"
abbreviation u_SEGMENT_TYPE_RX_CODE :: u64 where "u_SEGMENT_TYPE_RX_CODE \<equiv> 0xa"

section \<open>Segments\<close>

record gdt_entry =
  limit_0_15 :: u64
  base_0_15 :: u64
  base_16_23 :: u64
  segment_type :: u64
  segmet_class :: u64
  seg_dpl :: u64
  seg_present :: u64
  limit_16_19 :: u64
  seg_avail :: u64
  long_mode :: u64
  operation_size :: u64
  granularity :: u64
  base_24_31 :: u64

definition pack_gdt_entry :: "gdt_entry \<Rightarrow> u64" where
  "pack_gdt_entry e =
     bf_set 0 16 (limit_0_15 e) (bf_set 16 16 (base_0_15 e) (bf_set 32 8 (base_16_23 e) (bf_set 40 4 (segment_type e)
     (bf_set 44 1 (segmet_class e) (bf_set 45 2 (seg_dpl e) (bf_set 47 1 (seg_present e) (bf_set 48 4 (limit_16_19 e)
     (bf_set 52 1 (seg_avail e) (bf_set 53 1 (long_mode e) (bf_set 54 1 (operation_size e) (bf_set 55 1 (granularity e)
     (bf_set 56 8 (base_24_31 e) 0))))))))))))"

definition flat_segment :: "u64 \<Rightarrow> u64 \<Rightarrow> u64 \<Rightarrow> u64" where
  "flat_segment typ pl long = pack_gdt_entry
     \<lparr>limit_0_15 = u_SEGMENT_LIMIT, base_0_15 = u_SEGMENT_BASE, base_16_23 = u_SEGMENT_BASE, segment_type = typ, segmet_class = 1,
      seg_dpl = pl, seg_present = 1, limit_16_19 = u_SEGMENT_LIMIT, seg_avail = 0, long_mode = long, operation_size = 0, granularity = 1,
      base_24_31 = u_SEGMENT_BASE\<rparr>"

definition gdt_entries :: "u64 list" where
  "gdt_entries =
     [0, flat_segment u_SEGMENT_TYPE_RX_CODE DPL_0 1, flat_segment u_SEGMENT_TYPE_RW_DATA DPL_0 0,
      flat_segment u_SEGMENT_TYPE_RX_CODE DPL_3 1, flat_segment u_SEGMENT_TYPE_RW_DATA DPL_3 1] @ replicate (MAX_NR_CPUS * 2) 0"

definition initial_gdt_entries :: "u64 list" where
  "initial_gdt_entries =
     [0, flat_segment u_SEGMENT_TYPE_RX_CODE DPL_0 1, flat_segment u_SEGMENT_TYPE_RW_DATA DPL_0 0]"

section \<open>Task state segments\<close>

record task_state_segment64 =
  rsp0 :: u64
  rsp1 :: u64
  rsp2 :: u64
  ist1 :: u64
  ist2 :: u64
  ist3 :: u64
  ist4 :: u64
  ist5 :: u64
  ist6 :: u64
  ist7 :: u64
  iomap_base :: u16

abbreviation TSS_SIZE :: u64 where "TSS_SIZE \<equiv> 104"

record descriptor_state =
  gdt_table :: "u64 list"
  gdtr :: "u16 \<times> u64"
  task_register :: u64
  tss_base :: "task_state_segment64 list"

definition tss_pre_init :: "descriptor_state \<Rightarrow> descriptor_state" where
  "tss_pre_init s = s\<lparr>tss_base := replicate MAX_NR_CPUS
     \<lparr>rsp0 = 0, rsp1 = 0, rsp2 = 0, ist1 = 0, ist2 = 0, ist3 = 0, ist4 = 0, ist5 = 0, ist6 = 0, ist7 = 0, iomap_base = 0x68\<rparr>\<rparr>"

definition set_pl0_rsp :: "int \<Rightarrow> u64 \<Rightarrow> descriptor_state \<Rightarrow> descriptor_state result" where
  "set_pl0_rsp cpu rsp s =
     (if 0 \<le> cpu \<and> cpu < int MAX_NR_CPUS
      then Inr (s\<lparr>tss_base := (tss_base s)[nat cpu := (tss_base s ! nat cpu)\<lparr>rsp0 := rsp\<rparr>]\<rparr>)
      else Inl Assertion_failed)"

text \<open>The two quadwords of a task descriptor, as the assignments of the loop fill them.\<close>

definition tss_entry :: "u64 \<Rightarrow> u64 \<Rightarrow> u64 \<times> u64" where
  "tss_entry tss_limit tss_addr =
     (let lo = bf_set 0 16 tss_limit 0;
          lo = bf_set 16 16 tss_addr lo;
          lo = bf_set 32 8 (drop_bit 16 tss_addr) lo;
          lo = bf_set 40 4 0x9 lo;
          lo = bf_set 44 1 0 lo;
          lo = bf_set 45 2 DPL_0 lo;
          lo = bf_set 47 1 1 lo;
          lo = bf_set 48 4 (drop_bit 16 tss_limit) lo;
          lo = bf_set 52 1 0 lo;
          lo = bf_set 55 1 0 lo;
          lo = bf_set 56 8 (drop_bit 24 tss_addr) lo;
          hi = bf_set 0 32 (drop_bit 32 tss_addr) 0
      in (lo, hi))"

text \<open>\<^verbatim>\<open>tss_at\<close> is the address of the array of task state segments.\<close>

primrec initialize_tss_entries_loop :: "nat \<Rightarrow> u64 \<Rightarrow> u64 list \<Rightarrow> u64 list" where
  "initialize_tss_entries_loop 0 tss_at g = g"
| "initialize_tss_entries_loop (Suc idx) tss_at g =
     (let g = initialize_tss_entries_loop idx tss_at g
      in case tss_entry (TSS_SIZE - 1) (tss_at + TSS_SIZE * of_nat idx) of (lo, hi) \<Rightarrow> g[5 + 2 * idx := lo, 5 + 2 * idx + 1 := hi])"

declare initialize_tss_entries_loop.simps [simp del]

definition initialize_tss_entries :: "u64 \<Rightarrow> descriptor_state \<Rightarrow> descriptor_state" where
  "initialize_tss_entries tss_at s = s\<lparr>gdt_table := initialize_tss_entries_loop MAX_NR_CPUS tss_at (gdt_table s)\<rparr>"

definition load_gdt :: "u64 \<Rightarrow> descriptor_state \<Rightarrow> descriptor_state" where
  "load_gdt gdt_at s = s\<lparr>gdtr := (of_nat (8 * length (gdt_table s)) - 1, gdt_at)\<rparr>"

definition gdt64_init :: "u64 \<Rightarrow> u64 \<Rightarrow> descriptor_state \<Rightarrow> descriptor_state" where
  "gdt64_init gdt_at tss_at s = load_gdt gdt_at (initialize_tss_entries tss_at s)"

definition gdt64_ap_init :: "u64 \<Rightarrow> descriptor_state \<Rightarrow> descriptor_state" where
  "gdt64_ap_init gdt_at s = load_gdt gdt_at s"

text \<open>
  The instruction \<open>ltr\<close>: the selector must name, within the table, a present and available 64-bit task
  descriptor, the type field of whose upper half is clear; the processor marks it busy.  Anything else
  raises an exception.  No handler is installed when \<open>load_pl0_task\<close> runs.
\<close>

definition ltr :: "u64 \<Rightarrow> descriptor_state \<Rightarrow> descriptor_state result" where
  "ltr selector s =
     (let i = unat (drop_bit 3 selector);
          lo = gdt_table s ! i;
          hi = gdt_table s ! (i + 1)
      in if 8 * i + 15 \<le> unat (fst (gdtr s)) \<and> i + 1 < length (gdt_table s) \<and>
            bit lo 47 \<and> \<not> bit lo 44 \<and> bf_get 40 4 lo = 9 \<and> bf_get 40 5 hi = 0
         then Inr (s\<lparr>gdt_table := (gdt_table s)[i := bf_set 40 4 0xb lo], task_register := selector\<rparr>)
         else Inl Protection_fault)"

definition load_pl0_task :: "int \<Rightarrow> descriptor_state \<Rightarrow> descriptor_state result" where
  "load_pl0_task cpu s =
     (if 0 \<le> cpu \<and> cpu < int MAX_NR_CPUS then
        let selector_index = 5 + cpu;
            selector = push_bit 3 selector_index
        in bind_result (ltr (of_int selector) s) (\<lambda>s.
           if task_register s = of_int selector then Inr s else Inl Assertion_failed)
      else Inl Assertion_failed)"

definition task_register_init :: "u32 \<Rightarrow> descriptor_state \<Rightarrow> descriptor_state result" where
  "task_register_init this_cpu s = load_pl0_task (sint this_cpu) s"

section \<open>Interrupt gates\<close>

text \<open>\<^verbatim>\<open>blank\<close> is what the gate holds when its fields are assigned.\<close>

definition interrupt_gate :: "u64 \<times> u64 \<Rightarrow> u64 \<Rightarrow> u64 \<Rightarrow> u64 \<times> u64" where
  "interrupt_gate blank selector isr_qword =
     (let lo = bf_set 16 16 selector (fst blank);
          lo = bf_set 32 3 0x0 lo;
          lo = bf_set 40 4 0xe lo;
          lo = bf_set 45 2 DPL_0 lo;
          lo = bf_set 47 1 1 lo;
          lo = bf_set 0 16 isr_qword lo;
          lo = bf_set 48 16 (drop_bit 16 isr_qword) lo;
          hi = bf_set 0 32 (drop_bit 32 isr_qword) (snd blank)
      in (lo, hi))"

definition set_pl0_interrupt_gate :: "nat \<Rightarrow> u64 \<Rightarrow> (u64 \<times> u64) list \<Rightarrow> (u64 \<times> u64) list" where
  "set_pl0_interrupt_gate vector isr t = t[vector := interrupt_gate (0, 0) KERNEL_CODE_SELECTOR isr]"

text \<open>The guest's \<open>memset\<close> leaves the 16 bytes at address zero, \<^verbatim>\<open>low\<close>, in the gate.\<close>

definition guest_set_pl0_interrupt_gate :: "u64 \<times> u64 \<Rightarrow> nat \<Rightarrow> u64 \<Rightarrow> (u64 \<times> u64) list \<Rightarrow> (u64 \<times> u64) list" where
  "guest_set_pl0_interrupt_gate low vector isr t = t[vector := interrupt_gate low 0x8 isr]"

section \<open>What the processor reads\<close>

text \<open>Base, limit in bytes, type and presence of a segment or task descriptor.\<close>

definition seg_base :: "u64 \<Rightarrow> u64" where
  "seg_base d = bf_get 16 16 d OR push_bit 16 (bf_get 32 8 d) OR push_bit 24 (bf_get 56 8 d)"

definition seg_limit :: "u64 \<Rightarrow> u64" where
  "seg_limit d = (let l = bf_get 0 16 d OR push_bit 16 (bf_get 48 4 d) in if bit d 55 then push_bit 12 l OR 0xfff else l)"

definition code64 :: "u64 \<Rightarrow> u64 \<Rightarrow> bool" where
  "code64 pl d \<longleftrightarrow> bit d 47 \<and> bit d 44 \<and> bit d 43 \<and> bit d 53 \<and> \<not> bit d 54 \<and> bf_get 45 2 d = pl"

definition data_segment :: "u64 \<Rightarrow> u64 \<Rightarrow> bool" where
  "data_segment pl d \<longleftrightarrow> bit d 47 \<and> bit d 44 \<and> \<not> bit d 43 \<and> bit d 41 \<and> bf_get 45 2 d = pl"

text \<open>An available 64-bit task descriptor for the given segment.\<close>

definition task_descriptor :: "u64 \<Rightarrow> u64 \<Rightarrow> u64 \<times> u64 \<Rightarrow> bool" where
  "task_descriptor addr limit d \<longleftrightarrow> (case d of (lo, hi) \<Rightarrow>
     bit lo 47 \<and> \<not> bit lo 44 \<and> bf_get 40 4 lo = 9 \<and> seg_limit lo = limit \<and> seg_base lo OR push_bit 32 (bf_get 0 32 hi) = addr)"

definition gate_offset :: "u64 \<times> u64 \<Rightarrow> u64" where
  "gate_offset g = (case g of (lo, hi) \<Rightarrow> bf_get 0 16 lo OR push_bit 16 (bf_get 48 16 lo) OR push_bit 32 (bf_get 0 32 hi))"

definition interrupt_gate_to :: "u64 \<Rightarrow> u64 \<Rightarrow> u64 \<times> u64 \<Rightarrow> bool" where
  "interrupt_gate_to selector addr g \<longleftrightarrow> bit (fst g) 47 \<and> \<not> bit (fst g) 44 \<and> bf_get 40 4 (fst g) = 0xe \<and> bf_get 45 2 (fst g) = 0 \<and>
     bf_get 32 3 (fst g) = 0 \<and> bf_get 16 16 (fst g) = selector \<and> gate_offset g = addr"

definition selector_entry :: "u64 \<Rightarrow> nat" where
  "selector_entry selector = unat (drop_bit 3 selector)"

lemma fold_update:
  shows "length (fold (\<lambda>v t. t[v := f v]) [0..<n] t) = length t"
    and "n \<le> length t \<Longrightarrow> v < length t \<Longrightarrow> fold (\<lambda>v t. t[v := f v]) [0..<n] t ! v = (if v < n then f v else t ! v)"
proof -
  show l: "length (fold (\<lambda>v t. t[v := f v]) [0..<n] t) = length t" for n by (induction n) simp_all
  show "n \<le> length t \<Longrightarrow> v < length t \<Longrightarrow> fold (\<lambda>v t. t[v := f v]) [0..<n] t ! v = (if v < n then f v else t ! v)"
    by (induction n) (auto simp: nth_list_update less_Suc_eq l)
qed

lemma interrupt_gate_decodes:
  assumes "selector < 2 ^ 16" "\<not> bit (fst blank) 44"
  shows "interrupt_gate_to selector addr (interrupt_gate blank selector addr)"
proof -
  have s: "take_bit 16 selector = selector" using assms(1)
    by (simp add: u64_eq_iff unsigned_take_bit_eq take_bit_nat_eq_self word_less_nat_alt)
  have "gate_offset (interrupt_gate blank selector addr) = addr"
    by (rule bit_word_eqI) (auto simp: gate_offset_def interrupt_gate_def Let_def bit_simps bit_bf_get bit_bf_set)
  then show ?thesis using s assms(2)
    by (auto simp: interrupt_gate_to_def interrupt_gate_def Let_def bf_simps bit_bf_set)
qed

lemma tss_entry_decodes:
  assumes "limit < 2 ^ 20"
  shows "task_descriptor addr limit (tss_entry limit addr)"
proof -
  obtain lo hi where d: "tss_entry limit addr = (lo, hi)" by fastforce
  have "bit limit n \<Longrightarrow> n < 20" for n
    using bit_imp_unat_ge [of limit n] assms power_increasing_iff [of "2 :: nat" 20 n]
    by (auto simp: word_less_nat_alt not_less [symmetric] dest: le_less_trans)
  then have lim: "n - 16 < 4" if "bit limit n" for n using that by fastforce
  have f: "bf_get 0 16 lo = take_bit 16 limit" "bf_get 48 4 lo = take_bit 4 (drop_bit 16 limit)" "bf_get 16 16 lo = take_bit 16 addr"
    "bf_get 32 8 lo = take_bit 8 (drop_bit 16 addr)" "bf_get 56 8 lo = take_bit 8 (drop_bit 24 addr)"
    "bf_get 0 32 hi = take_bit 32 (drop_bit 32 addr)"
    using d by (auto simp: tss_entry_def Let_def bf_simps)
  have lo: "bit lo 47" "\<not> bit lo 44" "\<not> bit lo 55" "bf_get 40 4 lo = 9"
    using d by (auto simp: tss_entry_def Let_def bf_simps bit_bf_set)
  then have "seg_limit lo = limit"
    using lim by (auto simp: seg_limit_def f bit_simps intro!: bit_word_eqI)
  moreover have "seg_base lo OR push_bit 32 (bf_get 0 32 hi) = addr"
  proof (rule bit_word_eqI)
    fix n assume "n < LENGTH(64)"
    then show "bit (seg_base lo OR push_bit 32 (bf_get 0 32 hi)) n = bit addr n"
      by (cases "n < 32"; cases "n < 24") (auto simp: seg_base_def f bit_simps)
  qed
  moreover note lo
  ultimately show ?thesis by (simp add: task_descriptor_def d)
qed

lemma length_tss_loop [simp]: "length (initialize_tss_entries_loop n a g) = length g"
  by (induction n) (simp_all add: initialize_tss_entries_loop.simps Let_def split: prod.splits)

lemma tss_loop_nth:
  assumes "5 + 2 * n \<le> length g"
  shows "i < n \<Longrightarrow> (initialize_tss_entries_loop n a g ! (5 + 2 * i), initialize_tss_entries_loop n a g ! (5 + 2 * i + 1)) =
      tss_entry (TSS_SIZE - 1) (a + TSS_SIZE * of_nat i)"
    and "j < 5 \<Longrightarrow> initialize_tss_entries_loop n a g ! j = g ! j"
  using assms by (induction n) (auto simp: initialize_tss_entries_loop.simps Let_def less_Suc_eq nth_list_update split: prod.splits)

lemma length_gdt_entries: "length gdt_entries = 133"
  by (simp add: gdt_entries_def)

text \<open>The table after initialisation, abbreviated for the two properties below.\<close>

abbreviation tss_table :: "u64 \<Rightarrow> u64 list" where
  "tss_table tss_at \<equiv> initialize_tss_entries_loop MAX_NR_CPUS tss_at gdt_entries"

lemma tss_table_entry:
  assumes "cpu < MAX_NR_CPUS"
  shows "task_descriptor (tss_at + TSS_SIZE * of_nat cpu) (TSS_SIZE - 1) (tss_table tss_at ! (5 + 2 * cpu), tss_table tss_at ! (6 + 2 * cpu))"
    "\<not> bit (tss_table tss_at ! (6 + 2 * cpu)) 47" "bf_get 40 5 (tss_table tss_at ! (6 + 2 * cpu)) = 0"
proof -
  have six: "6 + 2 * cpu = 5 + 2 * cpu + 1" by simp
  have e: "(tss_table tss_at ! (5 + 2 * cpu), tss_table tss_at ! (6 + 2 * cpu)) = tss_entry (TSS_SIZE - 1) (tss_at + TSS_SIZE * of_nat cpu)"
    unfolding six by (rule tss_loop_nth(1) [OF _ assms]) (simp add: length_gdt_entries)
  show "task_descriptor (tss_at + TSS_SIZE * of_nat cpu) (TSS_SIZE - 1) (tss_table tss_at ! (5 + 2 * cpu), tss_table tss_at ! (6 + 2 * cpu))"
    unfolding e by (rule tss_entry_decodes) simp
  have "tss_table tss_at ! (6 + 2 * cpu) = snd (tss_entry (TSS_SIZE - 1) (tss_at + TSS_SIZE * of_nat cpu))"
    by (simp only: e [symmetric] snd_conv)
  then show "\<not> bit (tss_table tss_at ! (6 + 2 * cpu)) 47" "bf_get 40 5 (tss_table tss_at ! (6 + 2 * cpu)) = 0"
    by (simp_all add: tss_entry_def Let_def bit_bf_set bf_simps)
qed

lemma gdt64_init_eq:
  assumes "gdt_table s = gdt_entries"
  shows "gdt64_init gdt_at tss_at s = s\<lparr>gdt_table := tss_table tss_at, gdtr := (1063, gdt_at)\<rparr>"
  by (simp add: gdt64_init_def load_gdt_def initialize_tss_entries_def assms length_gdt_entries)

text \<open>
  C34 (descriptor tables). After the initialisation each processor's task descriptor, two entries wide,
  describes that processor's task state segment and nothing else, the selectors the monitor loads
  name the segments they are meant to, the kernel's in ring 0 and the user's in ring 3, and the
  register covers the whole table.
\<close>

theorem gdt_describes:
  assumes "gdt_table s = gdt_entries"
  shows "let s' = gdt64_init gdt_at tss_at s; g = gdt_table s' in
    (\<forall>cpu < MAX_NR_CPUS. task_descriptor (tss_at + TSS_SIZE * of_nat cpu) (TSS_SIZE - 1) (g ! (5 + 2 * cpu), g ! (6 + 2 * cpu))) \<and>
    selector_entry TSS0_SELECTOR = 5 \<and>
    code64 0 (g ! selector_entry KERNEL_CODE_SELECTOR) \<and> data_segment 0 (g ! selector_entry KERNEL_DATA_SELECTOR) \<and>
    code64 3 (g ! selector_entry USER_CODE_SELECTOR) \<and> data_segment 3 (g ! selector_entry USER_DATA_SELECTOR) \<and>
    unat (fst (gdtr s')) + 1 = 8 * length g \<and> snd (gdtr s') = gdt_at"
proof -
  have "tss_table tss_at ! j = gdt_entries ! j" if "j < 5" for j
    by (rule tss_loop_nth(2) [OF _ that]) (simp add: length_gdt_entries)
  then have "code64 0 (tss_table tss_at ! 1)" "data_segment 0 (tss_table tss_at ! 2)"
    "code64 3 (tss_table tss_at ! 3)" "data_segment 3 (tss_table tss_at ! 4)"
    by (auto simp: gdt_entries_def code64_def data_segment_def flat_segment_def pack_gdt_entry_def bit_bf_set bf_simps)
  then show ?thesis using tss_table_entry(1)
    by (simp add: Let_def gdt64_init_eq [OF assms] selector_entry_def length_gdt_entries)
qed

lemma task_selector_index:
  assumes "cpu < MAX_NR_CPUS"
  shows "selector_entry (of_int (push_bit 3 (5 + int cpu))) = 5 + cpu"
proof -
  have "of_int (push_bit 3 (5 + int cpu)) = (of_nat (8 * (5 + cpu)) :: u64)" by (simp add: push_bit_eq_mult)
  moreover have "unat (of_nat (8 * (5 + cpu)) :: u64) = 8 * (5 + cpu)" using assms by (subst unat_of_nat_u64) simp_all
  ultimately show ?thesis by (simp only: selector_entry_def unat_drop_bit_div) simp
qed

lemma load_pl0_task_law:
  assumes "gdt_table s = gdt_entries" "cpu < MAX_NR_CPUS"
  shows "load_pl0_task (int cpu) (gdt64_init gdt_at tss_at s) =
    (if even cpu
     then Inr ((gdt64_init gdt_at tss_at s)\<lparr>gdt_table := (tss_table tss_at)[5 + cpu := bf_set 40 4 0xb (tss_table tss_at ! (5 + cpu))],
       task_register := of_int (push_bit 3 (5 + int cpu))\<rparr>)
     else Inl Protection_fault)"
proof -
  let ?k = "cpu div 2" and ?g = "tss_table tss_at"
  have k: "?k < MAX_NR_CPUS" using assms(2) by simp
  have i: "unat (drop_bit 3 (of_int (push_bit 3 (5 + int cpu)) :: u64)) = 5 + cpu"
    using task_selector_index [OF assms(2)] by (simp add: selector_entry_def)
  have "5 + cpu = 6 + 2 * ?k" if "odd cpu" using that odd_two_times_div_two_succ [of cpu] by linarith
  then have "\<not> bit (?g ! (5 + cpu)) 47" if "odd cpu" using tss_table_entry(2) [OF k] that by metis
  moreover have "5 + cpu = 5 + 2 * ?k" "6 + cpu = 6 + 2 * ?k" if "even cpu" using that by simp_all
  then have "task_descriptor (tss_at + TSS_SIZE * of_nat ?k) (TSS_SIZE - 1) (?g ! (5 + cpu), ?g ! (6 + cpu))"
    "bf_get 40 5 (?g ! (6 + cpu)) = 0" if "even cpu"
    using tss_table_entry(1,3) [OF k, of tss_at] that by metis+
  ultimately show ?thesis using assms(2)
    by (auto simp: load_pl0_task_def ltr_def Let_def i gdt64_init_eq [OF assms(1)] length_gdt_entries task_descriptor_def)
qed

lemma busy_descriptor:
  assumes "task_descriptor addr limit (lo, hi)"
  shows "seg_limit (bf_set 40 4 0xb lo) = limit" "seg_base (bf_set 40 4 0xb lo) OR push_bit 32 (bf_get 0 32 hi) = addr"
    "bf_get 40 4 (bf_set 40 4 0xb lo) = 0xb" "bit (bf_set 40 4 0xb lo) 47"
  using assms by (auto simp: task_descriptor_def seg_limit_def seg_base_def bf_simps bit_bf_set)

text \<open>
  C40 (task selector). The selector a processor loads into its task register counts its task descriptors
  as one entry each: processor 0 gets its own, an even processor gets that of half its number, which
  becomes busy, and for an odd processor the selector names the upper half of a descriptor, which the
  processor rejects with an exception.
\<close>

theorem task_selector_wrong:
  assumes "gdt_table s = gdt_entries" "cpu < MAX_NR_CPUS"
  shows "(odd cpu \<longrightarrow> load_pl0_task (int cpu) (gdt64_init gdt_at tss_at s) = Inl Protection_fault) \<and>
    (even cpu \<longrightarrow> (\<exists>s'. load_pl0_task (int cpu) (gdt64_init gdt_at tss_at s) = Inr s' \<and>
       selector_entry (task_register s') = 5 + cpu \<and> bf_get 40 4 (gdt_table s' ! (5 + cpu)) = 0xb \<and>
       seg_limit (gdt_table s' ! (5 + cpu)) = TSS_SIZE - 1 \<and>
       seg_base (gdt_table s' ! (5 + cpu)) OR push_bit 32 (bf_get 0 32 (gdt_table s' ! (6 + cpu))) =
         tss_at + TSS_SIZE * of_nat (cpu div 2)))"
proof -
  let ?k = "cpu div 2" and ?g = "tss_table tss_at"
  have k: "?k < MAX_NR_CPUS" using assms(2) by simp
  have "5 + cpu = 5 + 2 * ?k" "6 + cpu = 6 + 2 * ?k" if "even cpu" using that by simp_all
  then have d: "task_descriptor (tss_at + TSS_SIZE * of_nat ?k) (TSS_SIZE - 1) (?g ! (5 + cpu), ?g ! (6 + cpu))" if "even cpu"
    using tss_table_entry(1) [OF k, of tss_at] that by metis
  show ?thesis
    using load_pl0_task_law [OF assms, of gdt_at tss_at] busy_descriptor [OF d] task_selector_index [OF assms(2)] assms(2)
    by (simp add: length_gdt_entries)
qed

text \<open>A concrete state, before the tables are filled.\<close>

definition sample_descriptors :: descriptor_state where
  "sample_descriptors = \<lparr>gdt_table = gdt_entries, gdtr = (0, 0), task_register = 0, tss_base = []\<rparr>"

theorem gdt_describes_witness:
  "code64 0 (gdt_table (gdt64_init 0x100000 0x200000 sample_descriptors) ! 1) \<and>
   task_descriptor (0x200000 + TSS_SIZE * 3) 103
     (gdt_table (gdt64_init 0x100000 0x200000 sample_descriptors) ! 11, gdt_table (gdt64_init 0x100000 0x200000 sample_descriptors) ! 12)"
proof -
  have "gdt_table sample_descriptors = gdt_entries" by (simp add: sample_descriptors_def)
  note d = gdt_describes [OF this, of "0x100000" "0x200000", unfolded Let_def]
  have "code64 0 (gdt_table (gdt64_init 0x100000 0x200000 sample_descriptors) ! selector_entry KERNEL_CODE_SELECTOR)" using d by blast
  moreover have "selector_entry KERNEL_CODE_SELECTOR = 1" by (simp add: selector_entry_def)
  moreover have "task_descriptor (0x200000 + TSS_SIZE * of_nat 3) (TSS_SIZE - 1)
     (gdt_table (gdt64_init 0x100000 0x200000 sample_descriptors) ! (5 + 2 * 3), gdt_table (gdt64_init 0x100000 0x200000 sample_descriptors) ! (6 + 2 * 3))"
    using d by (elim conjE allE [of _ 3]) simp
  ultimately show ?thesis by simp
qed

theorem task_selector_wrong_witness:
  "load_pl0_task (int 1) (gdt64_init 0x100000 0x200000 sample_descriptors) = Inl Protection_fault \<and>
   (\<exists>s'. load_pl0_task (int 2) (gdt64_init 0x100000 0x200000 sample_descriptors) = Inr s' \<and>
     seg_base (gdt_table s' ! 7) OR push_bit 32 (bf_get 0 32 (gdt_table s' ! 8)) = 0x200068)"
proof -
  have s: "gdt_table sample_descriptors = gdt_entries" by (simp add: sample_descriptors_def)
  have "odd (1 :: nat)" "even (2 :: nat)" by simp_all
  with task_selector_wrong [OF s, of 1 "0x100000" "0x200000"] task_selector_wrong [OF s, of 2 "0x100000" "0x200000"]
  show ?thesis by auto
qed

end
