(* ===== verification/Interrupts.thy ===== *)
theory Interrupts
  imports Apic Descriptors
begin

text \<open>
  Interrupts of the host: the gates, the table of handlers and the dispatch of \<open>x86_64/interrupt.c\<close>, with
  the two handlers the host installs, \<open>init/lapic_timer.c\<close> and \<open>device/keyboard.c\<close>.  The entry code of the
  256 vectors is assembly and enters as the addresses of its symbols.
\<close>

section \<open>Handlers\<close>

abbreviation KEYBOARD_DATA_PORT :: u16 where "KEYBOARD_DATA_PORT \<equiv> 0x60"

datatype int_handler =
    Local_apic_timer
  | Keyboard_device_interrupt_handler

record interrupt_state =
  handlers :: "int_handler option list"
  interrupt_desc_table :: "(u64 \<times> u64) list"
  idt :: "u16 \<times> u64"

definition register_interrupt_handler :: "int \<Rightarrow> int_handler \<Rightarrow> interrupt_state \<Rightarrow> interrupt_state result" where
  "register_interrupt_handler vector handler s =
     (if \<not> (0 \<le> vector \<and> vector < 256) then Inl Assertion_failed
      else Inr (s\<lparr>handlers := (handlers s)[nat vector := Some handler]\<rparr>))"

partial_function (option) retrieve_scancode :: "platform \<Rightarrow> history \<Rightarrow> (u8 \<times> history) option" where
  "retrieve_scancode p h = (case inb p KEYBOARD_DATA_PORT h of (code, h) \<Rightarrow> if code \<noteq> 0 then Some (code, h) else retrieve_scancode p h)"

definition keyboard_device_interrupt_handler :: "platform \<Rightarrow> u64 \<Rightarrow> history \<Rightarrow> (u64 \<times> history) result" where
  "keyboard_device_interrupt_handler p cpu_state h =
     (case retrieve_scancode p h of None \<Rightarrow> Inl Not_returned | Some (scancode, h) \<Rightarrow> Inr (cpu_state, h))"

definition local_apic_timer :: "u64 \<Rightarrow> history \<Rightarrow> (u64 \<times> history) result" where
  "local_apic_timer cpu_state h = Inr (cpu_state, h)"

fun run_handler :: "platform \<Rightarrow> int_handler \<Rightarrow> u64 \<Rightarrow> history \<Rightarrow> (u64 \<times> history) result" where
  "run_handler p Local_apic_timer c h = local_apic_timer c h"
| "run_handler p Keyboard_device_interrupt_handler c h = keyboard_device_interrupt_handler p c h"

text \<open>The table is read at the vector before the vector is checked.\<close>

definition interrupt_handler :: "platform \<Rightarrow> u64 \<Rightarrow> u64 \<Rightarrow> interrupt_state \<Rightarrow> history \<Rightarrow> (u64 \<times> history) result" where
  "interrupt_handler p cpu_state vector s h =
     (if \<not> unat vector < length (handlers s) then Inl Wild_access
      else let handler = handlers s ! unat vector in
        if \<not> vector < 256 then Inl Assertion_failed
        else bind_result
          (case handler of Some f \<Rightarrow> run_handler p f cpu_state h | None \<Rightarrow> Inr (cpu_state, h))
          (\<lambda>(rsp, h). Inr (rsp, acknowledge_interrupt p h)))"

section \<open>Tables\<close>

definition load_idt :: "u64 \<Rightarrow> interrupt_state \<Rightarrow> interrupt_state" where
  "load_idt table_addr s = s\<lparr>idt := (of_nat (16 * 256 - 1), table_addr)\<rparr>"

definition interrupt_init :: "(nat \<Rightarrow> u64) \<Rightarrow> u64 \<Rightarrow> interrupt_state \<Rightarrow> interrupt_state" where
  "interrupt_init isr table_addr s =
     load_idt table_addr (s\<lparr>handlers := replicate 256 None,
       interrupt_desc_table := fold (\<lambda>v. set_pl0_interrupt_gate v (isr v)) [0..<256] (interrupt_desc_table s)\<rparr>)"

definition interrupt_ap_init :: "u64 \<Rightarrow> interrupt_state \<Rightarrow> interrupt_state" where
  "interrupt_ap_init table_addr s = load_idt table_addr s"

definition lapic_timer_init :: "interrupt_state \<Rightarrow> interrupt_state result" where
  "lapic_timer_init s = register_interrupt_handler (uint (IRQ_BASE + IRQ_TIMER)) Local_apic_timer s"

definition keyboard_init :: "interrupt_state \<Rightarrow> history \<Rightarrow> (interrupt_state \<times> history) result" where
  "keyboard_init s h =
     bind_result (register_interrupt_handler 33 Keyboard_device_interrupt_handler s) (\<lambda>s.
     Inr (s, ioapic_redirect_entry 1 0 h))"

section \<open>Properties\<close>

lemma gates_eq:
  "fold (\<lambda>v. set_pl0_interrupt_gate v (isr v)) [0..<n] t = fold (\<lambda>v t. t[v := interrupt_gate (0, 0) KERNEL_CODE_SELECTOR (isr v)]) [0..<n] t"
  by (rule fold_cong) (simp_all add: set_pl0_interrupt_gate_def fun_eq_iff)

lemmas length_gates = fold_update(1) [of "\<lambda>v. interrupt_gate (0, 0) KERNEL_CODE_SELECTOR (isr v)" for isr, folded gates_eq]
  and gates_nth = fold_update(2) [of _ _ _ "\<lambda>v. interrupt_gate (0, 0) KERNEL_CODE_SELECTOR (isr v)" for isr, folded gates_eq]

text \<open>The interrupt state after the whole initialisation: every gate, the register and the two handlers.\<close>

definition interrupts_wired :: "(nat \<Rightarrow> u64) \<Rightarrow> u64 \<Rightarrow> interrupt_state \<Rightarrow> bool" where
  "interrupts_wired isr table_addr s \<longleftrightarrow>
     length (interrupt_desc_table s) = 256 \<and>
     (\<forall>v < 256. interrupt_gate_to KERNEL_CODE_SELECTOR (isr v) (interrupt_desc_table s ! v)) \<and>
     unat (fst (idt s)) + 1 = 16 * length (interrupt_desc_table s) \<and> snd (idt s) = table_addr \<and>
     length (handlers s) = 256 \<and>
     (\<forall>v < 256. handlers s ! v =
        (if v = 32 then Some Local_apic_timer else if v = 33 then Some Keyboard_device_interrupt_handler else None))"

lemma interrupts_wired_init:
  assumes "length (interrupt_desc_table s) = 256"
  shows "\<exists>s1 s2. lapic_timer_init (interrupt_init isr table_addr s) = Inr s1 \<and>
    keyboard_init s1 h = Inr (s2, ioapic_redirect_entry 1 0 h) \<and> interrupts_wired isr table_addr s2"
  using gates_nth [of 256 "interrupt_desc_table s"] assms interrupt_gate_decodes [of KERNEL_CODE_SELECTOR "(0, 0)"]
  by (simp add: lapic_timer_init_def keyboard_init_def register_interrupt_handler_def interrupt_init_def load_idt_def
      interrupts_wired_def nth_list_update length_gates)

text \<open>The keyboard answers with a scan code when it is read often enough.\<close>

definition keyboard_answers :: "platform \<Rightarrow> bool" where
  "keyboard_answers p \<longleftrightarrow> (\<forall>h. \<exists>n. port_value p (replicate n (In8 KEYBOARD_DATA_PORT) @ h) KEYBOARD_DATA_PORT \<noteq> 0)"

lemma retrieve_scancode_ok:
  assumes "port_value p (replicate n (In8 KEYBOARD_DATA_PORT) @ h) KEYBOARD_DATA_PORT \<noteq> 0"
  shows "\<exists>m code. retrieve_scancode p h = Some (code, replicate (Suc m) (In8 KEYBOARD_DATA_PORT) @ h) \<and> code \<noteq> 0"
  using assms
proof (induction n arbitrary: h)
  case 0
  then show ?case by (intro exI [of _ "0 :: nat"] exI [of _ "port_value p h KEYBOARD_DATA_PORT"]) (simp add: retrieve_scancode.simps [of p h] inb_def)
next
  case (Suc n)
  let ?r = "In8 KEYBOARD_DATA_PORT"
  show ?case
  proof (cases "port_value p h KEYBOARD_DATA_PORT = 0")
    case False
    then show ?thesis by (intro exI [of _ "0 :: nat"] exI [of _ "port_value p h KEYBOARD_DATA_PORT"]) (simp add: retrieve_scancode.simps [of p h] inb_def)
  next
    case True
    have shift: "replicate k ?r @ ?r # h = ?r # replicate k ?r @ h" for k by (induction k) simp_all
    with Suc.prems have "port_value p (replicate n ?r @ ?r # h) KEYBOARD_DATA_PORT \<noteq> 0" by (simp add: shift)
    from Suc.IH [OF this] obtain m code where "retrieve_scancode p (?r # h) = Some (code, replicate (Suc m) ?r @ ?r # h)" "code \<noteq> 0" by blast
    with True show ?thesis
      by (intro exI [of _ "Suc m"] exI [of _ code]) (simp add: retrieve_scancode.simps [of p h] inb_def shift)
  qed
qed

text \<open>
  C18 (dispatch). For every vector the interrupt handler returns the state it was called with, and the
  interrupt is acknowledged exactly once, after the handler has run; only the keyboard's vector reads
  the keyboard.  A vector outside the table is an access outside it.
\<close>

theorem interrupt_dispatched:
  assumes "interrupts_wired isr table_addr s" "keyboard_answers p"
  shows "if vector < 256
    then \<exists>reads. interrupt_handler p cpu_state vector s h =
        Inr (cpu_state, [Load32 APIC_ID_REGISTER, Store32 APIC_EOI_REGISTER 0] @ replicate reads (In8 KEYBOARD_DATA_PORT) @ h) \<and>
      (reads > 0 \<longleftrightarrow> vector = 33)
    else interrupt_handler p cpu_state vector s h = Inl Wild_access"
proof (cases "vector < 256")
  case False
  then show ?thesis using assms(1) by (simp add: interrupt_handler_def interrupts_wired_def word_less_nat_alt)
next
  case True
  then have v: "unat vector < 256" by (simp add: word_less_nat_alt)
  have eq: "unat vector = 33 \<longleftrightarrow> vector = 33" "unat vector = 32 \<longleftrightarrow> vector = 32" by (simp_all add: u64_eq_iff)
  have h: "handlers s ! unat vector = (if vector = 32 then Some Local_apic_timer
      else if vector = 33 then Some Keyboard_device_interrupt_handler else None)" "length (handlers s) = 256"
    using assms(1) v eq by (simp_all add: interrupts_wired_def)
  have ack: "acknowledge_interrupt p g = Load32 APIC_ID_REGISTER # Store32 APIC_EOI_REGISTER 0 # g" for g
    by (simp add: acknowledge_interrupt_def lapic_write_def lapic_read_def)
  have "\<exists>n. port_value p (replicate n (In8 KEYBOARD_DATA_PORT) @ h) KEYBOARD_DATA_PORT \<noteq> 0"
    using assms(2) by (simp add: keyboard_answers_def)
  then obtain m code where k: "retrieve_scancode p h = Some (code, replicate (Suc m) (In8 KEYBOARD_DATA_PORT) @ h)"
    using retrieve_scancode_ok by blast
  have "interrupt_handler p cpu_state vector s h =
      Inr (cpu_state, [Load32 APIC_ID_REGISTER, Store32 APIC_EOI_REGISTER 0] @
        replicate (if vector = 33 then Suc m else 0) (In8 KEYBOARD_DATA_PORT) @ h)"
    using h k True v by (simp add: interrupt_handler_def keyboard_device_interrupt_handler_def local_apic_timer_def ack)
  then show ?thesis unfolding if_P [OF True] by (intro exI conjI) (assumption, simp)
qed

text \<open>Concrete tables, and a keyboard that answers at once.\<close>

definition sample_interrupts :: interrupt_state where
  "sample_interrupts = \<lparr>handlers = [], interrupt_desc_table = replicate 256 (0, 0), idt = (0, 0)\<rparr>"

lemma sample_keyboard_answers: "keyboard_answers (sample_platform\<lparr>port_value := \<lambda>_ _. 0x1e\<rparr>)"
  by (simp add: keyboard_answers_def)

theorem interrupt_dispatched_witness:
  "\<exists>s. interrupts_wired (\<lambda>v. 0x100000 + 16 * of_nat v) 0x200000 s \<and>
     (\<exists>n > 0. interrupt_handler (sample_platform\<lparr>port_value := \<lambda>_ _. 0x1e\<rparr>) 0x9000 33 s [] =
        Inr (0x9000, [Load32 APIC_ID_REGISTER, Store32 APIC_EOI_REGISTER 0] @ replicate n (In8 KEYBOARD_DATA_PORT)))"
proof -
  have "length (interrupt_desc_table sample_interrupts) = 256" by (simp add: sample_interrupts_def)
  from interrupts_wired_init [OF this] obtain s where s: "interrupts_wired (\<lambda>v. 0x100000 + 16 * of_nat v) 0x200000 s" by blast
  from interrupt_dispatched [OF this sample_keyboard_answers, of 33 "0x9000" "[]"] s show ?thesis by auto
qed

end
