(* ===== verification/Local_Storage.thy ===== *)
theory Local_Storage
  imports Zelda_Prelude
begin

text \<open>
  Storage local to a processor: \<open>x86_64/processor_local_storage.c\<close>.  The base of the segment register
  \<open>gs\<close> of a processor is the offset of its area, so a read relative to it at the start of the table
  gives the first word of the processor's own area.  The processor is named by the number \<open>cpu()\<close>
  returns on it.
\<close>

abbreviation CPU_LOCAL_STORAGE_MAGIC :: u32 where "CPU_LOCAL_STORAGE_MAGIC \<equiv> 0xdeadbeef"

record cpu_local_area =
  processor_index :: u16
  magic_number :: u32
  tss_selector :: u16

record local_state =
  pls_blob :: "cpu_local_area list"
  gs_base :: "u32 \<Rightarrow> u64"
  kernel_gs_base :: "u32 \<Rightarrow> u64"

definition sizeof_cpu_local_area :: u64 where
  "sizeof_cpu_local_area = 4096"

definition zero_area :: cpu_local_area where
  "zero_area = \<lparr>processor_index = 0, magic_number = 0, tss_selector = 0\<rparr>"

definition processor_local_storage_pre_init :: "local_state \<Rightarrow> local_state" where
  "processor_local_storage_pre_init s = s\<lparr>pls_blob := replicate 64 zero_area\<rparr>"

text \<open>The lower half written to the register is the product in 32 bits, the upper half is zero.\<close>

definition processor_local_indicator_init :: "u32 \<Rightarrow> local_state \<Rightarrow> local_state" where
  "processor_local_indicator_init this_cpu s =
     (let base = ucast (ucast (ucast this_cpu * sizeof_cpu_local_area) :: u32)
      in s\<lparr>gs_base := (gs_base s)(this_cpu := base), kernel_gs_base := (kernel_gs_base s)(this_cpu := base)\<rparr>)"

text \<open>The position in the table of the area found; the word read is the first of the area \<open>gs\<close> points at.\<close>

definition get_cpu_local_area :: "u32 \<Rightarrow> local_state \<Rightarrow> nat result" where
  "get_cpu_local_area this_cpu s =
     (let i = unat (gs_base s this_cpu) div unat sizeof_cpu_local_area in
      if unat (gs_base s this_cpu) mod unat sizeof_cpu_local_area \<noteq> 0 \<or> \<not> i < length (pls_blob s) then Inl Wild_access
      else let index = unat (processor_index (pls_blob s ! i)) in
        if \<not> index < 64 then Inl Assertion_failed else Inr index)"

definition cpuid :: "u32 \<Rightarrow> local_state \<Rightarrow> int result" where
  "cpuid this_cpu s =
     bind_result (get_cpu_local_area this_cpu s) (\<lambda>i.
     if magic_number (pls_blob s ! i) \<noteq> CPU_LOCAL_STORAGE_MAGIC then Inr (sint this_cpu)
     else bind_result (get_cpu_local_area this_cpu s) (\<lambda>i. Inr (uint (processor_index (pls_blob s ! i)))))"

definition processor_local_storage_init :: "u32 \<Rightarrow> local_state \<Rightarrow> local_state result" where
  "processor_local_storage_init this_cpu s =
     (let s = processor_local_indicator_init this_cpu s in
      if \<not> unat this_cpu < length (pls_blob s) then Inl Wild_access
      else Inr (s\<lparr>pls_blob := (pls_blob s)[unat this_cpu := (pls_blob s ! unat this_cpu)
        \<lparr>processor_index := ucast this_cpu, magic_number := CPU_LOCAL_STORAGE_MAGIC\<rparr>]\<rparr>))"

definition processor_local_storage_ap_init :: "u32 \<Rightarrow> local_state \<Rightarrow> local_state result" where
  "processor_local_storage_ap_init this_cpu s =
     bind_result (processor_local_storage_init this_cpu s) (\<lambda>s.
     bind_result (get_cpu_local_area this_cpu s) (\<lambda>i.
     if \<not> uint (processor_index (pls_blob s ! i)) = sint this_cpu then Inl Assertion_failed
     else if i \<noteq> unat this_cpu then Inl Assertion_failed
     else Inr s))"

section \<open>Every processor finds its own area\<close>

fun start_processors :: "u32 list \<Rightarrow> local_state \<Rightarrow> local_state result" where
  "start_processors [] s = Inr s"
| "start_processors (c # cs) s = bind_result (processor_local_storage_ap_init c s) (start_processors cs)"

definition owns_area :: "local_state \<Rightarrow> u32 \<Rightarrow> bool" where
  "owns_area s c \<longleftrightarrow> unat c < 64 \<and> gs_base s c = ucast c * sizeof_cpu_local_area \<and>
     processor_index (pls_blob s ! unat c) = ucast c \<and> magic_number (pls_blob s ! unat c) = CPU_LOCAL_STORAGE_MAGIC"

lemma area_offset:
  fixes c :: u32
  assumes "unat c < 64"
  shows "unat (ucast c * sizeof_cpu_local_area) = 4096 * unat c"
    "ucast (ucast (ucast c * sizeof_cpu_local_area) :: u32) = ucast c * sizeof_cpu_local_area"
    "unat (ucast c :: u16) = unat c" "sint c = uint c" "uint (ucast c :: u16) = uint c"
proof -
  have u: "unat (ucast c :: u64) = unat c" using assms by (simp add: unsigned_ucast_eq take_bit_nat_eq_self)
  show 1: "unat (ucast c * sizeof_cpu_local_area) = 4096 * unat c"
    using assms by (simp add: sizeof_cpu_local_area_def unat_word_ariths u)
  show "ucast (ucast (ucast c * sizeof_cpu_local_area) :: u32) = ucast c * sizeof_cpu_local_area"
    using assms by (simp add: u64_eq_iff unsigned_ucast_eq unsigned_take_bit_eq 1 take_bit_nat_eq_self)
  show "unat (ucast c :: u16) = unat c" using assms by (simp add: unsigned_ucast_eq take_bit_nat_eq_self)
  have b: "0 \<le> uint c" "uint c < 64" using assms uint_nat [of c] by linarith+
  have p: "(2 :: int) ^ 31 = 2147483648" by simp
  have "sint c = signed_take_bit 31 (uint c)" by (simp only: sint_uint) simp
  also have "\<dots> = uint c" by (rule signed_take_bit_int_eq_self) (use b p in linarith)+
  finally show "sint c = uint c" .
  show "uint (ucast c :: u16) = uint c" using b by (simp add: unsigned_ucast_eq take_bit_int_eq_self)
qed

lemma owns_area_lookup:
  assumes "owns_area s c" "length (pls_blob s) = 64"
  shows "get_cpu_local_area c s = Inr (unat c)" "cpuid c s = Inr (uint c)"
proof -
  have c: "unat c < 64" using assms by (simp add: owns_area_def)
  show g: "get_cpu_local_area c s = Inr (unat c)"
    using assms c by (simp add: get_cpu_local_area_def owns_area_def area_offset [OF c] Let_def) (simp add: sizeof_cpu_local_area_def area_offset [OF c])
  show "cpuid c s = Inr (uint c)" using assms by (simp add: cpuid_def g owns_area_def area_offset [OF c])
qed

lemma storage_init_ok:
  assumes "length (pls_blob s) = 64" "unat c < 64"
  obtains s' where "processor_local_storage_init c s = Inr s'" "length (pls_blob s') = 64" "owns_area s' c"
    "\<forall>d. d \<noteq> c \<longrightarrow> owns_area s' d = owns_area s d"
proof -
  let ?a = "(pls_blob s ! unat c)\<lparr>processor_index := ucast c, magic_number := CPU_LOCAL_STORAGE_MAGIC\<rparr>"
  let ?base = "ucast c * sizeof_cpu_local_area"
  let ?s' = "s\<lparr>pls_blob := (pls_blob s)[unat c := ?a], gs_base := (gs_base s)(c := ?base),
    kernel_gs_base := (kernel_gs_base s)(c := ?base)\<rparr>"
  have i: "processor_local_storage_init c s = Inr ?s'"
    unfolding processor_local_storage_init_def processor_local_indicator_init_def Let_def area_offset(2) [OF assms(2)]
    using assms by simp
  have own: "owns_area ?s' c" "length (pls_blob ?s') = 64" using assms by (simp_all add: owns_area_def)
  have ne: "unat c \<noteq> unat d" if "d \<noteq> c" for d using that word_unat_eq_iff [of c d] by blast
  have "\<forall>d. d \<noteq> c \<longrightarrow> owns_area ?s' d = owns_area s d" by (simp add: owns_area_def ne)
  with i own(2,1) show thesis by (rule that)
qed

lemma start_one:
  assumes "length (pls_blob s) = 64" "unat c < 64"
  obtains s' where "processor_local_storage_ap_init c s = Inr s'" "length (pls_blob s') = 64" "owns_area s' c"
    "\<forall>d. d \<noteq> c \<longrightarrow> owns_area s' d = owns_area s d"
proof -
  from storage_init_ok [OF assms] obtain s' where i: "processor_local_storage_init c s = Inr s'"
    and own: "length (pls_blob s') = 64" "owns_area s' c" "\<forall>d. d \<noteq> c \<longrightarrow> owns_area s' d = owns_area s d" .
  have "processor_index (pls_blob s' ! unat c) = ucast c" using own(2) by (simp add: owns_area_def)
  then have "processor_local_storage_ap_init c s = Inr s'"
    using owns_area_lookup(1) [OF own(2,1)]
    by (simp add: processor_local_storage_ap_init_def i area_offset(3-5) [OF assms(2)])
  then show thesis using own by (rule that)
qed

text \<open>
  C24 (areas of the processors). Whatever the order in which the processors are started, every start
  succeeds, and afterwards each processor finds its own area, and no other's, and reads its own number
  from it.
\<close>

theorem processors_find_their_areas:
  assumes "\<forall>c \<in> set cs. unat c < 64"
  shows "\<exists>s'. start_processors cs (processor_local_storage_pre_init s) = Inr s' \<and>
    (\<forall>c \<in> set cs. get_cpu_local_area c s' = Inr (unat c) \<and> cpuid c s' = Inr (uint c))"
proof -
  have "\<exists>s'. start_processors cs t = Inr s' \<and> length (pls_blob s') = 64 \<and> (\<forall>c. c \<in> set cs \<or> owns_area t c \<longrightarrow> owns_area s' c)"
    if "length (pls_blob t) = 64" for t using assms that
  proof (induction cs arbitrary: t)
    case (Cons c cs)
    have "unat c < 64" using Cons.prems(1) by (rule bspec) simp
    from start_one [OF Cons.prems(2) this] obtain t1 where t1: "processor_local_storage_ap_init c t = Inr t1"
      "length (pls_blob t1) = 64" "owns_area t1 c" "\<forall>d. d \<noteq> c \<longrightarrow> owns_area t1 d = owns_area t d" .
    have "\<forall>c \<in> set cs. unat c < 64" using Cons.prems(1) by simp
    from Cons.IH [OF this t1(2)] obtain s' where s': "start_processors cs t1 = Inr s'" "length (pls_blob s') = 64"
      "\<forall>c. c \<in> set cs \<or> owns_area t1 c \<longrightarrow> owns_area s' c" by blast
    then show ?case using t1 by (intro exI [of _ s']) auto
  qed simp
  from this [of "processor_local_storage_pre_init s"] show ?thesis
    using owns_area_lookup by (fastforce simp: processor_local_storage_pre_init_def)
qed

text \<open>
  C38 (a processor before its start). A processor whose segment base is still zero takes the area of
  processor 0 for its own: once that processor has been started, the number it reads for itself is 0.
\<close>

theorem unstarted_processor_reads_zero:
  assumes "owns_area s 0" "length (pls_blob s) = 64" "gs_base s c = 0"
  shows "get_cpu_local_area c s = Inr 0 \<and> cpuid c s = Inr 0"
  using assms by (simp add: get_cpu_local_area_def cpuid_def owns_area_def Let_def)

text \<open>Concrete states.\<close>

definition sample_local :: local_state where
  "sample_local = \<lparr>pls_blob = [], gs_base = \<lambda>_. 0, kernel_gs_base = \<lambda>_. 0\<rparr>"

theorem processors_find_their_areas_witness:
  "\<exists>s'. start_processors [0, 5, 3] (processor_local_storage_pre_init sample_local) = Inr s' \<and>
     get_cpu_local_area 5 s' = Inr 5 \<and> cpuid 3 s' = Inr 3"
proof -
  have "\<forall>c \<in> set [0, 5, 3 :: u32]. unat c < 64" by simp
  from processors_find_their_areas [OF this, of sample_local] show ?thesis by auto
qed

theorem unstarted_processor_reads_zero_witness:
  "\<exists>s. processor_local_storage_init 0 (processor_local_storage_pre_init sample_local) = Inr s \<and> cpuid 5 s = Inr 0"
proof -
  let ?s = "\<lparr>pls_blob = (replicate 64 zero_area)[0 := \<lparr>processor_index = 0, magic_number = CPU_LOCAL_STORAGE_MAGIC, tss_selector = 0\<rparr>],
    gs_base = (\<lambda>_. 0)(0 := 0), kernel_gs_base = (\<lambda>_. 0)(0 := 0)\<rparr>"
  have "processor_local_storage_init 0 (processor_local_storage_pre_init sample_local) = Inr ?s"
    by (simp add: processor_local_storage_init_def processor_local_storage_pre_init_def processor_local_indicator_init_def
        sample_local_def zero_area_def Let_def del: fun_upd_triv fun_upd_apply)
  moreover have "owns_area ?s 0" "length (pls_blob ?s) = 64" "gs_base ?s 5 = 0" by (simp_all add: owns_area_def)
  then have "cpuid 5 ?s = Inr 0" using unstarted_processor_reads_zero [of ?s 5] by blast
  ultimately show ?thesis by blast
qed

end
