(* ===== verification/Ept.thy ===== *)
theory Ept
  imports Identity_Map
begin

text \<open>
  The extended page tables of the monitor, \<open>vm_monitor/vmx_ept.c\<close>: four levels of tables that map
  guest-physical to host-physical pages.  The entry formats are those of
  \<open>vm_monitor/include/vmx_ept.h\<close>; a table is reached when an entry grants read or write access.  The
  proofs reuse the radix-table interface, interpreted as \<open>ept\<close>.
\<close>

section \<open>Entries\<close>

definition ept_read_access :: "u64 \<Rightarrow> bool" where "ept_read_access e \<longleftrightarrow> bf_get 0 1 e \<noteq> 0"
definition ept_write_access :: "u64 \<Rightarrow> bool" where "ept_write_access e \<longleftrightarrow> bf_get 1 1 e \<noteq> 0"
definition ept_addr :: "u64 \<Rightarrow> u64" where "ept_addr e = bf_shl 40 12 (bf_get 12 40 e)"

definition ept_present :: "u64 \<Rightarrow> bool" where
  "ept_present e \<longleftrightarrow> ept_read_access e \<or> ept_write_access e"

section \<open>Translation and mapping\<close>

definition guestpa_to_hostpa :: "mem \<Rightarrow> u64 \<Rightarrow> u64 \<Rightarrow> u64" where
  "guestpa_to_hostpa m ept_base guestpa =
     (let q = load64 m;
          pml4e = q (ept_base + 8 * LEVEL_4_INDEX guestpa)
      in if \<not> ept_read_access pml4e \<and> \<not> ept_write_access pml4e then - 1 else
      let pdpe = q (ept_addr pml4e + 8 * LEVEL_3_INDEX guestpa)
      in if \<not> ept_read_access pdpe \<and> \<not> ept_write_access pdpe then - 1 else
      let pde = q (ept_addr pdpe + 8 * LEVEL_2_INDEX guestpa)
      in if \<not> ept_read_access pde \<and> \<not> ept_write_access pde then - 1 else
      let pt = q (ept_addr pde + 8 * LEVEL_1_INDEX guestpa)
      in if \<not> ept_read_access pt \<and> ept_write_access pt then - 1
         else ept_addr pt OR (guestpa AND 0xfff))"

definition write_ept_flags :: "mem \<Rightarrow> u64 \<Rightarrow> u64 \<Rightarrow> mem" where
  "write_ept_flags m a rd =
     set_field (set_field (set_field (set_field m a 0 1 rd) a 1 1 1) a 2 1 1) a 10 1 1"

text \<open>The three blocks that add a table are the same code on three entry types of the same layout.\<close>

definition install_ept_table :: "u64 \<Rightarrow> kstate \<Rightarrow> kstate result" where
  "install_ept_table a s =
     bind_result
       (if \<not> ept_read_access (load64 (kmem s) a) \<and> \<not> ept_write_access (load64 (kmem s) a)
        then let s1 = s\<lparr>kmem := write_ept_flags (memset (kmem s) a 0 8) a 1\<rparr>
             in bind_result (get_physical_page s1) (\<lambda>(p, s2).
                if \<not> (p \<noteq> 0 \<and> pa s2 p = p) then Inl Assertion_failed
                else let m = memset (kmem s2) p 0 PAGE_SIZE_4K
                     in Inr (s2\<lparr>kmem := set_field m a 12 40 (drop_bit 12 p)\<rparr>))
        else Inr s)
       (\<lambda>s'. if ept_read_access (load64 (kmem s') a) \<or> ept_write_access (load64 (kmem s') a)
             then Inr s' else Inl Assertion_failed)"

definition PAGE_SYSTEM_MEMORY :: int where "PAGE_SYSTEM_MEMORY = 0"
definition PAGE_SYSTEM_IOMEMORY :: int where "PAGE_SYSTEM_IOMEMORY = 1"

definition install_ept_page :: "u64 \<Rightarrow> u64 \<Rightarrow> int \<Rightarrow> kstate \<Rightarrow> int \<times> kstate" where
  "install_ept_page a phy_pa backing s =
     (if ept_read_access (load64 (kmem s) a) \<or> ept_write_access (load64 (kmem s) a)
      then (- errno ERROR_DUPLICATION, s)
      else let m = memset (kmem s) a 0 8;
               m' = (if backing = PAGE_SYSTEM_MEMORY
                     then set_field (set_field (set_field (write_ept_flags m a 1) a 6 1 1) a 3 3 6)
                            a 12 40 (drop_bit 12 phy_pa)
                     else if backing = PAGE_SYSTEM_IOMEMORY
                     then set_field (set_field (write_ept_flags m a 0) a 6 1 1) a 3 3 6
                     else m)
           in (errno ERROR_OK, s\<lparr>kmem := m'\<rparr>))"

definition map_ept_page :: "u64 \<Rightarrow> u64 \<Rightarrow> u64 \<Rightarrow> int \<Rightarrow> kstate \<Rightarrow> (int \<times> kstate) result" where
  "map_ept_page base guest_pa phy_pa backing s =
     (let pml4e = base + 8 * LEVEL_4_INDEX guest_pa in
      bind_result (install_ept_table pml4e s) (\<lambda>s1.
      let pdpe = ept_addr (load64 (kmem s1) pml4e) + 8 * LEVEL_3_INDEX guest_pa in
      bind_result (install_ept_table pdpe s1) (\<lambda>s2.
      let pde = ept_addr (load64 (kmem s2) pdpe) + 8 * LEVEL_2_INDEX guest_pa in
      bind_result (install_ept_table pde s2) (\<lambda>s3.
      let pt = ept_addr (load64 (kmem s3) pde) + 8 * LEVEL_1_INDEX guest_pa in
      Inr (install_ept_page pt phy_pa backing s3)))))"

text \<open>
  The loop of \<open>setup_basic_physical_memory\<close> tests \<open>guest_pa <= addr_high\<close>, so it never ends when
  \<open>addr_high\<close> lies in the last page of the address space.
\<close>

partial_function (option) ept_loop :: "u64 \<Rightarrow> u64 \<Rightarrow> u64 \<Rightarrow> kstate \<Rightarrow> kstate result option" where
  "ept_loop base addr_high guest_pa s =
     (if guest_pa \<le> addr_high
      then case bind_result (get_physical_page s) (\<lambda>(p, s1).
             if \<not> (p \<noteq> 0 \<and> pa s1 p = p) then Inl Assertion_failed
             else map_ept_page base guest_pa p PAGE_SYSTEM_MEMORY
                    (s1\<lparr>kmem := memset (kmem s1) p 0 PAGE_SIZE_4K\<rparr>)) of
             Inl e \<Rightarrow> Some (Inl e)
           | Inr (rc, s2) \<Rightarrow> ept_loop base addr_high (guest_pa + PAGE_SIZE_4K) s2
      else Some (Inr s))"

definition setup_basic_physical_memory :: "u64 \<Rightarrow> u64 \<Rightarrow> kstate \<Rightarrow> (u64 \<times> kstate) result" where
  "setup_basic_physical_memory addr_low addr_high s =
     bind_result (get_physical_page s) (\<lambda>(base, s1).
     if \<not> (base \<noteq> 0 \<and> pa s1 base = base) then Inl Assertion_failed
     else case ept_loop base addr_high addr_low (s1\<lparr>kmem := memset (kmem s1) base 0 PAGE_SIZE_4K\<rparr>) of
            None \<Rightarrow> Inl Not_returned
          | Some r \<Rightarrow> bind_result r (\<lambda>s2. Inr (base, s2)))"

definition setup_io_memory :: "u64 \<Rightarrow> u64 \<Rightarrow> kstate \<Rightarrow> kstate result" where
  "setup_io_memory ept_pml4_base guest_physical_page s =
     bind_result (map_ept_page ept_pml4_base guest_physical_page 0 PAGE_SYSTEM_IOMEMORY s) (\<lambda>(rc, s').
     if rc = errno ERROR_OK then Inr s' else Inl Assertion_failed)"

section \<open>The tables as radix tables\<close>

lemma aligned_ept_addr: "aligned 12 (ept_addr e)"
  by (auto simp: aligned_def ept_addr_def bf_shl_def intro!: bit_word_eqI simp: bit_simps)

interpretation ept: radix_tables ept_present ept_addr
  by unfold_locales (simp_all add: ept_present_def ept_read_access_def ept_write_access_def aligned_ept_addr)

abbreviation "ewalk m root p \<equiv> walk ept_present ept_addr (load64 m) root p"
abbreviation "eentry m root p i \<equiv> entry ept_present ept_addr (load64 m) root p i"

definition ept_table_entry :: "u64 \<Rightarrow> u64" where
  "ept_table_entry P = bf_set 12 40 (drop_bit 12 P) (bf_set 10 1 1 (bf_set 2 1 1 (bf_set 1 1 1 (bf_set 0 1 1 0))))"

definition ept_flags :: u64 where
  "ept_flags = bf_set 10 1 1 (bf_set 2 1 1 (bf_set 1 1 1 (bf_set 0 1 1 0)))"

definition ept_page_entry :: "u64 \<Rightarrow> int \<Rightarrow> u64" where
  "ept_page_entry phy backing =
     (if backing = PAGE_SYSTEM_MEMORY
      then bf_set 12 40 (drop_bit 12 phy) (bf_set 3 3 6 (bf_set 6 1 1 (bf_set 10 1 1 (bf_set 2 1 1 (bf_set 1 1 1 (bf_set 0 1 1 0))))))
      else if backing = PAGE_SYSTEM_IOMEMORY
      then bf_set 3 3 6 (bf_set 6 1 1 (bf_set 10 1 1 (bf_set 2 1 1 (bf_set 1 1 1 (bf_set 0 1 0 0)))))
      else 0)"

lemma ept_present_iff: "ept_present e \<longleftrightarrow> bit e 0 \<or> bit e 1"
  by (simp add: ept_present_def ept_read_access_def ept_write_access_def bf_simps)

lemma ept_table_entry_props:
  assumes "aligned 12 P" "unat P < 2 ^ 40"
  shows "ept_present (ept_table_entry P)" "ept_addr (ept_table_entry P) = P"
proof -
  show "ept_present (ept_table_entry P)"
    by (simp add: ept_present_iff ept_table_entry_def bit_bf_set)
  show "ept_addr (ept_table_entry P) = P"
  proof (rule bit_word_eqI)
    fix n
    show "bit (ept_addr (ept_table_entry P)) n = bit P n"
      using aligned_bitD [OF assms(1), of n] bit_below [OF assms(2), of n]
      by (auto simp: ept_addr_def bf_shl_def bit_simps bit_bf_get ept_table_entry_def bit_bf_set)
  qed
qed

lemma ept_page_entry_props:
  shows "ept_present (ept_page_entry phy PAGE_SYSTEM_MEMORY)"
    "ept_read_access (ept_page_entry phy PAGE_SYSTEM_MEMORY)"
    "ept_present (ept_page_entry phy PAGE_SYSTEM_IOMEMORY)"
    "\<not> ept_read_access (ept_page_entry phy PAGE_SYSTEM_IOMEMORY)"
    "aligned 12 phy \<Longrightarrow> ept_addr (ept_page_entry phy PAGE_SYSTEM_MEMORY) = take_bit 40 phy"
proof -
  show "ept_present (ept_page_entry phy PAGE_SYSTEM_MEMORY)"
    "ept_read_access (ept_page_entry phy PAGE_SYSTEM_MEMORY)"
    "ept_present (ept_page_entry phy PAGE_SYSTEM_IOMEMORY)"
    "\<not> ept_read_access (ept_page_entry phy PAGE_SYSTEM_IOMEMORY)"
    by (simp_all add: ept_present_iff ept_read_access_def bf_simps ept_page_entry_def bit_bf_set
      PAGE_SYSTEM_MEMORY_def PAGE_SYSTEM_IOMEMORY_def)
  show "ept_addr (ept_page_entry phy PAGE_SYSTEM_MEMORY) = take_bit 40 phy" if "aligned 12 phy"
    using aligned_bitD [OF that]
    by (auto intro!: bit_word_eqI
      simp: ept_addr_def bf_shl_def bit_simps bit_bf_get ept_page_entry_def bit_bf_set)
qed

lemma install_ept_page_eq:
  "install_ept_page a phy backing s =
     (if ept_present (load64 (kmem s) a) then (- errno ERROR_DUPLICATION, s)
      else (errno ERROR_OK, s\<lparr>kmem := store64 (kmem s) a (ept_page_entry phy backing)\<rparr>))"
  by (simp add: install_ept_page_def Let_def memset_8_eq_store64 write_ept_flags_def ept_page_entry_def
    mem_simps ept_present_def)

text \<open>
  Well-formed extended page tables \<open>T\<close> below \<open>base\<close>, beside the host tables \<open>S\<close>: the sets are
  disjoint, all tables were handed out by the allocator, and memory below 2 GiB is identity mapped
  so that the code may use physical addresses as pointers.
\<close>

definition ewf :: "u64 set \<Rightarrow> u64 set \<Rightarrow> u64 \<Rightarrow> kstate \<Rightarrow> bool" where
  "ewf S T base s \<longleftrightarrow> kwf S s \<and> S \<inter> T = {} \<and>
     wf_tables ept_present ept_addr (load64 (kmem s)) base T \<and>
     (\<forall>t \<in> T. aligned 12 t \<and> unat t + 4096 \<le> unat (current_avail_page s))"

lemma ewf_wf: "ewf S T base s \<Longrightarrow> wf_tables ept_present ept_addr (load64 (kmem s)) base T"
  and ewf_kwf: "ewf S T base s \<Longrightarrow> kwf S s"
  by (simp_all add: ewf_def)

lemma get_physical_page_kmem:
  "get_physical_page (s\<lparr>kmem := m\<rparr>) =
     (case get_physical_page s of Inl e \<Rightarrow> Inl e | Inr (p, s') \<Rightarrow> Inr (p, s'\<lparr>kmem := m\<rparr>))"
  by (simp add: get_physical_page_def get_physical_pages_def Let_def PHYSICAL_PAGE_VALID_def)

lemma ewf_frame_host:
  assumes wf: "ewf S T base s" and un: "untouched T s s'" and b: "pml4_base s' = pml4_base s"
    and pm: "pm_ok s'" and cur: "unat (current_avail_page s) \<le> unat (current_avail_page s')"
  shows "kwf S s'" "pa s' va = pa s va"
proof -
  have "kmem s' x = kmem s x" if x: "pfn x \<in> pfn ` S" for x
  proof -
    have "pfn x \<notin> pfn ` T"
    proof
      assume "pfn x \<in> pfn ` T"
      then obtain u v where uv: "u \<in> S" "v \<in> T" "pfn u = pfn v" using x by force
      then have "aligned 12 u" "aligned 12 v" using wf by (auto simp: ewf_def kwf_def)
      with uv page_eq_iff wf show False by (auto simp: ewf_def)
    qed
    then show ?thesis using un by (simp add: untouched_def)
  qed
  from kwf_frame [OF ewf_kwf [OF wf] this b pm cur] show "kwf S s'" "pa s' va = pa s va" by auto
qed

lemma install_ept_table_fresh:
  assumes wf: "ewf S T base s" and p: "path_ok p" "i < 512" "ewalk (kmem s) base p = Some t"
    and absent: "\<not> ept_present (load64 (kmem s) (t + 8 * i))"
    and g: "get_physical_page s = Inr (P, s1)"
  shows "install_ept_table (t + 8 * i) s =
    (if P \<noteq> 0 \<and> pa s P = P
     then Inr (s1\<lparr>kmem := store64 (memset (kmem s) P 0 4096) (t + 8 * i) (ept_table_entry P)\<rparr>)
     else Inl Assertion_failed)"
proof -
  let ?a = "t + 8 * i"
  have t: "t \<in> T" "aligned 12 t" using ept.wf_walkD [OF ewf_wf [OF wf] p(1,3)] by auto
  have fl: "write_ept_flags (memset (kmem s) ?a 0 8) ?a 1 = store64 (kmem s) ?a ept_flags"
    by (simp add: write_ept_flags_def memset_8_eq_store64 mem_simps ept_flags_def)
  let ?s2 = "s1\<lparr>kmem := store64 (kmem s) ?a ept_flags\<rparr>"
  have g2: "get_physical_page (s\<lparr>kmem := store64 (kmem s) ?a ept_flags\<rparr>) = Inr (P, ?s2)"
    by (simp add: get_physical_page_kmem g)
  have abs: "\<not> ept_read_access (load64 (kmem s) ?a) \<and> \<not> ept_write_access (load64 (kmem s) ?a)"
    using absent by (simp add: ept_present_def)
  show ?thesis
  proof (cases "P = 0")
    case True
    then show ?thesis using abs g2 by (simp add: install_ept_table_def Let_def fl)
  next
    case False
    have pm: "pm_ok s" using wf by (simp add: ewf_def kwf_def)
    note ok = get_physical_page_success [OF pm g False]
    obtain c where c: "s1 = s\<lparr>current_avail_page := c\<rparr>" using ok(2) by blast
    have "untouched T s ?s2" using untouched_store [OF t p(2), of s] by (simp add: untouched_def c)
    from ewf_frame_host(2) [OF wf this] ok have pa: "pa ?s2 va = pa s va" for va
      by (simp add: c pm_ok_def)
    have "P \<noteq> t" using t(1) wf ok(1) by (auto simp: ewf_def)
    then have pf: "pfn ?a \<noteq> pfn P" using ok(4) t p(2) by (simp add: mem_simps page_eq_iff)
    have com: "memset (store64 (kmem s) ?a ept_flags) P 0 4096 = store64 (memset (kmem s) P 0 4096) ?a ept_flags"
      by (rule memset_store64_commute [OF ok(4) _ pf]) (simp add: mem_simps t p(2))
    have P40: "unat P < 2 ^ 40" using ok(6) by simp
    have en: "bf_set 12 40 (drop_bit 12 P) ept_flags = ept_table_entry P" by (simp add: ept_flags_def ept_table_entry_def)
    have pr: "ept_read_access (ept_table_entry P) \<or> ept_write_access (ept_table_entry P)"
      using ept_table_entry_props(1) [OF ok(4) P40] by (simp add: ept_present_def)
    show ?thesis
      using abs g2 False pr by (simp add: install_ept_table_def Let_def fl pa com mem_simps en)
  qed
qed

definition ept_pte :: "mem \<Rightarrow> u64 \<Rightarrow> u64 \<Rightarrow> u64 option" where
  "ept_pte m base g = (case eentry m base (idx2 g) (LEVEL_1_INDEX g) of
     None \<Rightarrow> None | Some e \<Rightarrow> if ept_present e then Some e else None)"

lemma ept_pte_added_table:
  assumes "added_table (eentry m base) (eentry m' base) p i e" "length p \<le> 2"
    "\<And>r j. eentry m base (p @ i # r) j = None"
  shows "ept_pte m' base g = ept_pte m base g"
proof -
  have "idx2 g \<noteq> p" using assms(2) by auto
  moreover have "\<not> ept_present 0" by (rule ept.not_tbl_0)
  moreover have "idx2 g = p @ [i] \<Longrightarrow> eentry m base (idx2 g) (LEVEL_1_INDEX g) = None"
    using assms(3) [of "[]"] by simp
  ultimately show ?thesis
    using added_tableD [OF assms(1) path_ok_idx(3) index_less(4), of g g] by (auto simp: ept_pte_def)
qed

text \<open>The leaf entry of a guest address, also a cleared one; installing a table grows the leaves by zeros.\<close>

definition ept_leaf :: "mem \<Rightarrow> u64 \<Rightarrow> u64 \<Rightarrow> u64 option" where
  "ept_leaf m base g = eentry m base (idx2 g) (LEVEL_1_INDEX g)"

definition leaves_grow :: "mem \<Rightarrow> mem \<Rightarrow> u64 \<Rightarrow> u64 list \<Rightarrow> bool" where
  "leaves_grow m m' base p \<longleftrightarrow> (\<forall>g. ept_leaf m' base g =
     (if idx2 g = p \<and> ept_leaf m base g = None then Some 0 else ept_leaf m base g))"

lemma leaves_grow_added_table:
  assumes "added_table (eentry m base) (eentry m' base) p i e" "length p \<le> 2"
    "\<And>r j. eentry m base (p @ i # r) j = None"
  shows "leaves_grow m m' base (p @ [i])"
proof -
  have "idx2 g \<noteq> p" for g using assms(2) by auto
  moreover have "eentry m base (p @ [i]) j = None" for j using assms(3) [of "[]"] by simp
  ultimately show ?thesis
    using added_tableD [OF assms(1) path_ok_idx(3) index_less(4)] by (auto simp: leaves_grow_def ept_leaf_def)
qed

lemma leaves_grow_refl: "(\<And>g. idx2 g = p \<Longrightarrow> ept_leaf m base g \<noteq> None) \<Longrightarrow> leaves_grow m m base p"
  by (auto simp: leaves_grow_def)

lemma leaves_grow_upper: "leaves_grow m m' base p \<Longrightarrow> length p \<noteq> 3 \<Longrightarrow> ept_leaf m' base = ept_leaf m base"
  by (auto simp: leaves_grow_def fun_eq_iff)

definition eframes :: "u64 set \<Rightarrow> u64 \<Rightarrow> u64 set \<Rightarrow> kstate \<Rightarrow> u64 set \<Rightarrow> kstate \<Rightarrow> bool" where
  "eframes S base T s T' s' \<longleftrightarrow> T \<subseteq> T' \<and> ewf S T' base s' \<and> (\<forall>va. pa s' va = pa s va) \<and>
     (\<forall>g. ept_pte (kmem s') base g = ept_pte (kmem s) base g) \<and> untouched T' s s' \<and>
     (\<forall>t \<in> T'. t \<in> T \<or> unat (current_avail_page s) \<le> unat t) \<and>
     s' = s\<lparr>kmem := kmem s', current_avail_page := current_avail_page s'\<rparr> \<and>
     unat (current_avail_page s) \<le> unat (current_avail_page s')"

lemma ept_hook_table:
  assumes wf: "ewf S T base s" and p: "path_ok p" "length p \<le> 2" "i < 512" "ewalk (kmem s) base p = Some t"
    and absent: "\<not> ept_present (load64 (kmem s) (t + 8 * i))"
    and P: "P = current_avail_page s" "aligned 12 P" "unat P + 4096 \<le> unat c" "unat P < 2 ^ 40"
    and pm: "pm_ok (s\<lparr>current_avail_page := c\<rparr>)"
    and s': "s' = s\<lparr>kmem := store64 (memset (kmem s) P 0 4096) (t + 8 * i) (ept_table_entry P),
      current_avail_page := c\<rparr>"
  shows "eframes S base T s (insert P T) s'" "ewalk (kmem s') base (p @ [i]) = Some P"
    "load64 (kmem s') (t + 8 * i) = ept_table_entry P" "leaves_grow (kmem s) (kmem s') base (p @ [i])"
proof -
  have t: "t \<in> T" "aligned 12 t" using ept.wf_walkD [OF ewf_wf [OF wf] p(1,4)] by auto
  have PT: "P \<notin> T" using wf P(1) by (fastforce simp: ewf_def)
  have PS: "P \<notin> S" using kwf_fresh [OF ewf_kwf [OF wf]] P(1) by simp
  have m': "kmem s' = store64 (memset (kmem s) P 0 4096) (t + 8 * i) (ept_table_entry P)" by (simp add: s')
  note te = ept_table_entry_props [OF P(2,4)]
  have tP: "t \<noteq> P" using t(1) PT by auto
  note q = fresh_table_mem [OF t(2) P(2) tP p(3) m']
  show ld: "load64 (kmem s') (t + 8 * i) = ept_table_entry P" by (rule q(1))
  have new: "ept_present (load64 (kmem s') (t + 8 * i))" "ept_addr (load64 (kmem s') (t + 8 * i)) = P"
    using te by (simp_all add: ld)
  note facts = ewf_wf [OF wf] p absent P(2) PT new q(2,3)
  show "ewalk (kmem s') base (p @ [i]) = Some P"
    using ept.walk_install_table [OF facts] p by simp
  have add: "added_table (eentry (kmem s) base) (eentry (kmem s') base) p i (ept_table_entry P)"
    unfolding added_table_def using ept.entry_install_table [OF facts] ld by simp
  show "leaves_grow (kmem s) (kmem s') base (p @ [i])"
    by (rule leaves_grow_added_table [OF add p(2) entry_below_leaf [OF p(4) absent]])
  have "kmem s' x = kmem s x" if x: "pfn x \<noteq> pfn P" "pfn x \<notin> pfn ` T" for x
  proof -
    have "pfn x \<noteq> pfn (t + 8 * i)" using x(2) t p(3) by (auto simp: mem_simps)
    then show ?thesis using x(1) t p(3) P(2) by (simp add: s' mem_simps store64_frame memset_frame)
  qed
  then have un: "untouched (insert P T) s s'" by (auto simp: untouched_def)
  have T: "aligned 12 t' \<and> unat t' + 4096 \<le> unat c" if "t' \<in> insert P T" for t'
    using that wf P(1,2,3) by (fastforce simp: ewf_def)
  have wfi: "ewf S (insert P T) base (s\<lparr>current_avail_page := c\<rparr>)"
  proof -
    have "kwf S (s\<lparr>current_avail_page := c\<rparr>)"
      by (rule kwf_frame(1) [OF ewf_kwf [OF wf]]) (use pm P(1,3) in simp_all)
    then show ?thesis
      using wf PS T ept.wf_mono [OF ewf_wf [OF wf], of "insert P T"] by (auto simp: ewf_def)
  qed
  have h: "kwf S s'" "pa s' va = pa (s\<lparr>current_avail_page := c\<rparr>) va" for va
    using ewf_frame_host [OF wfi, of s'] un pm by (auto simp: s' untouched_def pm_ok_def)
  moreover have "pa (s\<lparr>current_avail_page := c\<rparr>) va = pa s va" for va by (simp add: pa_def)
  moreover have "ewf S (insert P T) base s'" unfolding ewf_def
    using h(1) wf PS T ept.wf_install_table [OF facts] by (auto simp: ewf_def s')
  moreover have "ept_pte (kmem s') base g = ept_pte (kmem s) base g" for g
    by (rule ept_pte_added_table [OF add p(2) entry_below_leaf [OF p(4) absent]])
  ultimately show "eframes S base T s (insert P T) s'"
    unfolding eframes_def using un P(1,3) by (auto simp: s')
qed

lemma eframes_refl: "ewf S T base s \<Longrightarrow> eframes S base T s T s"
  by (simp add: eframes_def)

lemma eframes_trans:
  assumes "eframes S base T s T' s'" "eframes S base T' s' T'' s''"
  shows "eframes S base T s T'' s''"
proof -
  have "untouched T'' s s''"
    using assms untouched_trans [of T' s s' T'' s''] by (auto simp: eframes_def)
  moreover have "s'' = s\<lparr>kmem := kmem s'', current_avail_page := current_avail_page s''\<rparr>"
  proof -
    have "s' = s\<lparr>kmem := kmem s', current_avail_page := current_avail_page s'\<rparr>"
      "s'' = s'\<lparr>kmem := kmem s'', current_avail_page := current_avail_page s''\<rparr>"
      using assms unfolding eframes_def by blast+
    then show ?thesis by (metis kstate.update_convs(1) kstate.update_convs(6) kstate.surjective)
  qed
  moreover have "t \<in> T \<or> unat (current_avail_page s) \<le> unat t" if "t \<in> T''" for t
    using that assms unfolding eframes_def by (meson le_trans)
  ultimately show ?thesis using assms unfolding eframes_def by (auto intro: le_trans)
qed

lemma install_ept_table_ok:
  assumes wf: "ewf S T base s" and p: "path_ok p" "length p \<le> 2" "i < 512" "ewalk (kmem s) base p = Some t"
    and r: "install_ept_table (t + 8 * i) s = Inr s'"
  obtains T' where "eframes S base T s T' s'"
    "ewalk (kmem s') base (p @ [i]) = Some (ept_addr (load64 (kmem s') (t + 8 * i)))"
    "leaves_grow (kmem s) (kmem s') base (p @ [i])"
proof (cases "ept_present (load64 (kmem s) (t + 8 * i))")
  case True
  then have "s' = s" using r by (auto simp: install_ept_table_def ept_present_def)
  moreover have "ewalk (kmem s) base (p @ [i]) \<noteq> None" using True p by (simp add: walk_snoc)
  then have "leaves_grow (kmem s) (kmem s) base (p @ [i])"
    by (intro leaves_grow_refl) (auto simp: ept_leaf_def entry_def)
  ultimately show thesis using True p eframes_refl [OF wf] that by (simp add: walk_snoc)
next
  case False
  obtain P s1 where g: "get_physical_page s = Inr (P, s1)"
    using get_physical_page_not_Inl [of s] by (cases "get_physical_page s") auto
  note i = install_ept_table_fresh [OF wf p(1,3,4) False g]
  have P0: "P \<noteq> 0" and s1: "s' = s1\<lparr>kmem := store64 (memset (kmem s) P 0 4096) (t + 8 * i) (ept_table_entry P)\<rparr>"
    using r by (auto simp: i split: if_splits)
  have pm: "pm_ok s" using wf by (simp add: ewf_def kwf_def)
  note ok = get_physical_page_success [OF pm g P0]
  obtain c where c: "s1 = s\<lparr>current_avail_page := c\<rparr>" using ok(2) by blast
  have P40: "unat P < 2 ^ 40" using ok(6) by simp
  have le: "unat P + 4096 \<le> unat c" and pmc: "pm_ok (s\<lparr>current_avail_page := c\<rparr>)" using ok c by simp_all
  have s': "s' = s\<lparr>kmem := store64 (memset (kmem s) P 0 4096) (t + 8 * i) (ept_table_entry P),
      current_avail_page := c\<rparr>" by (simp add: s1 c)
  note h = ept_hook_table [OF wf p False ok(1,4) le P40 pmc s']
  show thesis
    using that [OF h(1)] h(2,3,4) ept_table_entry_props(2) [OF ok(4) P40] by simp
qed

definition map_ept_upper :: "u64 \<Rightarrow> u64 \<Rightarrow> kstate \<Rightarrow> (u64 \<times> kstate) result" where
  "map_ept_upper base g s =
     (let pml4e = base + 8 * LEVEL_4_INDEX g in
      bind_result (install_ept_table pml4e s) (\<lambda>s1.
      let pdpe = ept_addr (load64 (kmem s1) pml4e) + 8 * LEVEL_3_INDEX g in
      bind_result (install_ept_table pdpe s1) (\<lambda>s2.
      let pde = ept_addr (load64 (kmem s2) pdpe) + 8 * LEVEL_2_INDEX g in
      bind_result (install_ept_table pde s2) (\<lambda>s3. Inr (ept_addr (load64 (kmem s3) pde), s3)))))"

lemma map_ept_page_eq:
  "map_ept_page base g phy backing s =
     bind_result (map_ept_upper base g s) (\<lambda>(t, s3). Inr (install_ept_page (t + 8 * LEVEL_1_INDEX g) phy backing s3))"
  by (auto simp: map_ept_page_def map_ept_upper_def Let_def bind_result_def split: sum.splits)

lemma map_ept_upper_ok:
  assumes wf: "ewf S T base s" and r: "map_ept_upper base g s = Inr (t, s')"
  obtains T' where "eframes S base T s T' s'" "ewalk (kmem s') base (idx2 g) = Some t"
    "leaves_grow (kmem s) (kmem s') base (idx2 g)"
proof -
  let ?a4 = "base + 8 * LEVEL_4_INDEX g"
  obtain s1 where r1: "install_ept_table ?a4 s = Inr s1"
    using r by (cases "install_ept_table ?a4 s") (auto simp: map_ept_upper_def Let_def)
  let ?a3 = "ept_addr (load64 (kmem s1) ?a4) + 8 * LEVEL_3_INDEX g"
  obtain s2 where r2: "install_ept_table ?a3 s1 = Inr s2"
    using r r1 by (cases "install_ept_table ?a3 s1") (auto simp: map_ept_upper_def Let_def)
  let ?a2 = "ept_addr (load64 (kmem s2) ?a3) + 8 * LEVEL_2_INDEX g"
  have r3: "install_ept_table ?a2 s2 = Inr s'" and t: "t = ept_addr (load64 (kmem s') ?a2)"
    using r r1 r2 by (cases "install_ept_table ?a2 s2"; simp add: map_ept_upper_def Let_def)+
  have w: "ewalk (kmem s) base [] = Some base" by simp
  from install_ept_table_ok [OF wf path_ok_Nil _ index_less(1) w r1] obtain T1 where
    f1: "eframes S base T s T1 s1" and w1: "ewalk (kmem s1) base (idx4 g) = Some (ept_addr (load64 (kmem s1) ?a4))"
    and l1': "leaves_grow (kmem s) (kmem s1) base (idx4 g)" by (auto simp: idx4_def)
  have wf1: "ewf S T1 base s1" and l1: "length (idx4 g) \<le> 2" using f1 by (simp_all add: eframes_def)
  from install_ept_table_ok [OF wf1 path_ok_idx(1) l1 index_less(2) w1 r2] obtain T2 where
    f2: "eframes S base T1 s1 T2 s2" and w2: "ewalk (kmem s2) base (idx3 g) = Some (ept_addr (load64 (kmem s2) ?a3))"
    and l2': "leaves_grow (kmem s1) (kmem s2) base (idx3 g)" by (auto simp: idx_snoc(2))
  have wf2: "ewf S T2 base s2" and l2: "length (idx3 g) \<le> 2" using f2 by (simp_all add: eframes_def)
  from install_ept_table_ok [OF wf2 path_ok_idx(2) l2 index_less(3) w2 r3] obtain T3 where
    f3: "eframes S base T2 s2 T3 s'" and w3: "ewalk (kmem s') base (idx2 g) = Some (ept_addr (load64 (kmem s') ?a2))"
    and l3': "leaves_grow (kmem s2) (kmem s') base (idx2 g)" by (auto simp: idx_snoc(3))
  have "leaves_grow (kmem s) (kmem s') base (idx2 g)"
    using l3' leaves_grow_upper [OF l1'] leaves_grow_upper [OF l2'] by (simp add: leaves_grow_def)
  then show thesis
    using that [OF eframes_trans [OF eframes_trans [OF f1 f2] f3]] w3 t by simp
qed

definition ept_mapped :: "mem \<Rightarrow> mem \<Rightarrow> u64 \<Rightarrow> u64 \<Rightarrow> u64 \<Rightarrow> bool" where
  "ept_mapped m m' base g e \<longleftrightarrow> (\<forall>g'. ept_pte m' base g' =
     (if same_page 12 g g' then (if ept_present e then Some e else None) else ept_pte m base g'))"

text \<open>What a call of \<open>map_ept_page\<close> leaves alone.\<close>

definition ept_kept :: "u64 set \<Rightarrow> u64 \<Rightarrow> u64 set \<Rightarrow> kstate \<Rightarrow> u64 set \<Rightarrow> kstate \<Rightarrow> bool" where
  "ept_kept S base T s T' s' \<longleftrightarrow> T \<subseteq> T' \<and> ewf S T' base s' \<and> (\<forall>va. pa s' va = pa s va) \<and> untouched T' s s' \<and>
     (\<forall>t \<in> T'. t \<in> T \<or> unat (current_avail_page s) \<le> unat t) \<and>
     s' = s\<lparr>kmem := kmem s', current_avail_page := current_avail_page s'\<rparr> \<and>
     unat (current_avail_page s) \<le> unat (current_avail_page s')"

lemma eframes_kept: "eframes S base T s T' s' \<Longrightarrow> ept_kept S base T s T' s'"
  unfolding eframes_def ept_kept_def by blast

lemma ept_store_leaf:
  assumes wf: "ewf S T base s" and w: "ewalk (kmem s) base (idx2 g) = Some t"
    and s': "s' = s\<lparr>kmem := store64 (kmem s) (t + 8 * LEVEL_1_INDEX g) e\<rparr>"
  shows "ept_kept S base T s T s'" "ept_mapped (kmem s) (kmem s') base g e"
    "ept_leaf (kmem s') base g' = (if same_page 12 g g' then Some e else ept_leaf (kmem s) base g')"
proof -
  have t: "t \<in> T" "aligned 12 t" using ept.wf_walkD [OF ewf_wf [OF wf] path_ok_idx(3) w] by auto
  have m': "kmem s' = store64 (kmem s) (t + 8 * LEVEL_1_INDEX g) e" by (simp add: s')
  note q = leaf_mem [OF t(2) index_less(4) m']
  have leaf: "length (idx2 g) = 3 \<or> \<not> ept_present (load64 (kmem s) (t + 8 * LEVEL_1_INDEX g)) \<and>
      \<not> ept_present (load64 (kmem s') (t + 8 * LEVEL_1_INDEX g))" by simp
  note facts = ewf_wf [OF wf] path_ok_idx(3) index_less(4) w leaf q(2)
  have un: "untouched T s s'" unfolding s' by (rule untouched_store [OF t index_less(4)])
  have pm: "pm_ok s'" using wf by (simp add: s' ewf_def kwf_def pm_ok_def)
  have h: "kwf S s'" "pa s' va = pa s va" for va
    using ewf_frame_host [OF wf un _ pm] by (simp_all add: s')
  have "ewf S T base s'"
    unfolding ewf_def using h(1) wf ept.wf_set_leaf [OF facts] by (simp add: ewf_def s')
  then show "ept_kept S base T s T s'" unfolding ept_kept_def using h un by (simp add: s')
  have en: "eentry (kmem s') base (idx2 g') (LEVEL_1_INDEX g') =
      (if idx2 g' = idx2 g \<and> LEVEL_1_INDEX g' = LEVEL_1_INDEX g then Some e
       else eentry (kmem s) base (idx2 g') (LEVEL_1_INDEX g'))" for g'
    using ept.entry_set_leaf [OF facts path_ok_idx(3) index_less(4)] q(1) by simp
  then show "ept_mapped (kmem s) (kmem s') base g e"
    by (simp add: ept_mapped_def ept_pte_def same_page_4k)
  show "ept_leaf (kmem s') base g' = (if same_page 12 g g' then Some e else ept_leaf (kmem s) base g')"
    by (simp add: ept_leaf_def en same_page_4k)
qed

lemma ept_kept_trans:
  assumes "eframes S base T s T' s'" "ept_kept S base T' s' T'' s''"
  shows "ept_kept S base T s T'' s''"
proof -
  have "untouched T'' s s''"
    using assms untouched_trans [of T' s s' T'' s''] by (auto simp: eframes_def ept_kept_def)
  moreover have "s'' = s\<lparr>kmem := kmem s'', current_avail_page := current_avail_page s''\<rparr>"
  proof -
    have "s' = s\<lparr>kmem := kmem s', current_avail_page := current_avail_page s'\<rparr>"
      "s'' = s'\<lparr>kmem := kmem s'', current_avail_page := current_avail_page s''\<rparr>"
      using assms unfolding eframes_def ept_kept_def by blast+
    then show ?thesis by (metis kstate.update_convs(1) kstate.update_convs(6) kstate.surjective)
  qed
  moreover have "t \<in> T \<or> unat (current_avail_page s) \<le> unat t" if "t \<in> T''" for t
    using that assms unfolding eframes_def ept_kept_def by (meson le_trans)
  ultimately show ?thesis using assms unfolding eframes_def ept_kept_def by (auto intro: le_trans)
qed

lemma map_ept_page_spec:
  assumes wf: "ewf S T base s" and r: "map_ept_page base g phy backing s = Inr (rc, s')"
  obtains T' where "ept_kept S base T s T' s'"
    "rc = 0 \<Longrightarrow> ept_pte (kmem s) base g = None \<and> ept_mapped (kmem s) (kmem s') base g (ept_page_entry phy backing)"
    "rc \<noteq> 0 \<Longrightarrow> rc = - errno ERROR_DUPLICATION \<and> ept_pte (kmem s) base g \<noteq> None \<and> ept_pte (kmem s') base = ept_pte (kmem s) base"
proof -
  obtain t s3 where u: "map_ept_upper base g s = Inr (t, s3)"
    and i: "install_ept_page (t + 8 * LEVEL_1_INDEX g) phy backing s3 = (rc, s')"
    using r by (cases "map_ept_upper base g s") (auto simp: map_ept_page_eq)
  from map_ept_upper_ok [OF wf u] obtain T' where f: "eframes S base T s T' s3" and w: "ewalk (kmem s3) base (idx2 g) = Some t"
    by blast
  have wf3: "ewf S T' base s3" and pte: "\<And>g. ept_pte (kmem s3) base g = ept_pte (kmem s) base g"
    using f by (simp_all add: eframes_def)
  let ?e = "load64 (kmem s3) (t + 8 * LEVEL_1_INDEX g)"
  have pg: "ept_pte (kmem s3) base g = (if ept_present ?e then Some ?e else None)"
    using w by (simp add: ept_pte_def entry_def)
  show thesis
  proof (cases "ept_present ?e")
    case True
    then have "s' = s3" "rc = - errno ERROR_DUPLICATION" using i by (auto simp: install_ept_page_eq)
    with True pg pte eframes_kept [OF f] show thesis by (intro that [of T']) auto
  next
    case False
    then have rc: "rc = 0" and s': "s' = s3\<lparr>kmem := store64 (kmem s3) (t + 8 * LEVEL_1_INDEX g) (ept_page_entry phy backing)\<rparr>"
      using i by (auto simp: install_ept_page_eq)
    note l = ept_store_leaf [OF wf3 w s']
    have "ept_mapped (kmem s) (kmem s') base g (ept_page_entry phy backing)"
      using l(2) pte by (simp add: ept_mapped_def)
    with False rc pg pte ept_kept_trans [OF f l(1)] show thesis by (intro that [of T']) auto
  qed
qed

lemma map_ept_page_leaves:
  assumes wf: "ewf S T base s" and r: "map_ept_page base g phy backing s = Inr (rc, s')"
  shows "ept_leaf (kmem s') base g' =
    (if rc = 0 \<and> same_page 12 g g' then Some (ept_page_entry phy backing)
     else if idx2 g' = idx2 g \<and> ept_leaf (kmem s) base g' = None then Some 0 else ept_leaf (kmem s) base g')"
proof -
  obtain t s3 where u: "map_ept_upper base g s = Inr (t, s3)"
    and i: "install_ept_page (t + 8 * LEVEL_1_INDEX g) phy backing s3 = (rc, s')"
    using r by (cases "map_ept_upper base g s") (auto simp: map_ept_page_eq)
  from map_ept_upper_ok [OF wf u] obtain T' where f: "eframes S base T s T' s3"
    and w: "ewalk (kmem s3) base (idx2 g) = Some t" and l: "leaves_grow (kmem s) (kmem s3) base (idx2 g)"
    by blast
  have wf3: "ewf S T' base s3" using f by (simp add: eframes_def)
  show ?thesis
  proof (cases "ept_present (load64 (kmem s3) (t + 8 * LEVEL_1_INDEX g))")
    case True
    then have "s' = s3" "rc \<noteq> 0" using i by (auto simp: install_ept_page_eq)
    then show ?thesis using l by (simp add: leaves_grow_def)
  next
    case False
    then have rc: "rc = 0" and s': "s' = s3\<lparr>kmem := store64 (kmem s3) (t + 8 * LEVEL_1_INDEX g) (ept_page_entry phy backing)\<rparr>"
      using i by (auto simp: install_ept_page_eq)
    show ?thesis using ept_store_leaf(3) [OF wf3 w s', of g'] rc l by (simp add: leaves_grow_def)
  qed
qed

section \<open>When mapping succeeds\<close>

definition id_ok :: "kstate \<Rightarrow> bool" where
  "id_ok s \<longleftrightarrow> unat (addr_low4G s) + unat (length_low4G s) \<le> 2 ^ 31 \<and> (\<forall>va. unat va < 2 ^ 31 \<longrightarrow> pa s va = va)"

lemma alloc_ok:
  assumes wf: "kwf S s" and id: "id_ok s" and av: "avail s (Suc k)"
  obtains P c where "get_physical_page s = Inr (P, s\<lparr>current_avail_page := c\<rparr>)" "P \<noteq> 0" "pa s P = P"
    "P = current_avail_page s" "aligned 12 P" "unat P + 4096 \<le> unat c" "unat P < 2 ^ 31"
    "pm_ok (s\<lparr>current_avail_page := c\<rparr>)" "avail (s\<lparr>current_avail_page := c\<rparr>) k"
proof -
  let ?P = "current_avail_page s"
  have pm: "pm_ok s" using wf by (simp add: kwf_def)
  from get_physical_page_avail [OF pm av] obtain s' where g: "get_physical_page s = Inr (?P, s')" "avail s' k" by blast
  have P0: "?P \<noteq> 0" by (rule kwf_avail [OF wf])
  note ok = get_physical_page_success [OF pm g(1) P0]
  obtain c where c: "s' = s\<lparr>current_avail_page := c\<rparr>" using ok(2) by blast
  have "unat ?P < 2 ^ 31" using av id by (auto simp: avail_def id_ok_def)
  moreover from this have "pa s ?P = ?P" using id by (simp add: id_ok_def)
  ultimately show thesis using that [of ?P c] g ok c P0 by simp
qed

lemma id_ok_kept:
  assumes "id_ok s" "\<And>va. pa s' va = pa s va"
    "s' = s\<lparr>kmem := kmem s', current_avail_page := current_avail_page s'\<rparr>"
  shows "id_ok s'"
proof -
  have "addr_low4G s' = addr_low4G s" "length_low4G s' = length_low4G s"
    by (subst assms(3), simp)+
  with assms(1,2) show ?thesis by (simp add: id_ok_def)
qed

lemma install_ept_table_total:
  assumes wf: "ewf S T base s" and p: "path_ok p" "length p \<le> 2" "i < 512" "ewalk (kmem s) base p = Some t"
    and id: "id_ok s" and av: "avail s (Suc k)"
  obtains s' where "install_ept_table (t + 8 * i) s = Inr s'" "avail s' k" "id_ok s'"
proof -
  obtain s' where r: "install_ept_table (t + 8 * i) s = Inr s'" and av': "avail s' k"
  proof (cases "ept_present (load64 (kmem s) (t + 8 * i))")
    case True
    then have "install_ept_table (t + 8 * i) s = Inr s" by (auto simp: install_ept_table_def ept_present_def)
    moreover have "avail s k" using avail_mono [OF av] by simp
    ultimately show thesis using that by blast
  next
    case False
    from alloc_ok [OF ewf_kwf [OF wf] id av] obtain P c where
      g: "get_physical_page s = Inr (P, s\<lparr>current_avail_page := c\<rparr>)" "P \<noteq> 0" "pa s P = P"
        "avail (s\<lparr>current_avail_page := c\<rparr>) k" by blast
    from install_ept_table_fresh [OF wf p(1,3,4) False g(1)] g(2-) that show thesis
      by (simp add: avail_def)
  qed
  from install_ept_table_ok [OF wf p r] obtain T' where "eframes S base T s T' s'" by blast
  then have "id_ok s'" using id_ok_kept [OF id] unfolding eframes_def by blast
  with r av' that show thesis by blast
qed

lemma map_ept_page_total:
  assumes wf: "ewf S T base s" and id: "id_ok s" and av: "avail s (k + 3)"
  obtains rc s' where "map_ept_page base g phy backing s = Inr (rc, s')" "avail s' k"
proof -
  let ?a4 = "base + 8 * LEVEL_4_INDEX g"
  have w: "ewalk (kmem s) base [] = Some base" by simp
  have av3: "avail s (Suc (Suc (Suc k)))" using av by (simp add: eval_nat_numeral)
  from install_ept_table_total [OF wf path_ok_Nil _ index_less(1) w id av3] obtain s1 where
    r1: "install_ept_table ?a4 s = Inr s1" and 1: "avail s1 (Suc (Suc k))" "id_ok s1" by auto
  from install_ept_table_ok [OF wf path_ok_Nil _ index_less(1) w r1] obtain T1 where
    f1: "eframes S base T s T1 s1" and w1: "ewalk (kmem s1) base (idx4 g) = Some (ept_addr (load64 (kmem s1) ?a4))"
    by (auto simp: idx4_def)
  let ?a3 = "ept_addr (load64 (kmem s1) ?a4) + 8 * LEVEL_3_INDEX g"
  have wf1: "ewf S T1 base s1" and l1: "length (idx4 g) \<le> 2" using f1 by (simp_all add: eframes_def)
  from install_ept_table_total [OF wf1 path_ok_idx(1) l1 index_less(2) w1 1(2,1)] obtain s2 where
    r2: "install_ept_table ?a3 s1 = Inr s2" and 2: "avail s2 (Suc k)" "id_ok s2" by blast
  from install_ept_table_ok [OF wf1 path_ok_idx(1) l1 index_less(2) w1 r2] obtain T2 where
    f2: "eframes S base T1 s1 T2 s2" and w2: "ewalk (kmem s2) base (idx3 g) = Some (ept_addr (load64 (kmem s2) ?a3))"
    by (auto simp: idx_snoc(2))
  let ?a2 = "ept_addr (load64 (kmem s2) ?a3) + 8 * LEVEL_2_INDEX g"
  have wf2: "ewf S T2 base s2" and l2: "length (idx3 g) \<le> 2" using f2 by (simp_all add: eframes_def)
  from install_ept_table_total [OF wf2 path_ok_idx(2) l2 index_less(3) w2 2(2,1)] obtain s3 where
    r3: "install_ept_table ?a2 s2 = Inr s3" and 3: "avail s3 k" by blast
  obtain rc s' where i: "install_ept_page (ept_addr (load64 (kmem s3) ?a2) + 8 * LEVEL_1_INDEX g) phy backing s3 = (rc, s')"
    by fastforce
  then have "avail s' k" using 3 by (auto simp: install_ept_page_eq avail_def split: if_splits)
  moreover have "map_ept_page base g phy backing s = Inr (rc, s')"
    using r1 r2 r3 i by (simp add: map_ept_page_def Let_def)
  ultimately show thesis using that by blast
qed

section \<open>Populating guest memory\<close>

lemma ewf_alloc:
  assumes wf: "ewf S T base s" and P: "P = current_avail_page s" "aligned 12 P" "unat P + 4096 \<le> unat c"
    and pm: "pm_ok (s\<lparr>current_avail_page := c\<rparr>)"
    and s': "s' = s\<lparr>current_avail_page := c, kmem := memset (kmem s) P 0 4096\<rparr>"
  shows "ewf S T base s'" "pa s' va = pa s va" "ept_pte (kmem s') base g = ept_pte (kmem s) base g"
proof -
  have "P \<notin> T" using wf P(1) by (fastforce simp: ewf_def)
  then have T: "pfn P \<notin> pfn ` T" using wf P(2) page_eq_iff by (auto simp: ewf_def)
  have S: "pfn P \<notin> pfn ` S"
    using pfn_in_tables [OF ewf_kwf [OF wf] P(2)] kwf_fresh [OF ewf_kwf [OF wf]] P(1) by simp
  have same: "kmem s' x = kmem s x" if "pfn x \<noteq> pfn P" for x
    using that P(2) by (simp add: s' memset_frame)
  have sameS: "kmem s' x = kmem s x" if "pfn x \<in> pfn ` S" for x using same S that by metis
  have k: "pml4_base s' = pml4_base s" "pm_ok s'" "unat (current_avail_page s) \<le> unat (current_avail_page s')"
    using pm P by (simp_all add: s' pm_ok_def)
  have h: "kwf S s'" "pa s' va = pa s va" for va
    by (rule kwf_frame [OF ewf_kwf [OF wf] sameS k], assumption)+
  have ld: "load64 (kmem s') (t + 8 * j) = load64 (kmem s) (t + 8 * j)" if "t \<in> T" "aligned 12 t" "j < 512" for t j
  proof -
    have "pfn t \<noteq> pfn P" using that(1) T by (metis imageI)
    then show ?thesis using that P(2) by (simp add: s' mem_simps)
  qed
  have "ewf S T base s'" unfolding ewf_def
  proof (intro conjI ballI)
    show "kwf S s'" by (rule h(1))
    show "S \<inter> T = {}" using wf by (simp add: ewf_def)
    show "wf_tables ept_present ept_addr (load64 (kmem s')) base T"
      by (rule ept.wf_frame [OF ewf_wf [OF wf] ld])
    show "aligned 12 t" "unat t + 4096 \<le> unat (current_avail_page s')" if "t \<in> T" for t
      using that wf P(1,3) by (fastforce simp: ewf_def s')+
  qed
  then show "ewf S T base s'" "pa s' va = pa s va" using h by auto
  show "ept_pte (kmem s') base g = ept_pte (kmem s) base g"
    using ept.entry_frame [OF ewf_wf [OF wf] ld path_ok_idx(3) index_less(4)] by (simp add: ept_pte_def)
qed

definition gfn :: "u64 \<Rightarrow> nat" where "gfn g = unat (take_bit 36 (drop_bit 12 g))"

lemma same_page_gfn: "same_page 12 g g' \<longleftrightarrow> gfn g' = gfn g"
  by (simp add: same_page_def gfn_def u64_eq_iff)

definition gpa_of :: "nat \<Rightarrow> u64" where "gpa_of k = of_nat (4096 * k)"

lemma unat_gpa_of: "k \<le> 2 ^ 36 \<Longrightarrow> unat (gpa_of k) = 4096 * k"
  unfolding gpa_of_def by (rule unat_of_nat_u64) simp

lemma gfn_gpa_of: "k < 2 ^ 36 \<Longrightarrow> gfn (gpa_of k) = k"
  by (simp add: gfn_def unat_field unat_gpa_of)

text \<open>
  Guest pages \<open>a\<close> to \<open>a + length ps - 1\<close> are backed by the host pages \<open>ps\<close>: distinct, zeroed, handed
  out by the allocator and no tables; no other guest page is mapped.  These pages and the tables lie at
  or above \<open>L\<close>, and the memory below \<open>L\<close> is that of \<open>m0\<close>.
\<close>

definition backed :: "nat \<Rightarrow> mem \<Rightarrow> u64 set \<Rightarrow> u64 set \<Rightarrow> u64 \<Rightarrow> nat \<Rightarrow> u64 list \<Rightarrow> kstate \<Rightarrow> bool" where
  "backed L m0 S T base a ps s \<longleftrightarrow> ewf S T base s \<and> distinct ps \<and> set ps \<inter> (S \<union> T) = {} \<and>
     (\<forall>p \<in> set ps. aligned 12 p \<and> unat p + 4096 \<le> unat (current_avail_page s) \<and> unat p < 2 ^ 31) \<and>
     (\<forall>x. pfn x \<in> pfn ` set ps \<longrightarrow> kmem s x = 0) \<and>
     L \<le> unat (current_avail_page s) \<and> (\<forall>p \<in> set ps \<union> T. L \<le> unat p) \<and> (\<forall>x. unat x < L \<longrightarrow> kmem s x = m0 x) \<and>
     (\<forall>g. ept_pte (kmem s) base g =
        (if a \<le> gfn g \<and> gfn g < a + length ps
         then Some (ept_page_entry (ps ! (gfn g - a)) PAGE_SYSTEM_MEMORY) else None))"

lemma page_above:
  assumes "aligned 12 t" "pfn x = pfn t"
  shows "unat t \<le> unat x"
proof -
  obtain k where k: "unat t = 4096 * k" using assms(1) by (auto simp: aligned_iff_dvd)
  have "unat x div 4096 = unat t div 4096" using arg_cong [OF assms(2), of unat] by (simp add: unat_pfn)
  then show ?thesis using k by simp
qed

lemma backed_step:
  assumes b: "backed L m0 S T base a ps s" and id: "id_ok s" and av: "avail s (k + 4)"
    and j: "j = a + length ps" "j < 2 ^ 36"
  obtains P s1 s' T' where "get_physical_page s = Inr (P, s1)" "P \<noteq> 0" "pa s1 P = P"
    "map_ept_page base (gpa_of j) P PAGE_SYSTEM_MEMORY (s1\<lparr>kmem := memset (kmem s1) P 0 PAGE_SIZE_4K\<rparr>) = Inr (0, s')"
    "T \<subseteq> T'" "backed L m0 S T' base a (ps @ [P]) s'" "id_ok s'" "avail s' k"
proof -
  have wf: "ewf S T base s" using b by (simp add: backed_def)
  have "avail s (Suc (k + 3))" using av by (simp add: eval_nat_numeral)
  from alloc_ok [OF ewf_kwf [OF wf] id this] obtain P c where
    g: "get_physical_page s = Inr (P, s\<lparr>current_avail_page := c\<rparr>)" "P \<noteq> 0" "pa s P = P"
    and P: "P = current_avail_page s" "aligned 12 P" "unat P + 4096 \<le> unat c" "unat P < 2 ^ 31"
    and pm: "pm_ok (s\<lparr>current_avail_page := c\<rparr>)" and av1: "avail (s\<lparr>current_avail_page := c\<rparr>) (k + 3)" by blast
  let ?s1 = "s\<lparr>current_avail_page := c, kmem := memset (kmem s) P 0 4096\<rparr>"
  note al = ewf_alloc [OF wf P(1-3) pm refl]
  have id1: "id_ok ?s1" by (rule id_ok_kept [OF id al(2)]) simp
  have "avail ?s1 (k + 3)" using av1 by (simp add: avail_def)
  from map_ept_page_total [OF al(1) id1 this, of "gpa_of j" P PAGE_SYSTEM_MEMORY] obtain rc s' where
    r: "map_ept_page base (gpa_of j) P PAGE_SYSTEM_MEMORY ?s1 = Inr (rc, s')" and av': "avail s' k" by blast
  from map_ept_page_spec [OF al(1) r] obtain T' where kept: "ept_kept S base T ?s1 T' s'" and
    ok: "rc = 0 \<Longrightarrow> ept_pte (kmem ?s1) base (gpa_of j) = None \<and>
      ept_mapped (kmem ?s1) (kmem s') base (gpa_of j) (ept_page_entry P PAGE_SYSTEM_MEMORY)" and
    bad: "rc \<noteq> 0 \<Longrightarrow> rc = - errno ERROR_DUPLICATION \<and> ept_pte (kmem ?s1) base (gpa_of j) \<noteq> None \<and>
      ept_pte (kmem s') base = ept_pte (kmem ?s1) base" by blast
  have pte: "ept_pte (kmem s) base g =
      (if a \<le> gfn g \<and> gfn g < a + length ps
       then Some (ept_page_entry (ps ! (gfn g - a)) PAGE_SYSTEM_MEMORY) else None)" for g
    using b by (simp add: backed_def)
  have "ept_pte (kmem ?s1) base (gpa_of j) = None" using al(3) pte [of "gpa_of j"] j by (simp add: gfn_gpa_of)
  then have rc: "rc = 0" using bad by blast
  have "\<forall>t \<in> T'. t \<in> T \<or> unat (current_avail_page ?s1) \<le> unat t"
    "unat (current_avail_page ?s1) \<le> unat (current_avail_page s')"
    using kept unfolding ept_kept_def by blast+
  then have T': "t \<in> T' \<Longrightarrow> t \<in> T \<or> unat c \<le> unat t" and cur: "unat c \<le> unat (current_avail_page s')" for t
    by simp_all
  have bps: "aligned 12 p" "unat p + 4096 \<le> unat (current_avail_page s)" "unat p < 2 ^ 31" if "p \<in> set ps" for p
    using that b by (auto simp: backed_def)
  have psn: "p \<noteq> P" if "p \<in> set ps" for p using bps(2) [OF that] P(1) by auto
  have notT: "p \<notin> T'" if "p \<in> set (ps @ [P])" for p
  proof
    assume p: "p \<in> T'"
    have le: "unat p + 4096 \<le> unat c" using that P(1,3) bps(2) by fastforce
    have "p \<notin> T" using that b P(1) wf by (fastforce simp: backed_def ewf_def)
    with T' [OF p] le show False by simp
  qed
  have zero: "kmem s' x = 0" if x: "pfn x \<in> pfn ` set (ps @ [P])" for x
  proof -
    obtain p where p: "p \<in> set (ps @ [P])" "pfn x = pfn p" using x by blast
    have ap: "aligned 12 p" using p(1) P(2) bps(1) by auto
    have "pfn x \<notin> pfn ` T'"
    proof
      assume "pfn x \<in> pfn ` T'"
      then obtain t where t: "t \<in> T'" "pfn p = pfn t" using p(2) by force
      then have "aligned 12 t" using kept by (auto simp: ept_kept_def ewf_def)
      then show False using t ap page_eq_iff notT [OF p(1)] by auto
    qed
    then have "kmem s' x = memset (kmem s) P 0 4096 x"
      using kept by (simp add: ept_kept_def untouched_def)
    also have "\<dots> = 0"
    proof (cases "p = P")
      case True
      then show ?thesis using p(2) P(2) by (simp add: memset_def in_page_iff)
    next
      case False
      then have "pfn x \<noteq> pfn P" using p(2) ap P(2) page_eq_iff by auto
      then have "memset (kmem s) P 0 4096 x = kmem s x" using P(2) by (simp add: memset_frame)
      moreover have "pfn x \<in> pfn ` set ps" using False p by auto
      then have "kmem s x = 0" using b by (simp add: backed_def)
      ultimately show ?thesis by simp
    qed
    finally show ?thesis .
  qed
  have pte': "ept_pte (kmem s') base g =
      (if a \<le> gfn g \<and> gfn g < a + length (ps @ [P])
       then Some (ept_page_entry ((ps @ [P]) ! (gfn g - a)) PAGE_SYSTEM_MEMORY) else None)" for g
  proof -
    have "ept_pte (kmem s') base g = (if gfn g = j then Some (ept_page_entry P PAGE_SYSTEM_MEMORY) else ept_pte (kmem s) base g)"
      using conjunct2 [OF ok [OF rc]] al(3) j(2) ept_page_entry_props(1)
      by (simp add: ept_mapped_def same_page_gfn gfn_gpa_of)
    then show ?thesis using pte [of g] j(1) by (auto simp: nth_append)
  qed
  have lower: "L \<le> unat (current_avail_page s')" "\<forall>p \<in> set (ps @ [P]) \<union> T'. L \<le> unat p"
    using b P(1,3) cur T' by (fastforce simp: backed_def)+
  have below: "kmem s' x = m0 x" if x: "unat x < L" for x
  proof -
    have "pfn x \<noteq> pfn t" if "aligned 12 t" "L \<le> unat t" for t
      using page_above [OF that(1), of x] that(2) x by auto
    moreover have "aligned 12 t" if "t \<in> T'" for t using that kept by (auto simp: ept_kept_def ewf_def)
    ultimately have "pfn x \<notin> pfn ` T'" "pfn x \<noteq> pfn P" using lower(2) P(2) by auto
    then have "kmem s' x = kmem s x" using kept P(2) by (simp add: ept_kept_def untouched_def memset_frame)
    then show ?thesis using b x by (simp add: backed_def)
  qed
  have "set (ps @ [P]) \<inter> (S \<union> T') = {}"
    using b notT kwf_fresh [OF ewf_kwf [OF wf]] P(1) by (auto simp: backed_def)
  moreover have "ewf S T' base s'" "T \<subseteq> T'" using kept by (simp_all add: ept_kept_def)
  moreover have "\<forall>p \<in> set (ps @ [P]). aligned 12 p \<and> unat p + 4096 \<le> unat (current_avail_page s') \<and> unat p < 2 ^ 31"
    using bps P cur by fastforce
  ultimately have "backed L m0 S T' base a (ps @ [P]) s'"
    unfolding backed_def using zero pte' psn b lower below by (auto simp: backed_def)
  moreover have "id_ok s'" using id_ok_kept [OF id1] kept unfolding ept_kept_def by blast
  moreover have "pa (s\<lparr>current_avail_page := c\<rparr>) P = P" using g(3) by (simp add: pa_def)
  ultimately show thesis using that [of P "s\<lparr>current_avail_page := c\<rparr>" s' T'] g(1,2) r rc av' \<open>T \<subseteq> T'\<close> by simp
qed

lemma ept_loop_backed:
  assumes "backed L m0 S T base a ps s" "id_ok s" "avail s (4 * (N - k) + r)" "k = a + length ps" "k \<le> N"
    "N = unat hi div 4096 + 1" "N \<le> 2 ^ 36"
  shows "\<exists>T' ps' s'. ept_loop base hi (gpa_of k) s = Some (Inr s') \<and> T \<subseteq> T' \<and>
    backed L m0 S T' base a (ps @ ps') s' \<and> a + length (ps @ ps') = N \<and> id_ok s' \<and> avail s' r"
  using assms
proof (induction "N - k" arbitrary: k T ps s)
  case 0
  then have k: "k = N" by simp
  have "\<not> gpa_of k \<le> hi"
    using 0 k by (simp add: word_le_nat_alt unat_gpa_of not_le)
  then have "ept_loop base hi (gpa_of k) s = Some (Inr s)" by (subst ept_loop.simps) simp
  with 0 k show ?case by (intro exI [of _ T] exI [of _ "[]"] exI [of _ s]) simp
next
  case (Suc n)
  then have k: "k < N" by simp
  then have k36: "k < 2 ^ 36" using Suc.prems(7) by simp
  have le: "gpa_of k \<le> hi"
  proof -
    have "k \<le> unat hi div 4096" using k Suc.prems(6) by simp
    then have "4096 * k \<le> unat hi" by (simp add: less_eq_div_iff_mult_less_eq mult.commute)
    then show ?thesis using k36 by (simp add: word_le_nat_alt unat_gpa_of)
  qed
  have Nk: "N - k = Suc (N - Suc k)" using k by simp
  have "avail s (4 * (N - Suc k) + r + 4)" using Suc.prems(3) unfolding Nk by (simp add: algebra_simps)
  from backed_step [OF Suc.prems(1,2) this Suc.prems(4) k36] obtain P s1 s' T' where st:
    "get_physical_page s = Inr (P, s1)" "P \<noteq> 0" "pa s1 P = P"
    "map_ept_page base (gpa_of k) P PAGE_SYSTEM_MEMORY (s1\<lparr>kmem := memset (kmem s1) P 0 PAGE_SIZE_4K\<rparr>) = Inr (0, s')"
    "T \<subseteq> T'" "backed L m0 S T' base a (ps @ [P]) s'" "id_ok s'" "avail s' (4 * (N - Suc k) + r)" by blast
  have sk: "gpa_of k + PAGE_SIZE_4K = gpa_of (Suc k)" by (simp add: gpa_of_def algebra_simps)
  have "ept_loop base hi (gpa_of k) s = ept_loop base hi (gpa_of (Suc k)) s'"
    using le st(1-4) by (subst ept_loop.simps) (simp add: sk)
  moreover have "n = N - Suc k" "Suc k = a + length (ps @ [P])" "Suc k \<le> N" using Suc.hyps(2) Suc.prems(4) k by auto
  from Suc.hyps(1) [OF this(1) st(6-8) this(2,3) Suc.prems(6,7)] obtain T'' ps' s'' where
    "ept_loop base hi (gpa_of (Suc k)) s' = Some (Inr s'')" "T' \<subseteq> T''"
    "backed L m0 S T'' base a ((ps @ [P]) @ ps') s''" "a + length ((ps @ [P]) @ ps') = N" "id_ok s''" "avail s'' r" by blast
  ultimately show ?case
    using st(5) by (intro exI [of _ T''] exI [of _ "[P] @ ps'"] exI [of _ s'']) auto
qed

lemma ept_root:
  assumes wf: "kwf S s" and P: "P = current_avail_page s" "aligned 12 P" "unat P + 4096 \<le> unat c"
    and pm: "pm_ok (s\<lparr>current_avail_page := c\<rparr>)"
    and s': "s' = s\<lparr>current_avail_page := c, kmem := memset (kmem s) P 0 4096\<rparr>"
  shows "backed (unat P) (kmem s) S {P} P a [] s'" "pa s' va = pa s va"
proof -
  have PS: "P \<notin> S" using kwf_fresh [OF wf] P(1) by simp
  have S: "pfn P \<notin> pfn ` S" using pfn_in_tables [OF wf P(2)] PS by simp
  have sameS: "kmem s' x = kmem s x" if "pfn x \<in> pfn ` S" for x
  proof -
    have "pfn x \<noteq> pfn P" using S that by metis
    then show ?thesis using P(2) by (simp add: s' memset_frame)
  qed
  have k: "pml4_base s' = pml4_base s" "pm_ok s'" "unat (current_avail_page s) \<le> unat (current_avail_page s')"
    using pm P by (simp_all add: s' pm_ok_def)
  have h: "kwf S s'" by (rule kwf_frame(1) [OF wf sameS k])
  show "pa s' va = pa s va" by (rule kwf_frame(2) [OF wf sameS k])
  have z: "load64 (kmem s') (P + 8 * i) = 0" if "i < 512" for i
    using that P(2) by (simp add: s' mem_simps)
  have "ewf S {P} P s'"
    unfolding ewf_def using h PS P(2,3) ept.wf_empty_root [OF P(2), of "load64 (kmem s')"] z by (auto simp: s')
  moreover have "ept_pte (kmem s') P g = None" for g
    using z [OF index_less(1) [of g]] ept.not_tbl_0 by (simp add: ept_pte_def entry_def idx2_def)
  moreover have "kmem s' x = kmem s x" if "unat x < unat P" for x
  proof -
    have "pfn x \<noteq> pfn P" using page_above [OF P(2), of x] that by auto
    then show ?thesis using P(2) by (simp add: s' memset_frame)
  qed
  ultimately show "backed (unat P) (kmem s) S {P} P a [] s'" using P(3) by (simp add: backed_def s')
qed

lemma guestpa_to_hostpa_eq:
  "guestpa_to_hostpa m base g =
     (case eentry m base (idx2 g) (LEVEL_1_INDEX g) of None \<Rightarrow> - 1
      | Some e \<Rightarrow> if \<not> ept_read_access e \<and> ept_write_access e then - 1 else ept_addr e OR take_bit 12 g)"
  by (auto simp: guestpa_to_hostpa_def Let_def entry_def idx2_def ept_present_def and_offset)

lemma ept_pte_Some: "ept_pte m base g = Some e \<Longrightarrow> eentry m base (idx2 g) (LEVEL_1_INDEX g) = Some e"
  by (auto simp: ept_pte_def split: option.splits if_splits)

lemma take_bit_40_small: "unat p < 2 ^ 31 \<Longrightarrow> take_bit 40 p = p" for p :: u64
  by (simp add: u64_eq_iff unsigned_take_bit_eq take_bit_nat_eq_self)

lemma backed_translates:
  assumes "backed L m0 S T base a ps s" "a \<le> gfn g" "gfn g < a + length ps"
  shows "guestpa_to_hostpa (kmem s) base g = ps ! (gfn g - a) OR take_bit 12 g"
proof -
  let ?p = "ps ! (gfn g - a)"
  have "?p \<in> set ps" using assms(2,3) by simp
  then have p: "aligned 12 ?p" "unat ?p < 2 ^ 31" using assms(1) by (auto simp: backed_def)
  have "ept_pte (kmem s) base g = Some (ept_page_entry ?p PAGE_SYSTEM_MEMORY)"
    using assms by (simp add: backed_def)
  then show ?thesis
    using ept_pte_Some p by (simp add: guestpa_to_hostpa_eq ept_page_entry_props take_bit_40_small)
qed

lemma setup_memory_backed:
  assumes wf: "kwf S s" and id: "id_ok s" and N: "N = unat hi div 4096 + 1" "a \<le> N" "N \<le> 2 ^ 36"
    and av: "avail s (1 + 4 * (N - a) + r)"
  shows "\<exists>base s' T ps. setup_basic_physical_memory (gpa_of a) hi s = Inr (base, s') \<and>
    backed (unat (current_avail_page s)) (kmem s) S T base a ps s' \<and> length ps = N - a \<and> id_ok s' \<and> avail s' r"
proof -
  have "avail s (Suc (4 * (N - a) + r))" using av by simp
  from alloc_ok [OF wf id this] obtain P c where
    g: "get_physical_page s = Inr (P, s\<lparr>current_avail_page := c\<rparr>)" "P \<noteq> 0" "pa s P = P"
    and P: "P = current_avail_page s" "aligned 12 P" "unat P + 4096 \<le> unat c" "unat P < 2 ^ 31"
    and pm: "pm_ok (s\<lparr>current_avail_page := c\<rparr>)" and av1: "avail (s\<lparr>current_avail_page := c\<rparr>) (4 * (N - a) + r)" by blast
  let ?s1 = "s\<lparr>current_avail_page := c, kmem := memset (kmem s) P 0 4096\<rparr>"
  note root = ept_root [OF wf P(1-3) pm refl]
  have id1: "id_ok ?s1" by (rule id_ok_kept [OF id root(2)]) simp
  have "avail ?s1 (4 * (N - a) + r)" using av1 by (simp add: avail_def)
  from ept_loop_backed [OF root(1) id1 this _ N(2,1,3)] obtain T ps s' where
    l: "ept_loop P hi (gpa_of a) ?s1 = Some (Inr s')" "backed (unat (current_avail_page s)) (kmem s) S T P a ps s'" "a + length ps = N" "id_ok s'" "avail s' r"
    unfolding P(1) by auto
  have "pa (s\<lparr>current_avail_page := c\<rparr>) P = P" using g(3) by (simp add: pa_def)
  then have "setup_basic_physical_memory (gpa_of a) hi s = Inr (P, s')"
    using g l(1) by (simp add: setup_basic_physical_memory_def)
  moreover have "length ps = N - a" using l(3) by simp
  ultimately show ?thesis using l by blast
qed

section \<open>Main properties\<close>

lemma guestpa_to_hostpa_leaf:
  "guestpa_to_hostpa m base g =
     (case ept_leaf m base g of None \<Rightarrow> - 1
      | Some e \<Rightarrow> if \<not> ept_read_access e \<and> ept_write_access e then - 1 else ept_addr e OR take_bit 12 g)"
  by (simp add: guestpa_to_hostpa_eq ept_leaf_def)

lemma ept_leaf_None_iff: "ept_leaf m base g = None \<longleftrightarrow> ewalk m base (idx2 g) = None"
  by (auto simp: ept_leaf_def entry_def split: option.splits)

lemma ept_page_translates:
  assumes "aligned 12 phy" "backing = PAGE_SYSTEM_MEMORY \<or> backing = PAGE_SYSTEM_IOMEMORY"
    "ept_leaf m base g = Some (ept_page_entry phy backing)"
  shows "guestpa_to_hostpa m base g =
    (if backing = PAGE_SYSTEM_MEMORY then take_bit 40 phy OR take_bit 12 g else - 1)"
  using assms ept_page_entry_props(2,5) [of phy] ept_page_entry_props(3,4) [of phy]
  by (auto simp: guestpa_to_hostpa_leaf ept_present_def PAGE_SYSTEM_MEMORY_def PAGE_SYSTEM_IOMEMORY_def)

lemma guestpa_to_hostpa_cleared: "ept_leaf m base g = Some 0 \<Longrightarrow> guestpa_to_hostpa m base g = take_bit 12 g"
  by (simp add: guestpa_to_hostpa_leaf ept_read_access_def ept_write_access_def ept_addr_def bf_shl_def bf_get_def)

text \<open>
  C26 (map_ept_page). For a page-aligned host page and either backing, \<open>map_ept_page\<close> returns ERROR_OK
  exactly when the guest page had no present entry, and -ERROR_DUPLICATION otherwise.  On success the entry
  of that guest page is the only one the hardware sees change; otherwise none does.  What
  \<open>guestpa_to_hostpa\<close> answers changes for the mapped page (the host page and the offset for system
  memory, -1 for an I/O page) and, when the 2 MiB range had no leaf table yet, for its neighbours: they go from
  -1 to an offset in host page 0, because the last test of the function lacks a negation.  Every other answer
  is kept, the tables stay well formed, host translations are unchanged, and memory outside the extended
  tables is untouched.
\<close>

theorem map_ept_page_exact:
  assumes "ewf S T base s" "aligned 12 phy" "backing = PAGE_SYSTEM_MEMORY \<or> backing = PAGE_SYSTEM_IOMEMORY"
    "map_ept_page base g phy backing s = Inr (rc, s')"
  shows "\<exists>T'. T \<subseteq> T' \<and> ewf S T' base s' \<and> (\<forall>va. pa s' va = pa s va) \<and> untouched T' s s' \<and>
    (rc = errno ERROR_OK \<or> rc = - errno ERROR_DUPLICATION) \<and>
    (rc = errno ERROR_OK \<longleftrightarrow> ept_pte (kmem s) base g = None) \<and>
    (\<forall>g'. ept_pte (kmem s') base g' =
      (if rc = errno ERROR_OK \<and> same_page 12 g g' then Some (ept_page_entry phy backing)
       else ept_pte (kmem s) base g')) \<and>
    (\<forall>g'. guestpa_to_hostpa (kmem s') base g' =
      (if rc = errno ERROR_OK \<and> same_page 12 g g'
       then (if backing = PAGE_SYSTEM_MEMORY then take_bit 40 phy OR take_bit 12 g' else - 1)
       else if idx2 g' = idx2 g \<and> ewalk (kmem s) base (idx2 g) = None then take_bit 12 g'
       else guestpa_to_hostpa (kmem s) base g'))"
proof -
  from map_ept_page_spec [OF assms(1,4)] obtain T' where T': "ept_kept S base T s T' s'"
    "rc = 0 \<Longrightarrow> ept_pte (kmem s) base g = None \<and>
       ept_mapped (kmem s) (kmem s') base g (ept_page_entry phy backing)"
    "rc \<noteq> 0 \<Longrightarrow> rc = - errno ERROR_DUPLICATION \<and> ept_pte (kmem s) base g \<noteq> None \<and>
       ept_pte (kmem s') base = ept_pte (kmem s) base" by blast
  have pr: "ept_present (ept_page_entry phy backing)" using assms(3) ept_page_entry_props(1,3) by blast
  note l = map_ept_page_leaves [OF assms(1,4)]
  have "guestpa_to_hostpa (kmem s') base g' =
      (if rc = errno ERROR_OK \<and> same_page 12 g g'
       then (if backing = PAGE_SYSTEM_MEMORY then take_bit 40 phy OR take_bit 12 g' else - 1)
       else if idx2 g' = idx2 g \<and> ewalk (kmem s) base (idx2 g) = None then take_bit 12 g'
       else guestpa_to_hostpa (kmem s) base g')" for g'
  proof (cases "rc = 0 \<and> same_page 12 g g'")
    case True
    then show ?thesis using ept_page_translates [OF assms(2,3)] l [of g'] by simp
  next
    case False
    then show ?thesis using l [of g'] guestpa_to_hostpa_cleared [of "kmem s'" base g']
      by (auto simp: ept_leaf_None_iff guestpa_to_hostpa_leaf)
  qed
  then show ?thesis
    by (intro exI [of _ T']; cases "rc = 0") (use T' pr in \<open>auto simp: ept_kept_def ept_mapped_def\<close>)
qed

text \<open>Later calls of \<open>map_ept_page\<close> keep the translations and the contents of the backed pages.\<close>

lemma backed_kept:
  assumes b: "backed L m0 S T base a ps s" and r: "map_ept_page base g phy backing s = Inr (rc, s')"
    and g': "a \<le> gfn g'" "gfn g' < a + length ps"
  shows "guestpa_to_hostpa (kmem s') base g' = guestpa_to_hostpa (kmem s) base g'"
proof -
  have wf: "ewf S T base s" and some: "ept_pte (kmem s) base g' \<noteq> None" using b g' by (auto simp: backed_def)
  from map_ept_page_spec [OF wf r] have "rc = 0 \<Longrightarrow> ept_pte (kmem s) base g = None" by metis
  moreover have "same_page 12 g g' \<Longrightarrow> ept_pte (kmem s) base g = ept_pte (kmem s) base g'"
    by (simp add: ept_pte_def same_page_4k)
  moreover have "ept_leaf (kmem s) base g' \<noteq> None" using some by (auto simp: ept_pte_def ept_leaf_def split: option.splits)
  ultimately have "ept_leaf (kmem s') base g' = ept_leaf (kmem s) base g'"
    using map_ept_page_leaves [OF wf r, of g'] some by auto
  then show ?thesis by (simp add: guestpa_to_hostpa_leaf)
qed

lemma backed_contents_kept:
  assumes b: "backed L m0 S T base a ps s" and r: "map_ept_page base g phy backing s = Inr (rc, s')"
    and x: "pfn x \<in> pfn ` set ps"
  shows "kmem s' x = kmem s x"
proof -
  have wf: "ewf S T base s" using b by (simp add: backed_def)
  from map_ept_page_spec [OF wf r] obtain T' where T': "ept_kept S base T s T' s'" by metis
  obtain p where p: "p \<in> set ps" "pfn x = pfn p" using x by blast
  have pp: "aligned 12 p" "unat p < unat (current_avail_page s)" "p \<notin> T"
    using b p(1) by (fastforce simp: backed_def)+
  have "pfn x \<notin> pfn ` T'"
  proof
    assume "pfn x \<in> pfn ` T'"
    then obtain t where t: "t \<in> T'" "pfn t = pfn p" using p by force
    then have "aligned 12 t" using T' by (auto simp: ept_kept_def ewf_def)
    then have "t = p" using t pp(1) page_eq_iff by blast
    then show False using t pp T' by (fastforce simp: ept_kept_def)
  qed
  then show ?thesis using T' by (simp add: ept_kept_def untouched_def)
qed

text \<open>
  C1 (guest memory). With enough identity-mapped pages, \<open>setup_basic_physical_memory\<close> returns, and
  the guest pages from \<open>addr_low\<close> to \<open>addr_high\<close> are backed by distinct zeroed host pages that hold
  neither host nor extended page tables: \<open>guestpa_to_hostpa\<close> gives the page and the offset, and no other
  guest page is mapped.  A later call of \<open>map_ept_page\<close> on the result, for any guest page, host page and
  backing, changes neither the translation of these guest pages nor a byte of the pages behind them.
\<close>

theorem guest_memory_isolated:
  assumes "kwf S s" "id_ok s" "N = unat addr_high div 4096 + 1" "a \<le> N" "N \<le> 2 ^ 36"
    "avail s (1 + 4 * (N - a))"
  shows "\<exists>base s' T ps. setup_basic_physical_memory (gpa_of a) addr_high s = Inr (base, s') \<and>
    ewf S T base s' \<and> length ps = N - a \<and> distinct ps \<and> set ps \<inter> (S \<union> T) = {} \<and>
    (\<forall>x. pfn x \<in> pfn ` set ps \<longrightarrow> kmem s' x = 0) \<and>
    (\<forall>g. if a \<le> gfn g \<and> gfn g < N
         then guestpa_to_hostpa (kmem s') base g = ps ! (gfn g - a) OR take_bit 12 g
         else ept_pte (kmem s') base g = None) \<and>
    (\<forall>g phy backing rc s''. map_ept_page base g phy backing s' = Inr (rc, s'') \<longrightarrow>
       (\<forall>g'. a \<le> gfn g' \<and> gfn g' < N \<longrightarrow> guestpa_to_hostpa (kmem s'') base g' = guestpa_to_hostpa (kmem s') base g') \<and>
       (\<forall>x. pfn x \<in> pfn ` set ps \<longrightarrow> kmem s'' x = 0))"
proof -
  have "avail s (1 + 4 * (N - a) + 0)" using assms(6) by simp
  from setup_memory_backed [OF assms(1-5) this] obtain base s' T ps where
    r: "setup_basic_physical_memory (gpa_of a) addr_high s = Inr (base, s')"
    and b: "backed (unat (current_avail_page s)) (kmem s) S T base a ps s'" "length ps = N - a" by blast
  have "if a \<le> gfn g \<and> gfn g < N
        then guestpa_to_hostpa (kmem s') base g = ps ! (gfn g - a) OR take_bit 12 g
        else ept_pte (kmem s') base g = None" for g
    using b backed_translates [OF b(1), of g] assms(4) by (auto simp: backed_def)
  moreover have "ewf S T base s'" "distinct ps" "set ps \<inter> (S \<union> T) = {}" and z: "\<forall>x. pfn x \<in> pfn ` set ps \<longrightarrow> kmem s' x = 0"
    using b(1) unfolding backed_def by blast+
  moreover have "a + length ps = N" using b(2) assms(4) by simp
  ultimately show ?thesis
    using r b(2) z backed_kept [OF b(1)] backed_contents_kept [OF b(1)]
    by (intro exI [of _ base] exI [of _ s'] exI [of _ T] exI [of _ ps]) simp
qed

text \<open>
  For an unmapped guest page and three spare pages, \<open>setup_io_memory\<close> returns with
  a write-only entry for exactly that page, which the hardware reports as a misconfiguration and which
  \<open>guestpa_to_hostpa\<close> does not translate.
\<close>

lemma setup_io_memory_traps:
  assumes "ewf S T base s" "id_ok s" "avail s 3" "ept_pte (kmem s) base g = None"
  shows "\<exists>s' e. setup_io_memory base g s = Inr s' \<and> ept_write_access e \<and> \<not> ept_read_access e \<and>
    guestpa_to_hostpa (kmem s') base g = - 1 \<and>
    (\<forall>g'. ept_pte (kmem s') base g' = (if same_page 12 g g' then Some e else ept_pte (kmem s) base g'))"
proof -
  let ?e = "ept_page_entry 0 PAGE_SYSTEM_IOMEMORY"
  have "avail s (0 + 3)" using assms(3) by simp
  from map_ept_page_total [OF assms(1,2) this] obtain rc s' where
    r: "map_ept_page base g 0 PAGE_SYSTEM_IOMEMORY s = Inr (rc, s')" by blast
  from map_ept_page_spec [OF assms(1) r] assms(4) have rc: "rc = 0" and
    m: "ept_mapped (kmem s) (kmem s') base g ?e" by metis+
  have e: "ept_write_access ?e" "\<not> ept_read_access ?e" "ept_present ?e"
    using ept_page_entry_props(3,4) [of 0] by (auto simp: ept_present_def)
  have pte: "ept_pte (kmem s') base g' = (if same_page 12 g g' then Some ?e else ept_pte (kmem s) base g')" for g'
    using m e(3) by (simp add: ept_mapped_def)
  have "eentry (kmem s') base (idx2 g) (LEVEL_1_INDEX g) = Some ?e"
    by (rule ept_pte_Some) (simp add: pte same_page_def)
  then have "guestpa_to_hostpa (kmem s') base g = - 1" using e by (simp add: guestpa_to_hostpa_eq)
  moreover have "setup_io_memory base g s = Inr s'" using r rc by (simp add: setup_io_memory_def)
  ultimately show ?thesis using e pte by (intro exI [of _ s'] exI [of _ ?e]) auto
qed

text \<open>
  The last test of \<open>guestpa_to_hostpa\<close> misses a negation: for
  an unmapped guest page whose three upper tables exist it returns an address made of the entry's
  address bits instead of the failure value.
\<close>

lemma guestpa_to_hostpa_unmapped:
  fixes s :: kstate
  assumes "eentry (kmem s) base (idx2 g) (LEVEL_1_INDEX g) = Some e" "\<not> ept_present e"
  shows "ept_pte (kmem s) base g = None \<and> guestpa_to_hostpa (kmem s) base g = ept_addr e OR take_bit 12 g \<and>
    guestpa_to_hostpa (kmem s) base g \<noteq> - 1"
proof -
  have r: "guestpa_to_hostpa (kmem s) base g = ept_addr e OR take_bit 12 g"
    using assms by (auto simp: guestpa_to_hostpa_eq ept_present_def)
  have "\<not> bit (ept_addr e OR take_bit 12 g) 63" by (simp add: bit_simps ept_addr_def bf_shl_def)
  moreover have "bit (- 1 :: u64) 63" by simp
  ultimately have "ept_addr e OR take_bit 12 g \<noteq> - 1" by metis
  note ne = this
  show ?thesis using assms r ne by (simp add: ept_pte_def)
qed

subsection \<open>A concrete machine\<close>

lemma sample_machine:
  obtains S s where "kwf S s" "id_ok s" "avail s 100000"
proof -
  let ?P = "current_avail_page sample_kstate"
  from fresh_pml4 [OF sample_kstate_ok(1,2), of 100000] sample_kstate_ok(3) [of 100000] obtain s1 where
    inv: "identity_upto 0 100000 (low_region sample_kstate) {?P}
      (s1\<lparr>pml4_base := ?P, kmem := memset (kmem s1) ?P 0 PAGE_SIZE_4K\<rparr>)" by auto
  from paging_init_loop_identity [OF inv] obtain s S where
    i: "identity_upto 1024 100000 (low_region sample_kstate) S s" by auto
  have "pa s va = va" if "unat va < 2 ^ 31" for va
    using i that by (simp add: identity_upto_def unsigned_take_bit_eq take_bit_nat_eq_self u64_eq_iff)
  moreover have "unat (addr_low4G s) + unat (length_low4G s) \<le> 2 ^ 31"
    using i by (simp add: identity_upto_def low_region_def sample_kstate_def)
  ultimately have "id_ok s" by (simp add: id_ok_def)
  moreover have "kwf S s" "avail s 100000" using i by (simp_all add: identity_upto_def spare_def)
  ultimately show thesis by (intro that)
qed

theorem guest_memory_isolated_witness:
  "\<exists>s base s' p. setup_basic_physical_memory 0 0x7ff s = Inr (base, s') \<and>
     guestpa_to_hostpa (kmem s') base 0x123 = p OR 0x123 \<and> ept_pte (kmem s') base 0x1000 = None"
proof -
  obtain S s where s: "kwf S s" "id_ok s" "avail s 100000" by (rule sample_machine)
  have av: "avail s (1 + 4 * (1 - 0))" using avail_mono [OF s(3)] by simp
  have g: "gpa_of 0 = 0" "gfn 0x123 = 0" "gfn 0x1000 = 1" by (simp_all add: gpa_of_def gfn_def)
  from guest_memory_isolated [OF s(1,2), of 1 "0x7ff" 0] av obtain base s' ps where
    r: "setup_basic_physical_memory 0 0x7ff s = Inr (base, s')" and
    m: "\<forall>g. if 0 \<le> gfn g \<and> gfn g < 1 then guestpa_to_hostpa (kmem s') base g = ps ! (gfn g - 0) OR take_bit 12 g
         else ept_pte (kmem s') base g = None" unfolding g by auto
  have "guestpa_to_hostpa (kmem s') base 0x123 = ps ! 0 OR 0x123" "ept_pte (kmem s') base 0x1000 = None"
    using m [rule_format, of "0x123"] m [rule_format, of "0x1000"] g by simp_all
  with r show ?thesis by blast
qed

lemma sample_guest_high:
  obtains S T base s where "ewf S T base s" "id_ok s" "avail s 1000" "ept_pte (kmem s) base 0x200000 = None"
    "ewalk (kmem s) base (idx2 0x200000) = None"
proof -
  obtain S s where s: "kwf S s" "id_ok s" "avail s 100000" by (rule sample_machine)
  have "avail s (Suc 99999)" using s(3) by simp
  from alloc_ok [OF s(1,2) this] obtain P c where
    P: "P = current_avail_page s" "aligned 12 P" "unat P + 4096 \<le> unat c" "unat P < 2 ^ 31"
    and pm: "pm_ok (s\<lparr>current_avail_page := c\<rparr>)" and av: "avail (s\<lparr>current_avail_page := c\<rparr>) 99999" by blast
  let ?s = "s\<lparr>current_avail_page := c, kmem := memset (kmem s) P 0 4096\<rparr>"
  note root = ept_root [OF s(1) P(1-3) pm refl]
  have "id_ok ?s" by (rule id_ok_kept [OF s(2) root(2)]) simp
  moreover have "avail ?s 1000" using avail_mono [OF av, of 1000] by (simp add: avail_def)
  moreover have "ewf S {P} P ?s" using root(1) [of 0] by (simp add: backed_def)
  moreover have "ept_pte (kmem ?s) P 0x200000 = None" using root(1) [of 0] by (simp add: backed_def)
  moreover have "load64 (kmem ?s) (P + 8 * LEVEL_4_INDEX 0x200000) = 0"
    using P(2) index_less(1) by (simp add: mem_simps)
  then have "ewalk (kmem ?s) P (idx2 0x200000) = None" using ept.not_tbl_0 by (simp add: idx2_def)
  ultimately show thesis using that by blast
qed

lemma sample_guest:
  obtains S T base s t where "ewf S T base s" "id_ok s" "avail s 1000" "ept_pte (kmem s) base 0x1000 = None"
    "ewalk (kmem s) base (idx2 0x1000) = Some t"
proof -
  obtain S s where s: "kwf S s" "id_ok s" "avail s 100000" by (rule sample_machine)
  have av: "avail s (1 + 4 * (1 - 0) + 1000)" using avail_mono [OF s(3)] by simp
  have g: "gpa_of 0 = 0" "gfn 0 = 0" "gfn 0x1000 = 1" by (simp_all add: gpa_of_def gfn_def)
  from setup_memory_backed [OF s(1,2), of 1 "0x7ff" 0 1000] av obtain base s' T ps where
    b: "backed (unat (current_avail_page s)) (kmem s) S T base 0 ps s'" "length ps = 1" "id_ok s'" "avail s' 1000" by auto
  have "ept_pte (kmem s') base 0 \<noteq> None" "ept_pte (kmem s') base 0x1000 = None"
    using b(1,2) by (simp_all add: backed_def g)
  then obtain e where "eentry (kmem s') base (idx2 0) (LEVEL_1_INDEX 0) = Some e" using ept_pte_Some by blast
  then obtain t where "ewalk (kmem s') base (idx2 0) = Some t" by (auto simp: entry_def)
  moreover have "idx2 0x1000 = idx2 0"
    by (simp add: idx2_def LEVEL_4_INDEX_def LEVEL_3_INDEX_def LEVEL_2_INDEX_def)
  ultimately have "ewalk (kmem s') base (idx2 0x1000) = Some t" by simp
  moreover have "ewf S T base s'" using b(1) by (simp add: backed_def)
  ultimately show thesis using that b(3,4) \<open>ept_pte (kmem s') base 0x1000 = None\<close> by blast
qed

theorem map_ept_page_exact_witness:
  "\<exists>base s s'. map_ept_page base 0x200000 0x5000000 PAGE_SYSTEM_MEMORY s = Inr (0, s') \<and>
     ept_pte (kmem s') base 0x200abc = Some (ept_page_entry 0x5000000 PAGE_SYSTEM_MEMORY) \<and>
     guestpa_to_hostpa (kmem s') base 0x200abc = 0x5000abc \<and>
     guestpa_to_hostpa (kmem s) base 0x201123 = - 1 \<and> guestpa_to_hostpa (kmem s') base 0x201123 = 0x123"
proof -
  obtain S T base s where s: "ewf S T base s" "id_ok s" "avail s 1000" "ept_pte (kmem s) base 0x200000 = None"
    "ewalk (kmem s) base (idx2 0x200000) = None" by (rule sample_guest_high)
  have "avail s (0 + 3)" using avail_mono [OF s(3)] by simp
  from map_ept_page_total [OF s(1,2) this] obtain rc s' where
    r: "map_ept_page base 0x200000 0x5000000 PAGE_SYSTEM_MEMORY s = Inr (rc, s')" by blast
  have p: "same_page 12 0x200000 0x200abc" "\<not> same_page 12 0x200000 0x201123" "idx2 0x201123 = idx2 0x200000"
    "aligned 12 (0x5000000 :: u64)" "take_bit 40 0x5000000 OR take_bit 12 0x200abc = (0x5000abc :: u64)"
    by (simp_all add: same_page_def idx2_def LEVEL_4_INDEX_def LEVEL_3_INDEX_def LEVEL_2_INDEX_def aligned_def
        take_bit_eq_mask mask_numeral)
  have "guestpa_to_hostpa (kmem s) base 0x201123 = - 1"
    using s(5) p(3) by (simp add: guestpa_to_hostpa_leaf ept_leaf_None_iff [THEN iffD2])
  with map_ept_page_exact [OF s(1) p(4) _ r] s(4,5) p r show ?thesis
    by (intro exI [of _ base] exI [of _ s] exI [of _ s']) (auto simp: take_bit_eq_mask mask_numeral)
qed

theorem setup_io_memory_traps_witness:
  "\<exists>base s s'. setup_io_memory base 0x1000 s = Inr s' \<and> guestpa_to_hostpa (kmem s') base 0x1000 = - 1"
proof -
  obtain S T base s t where s: "ewf S T base s" "id_ok s" "avail s 1000" "ept_pte (kmem s) base 0x1000 = None"
    by (rule sample_guest)
  have "avail s 3" using avail_mono [OF s(3)] by simp
  from setup_io_memory_traps [OF s(1,2) this s(4)] show ?thesis by blast
qed

theorem guestpa_to_hostpa_unmapped_witness:
  "\<exists>base (s :: kstate). ept_pte (kmem s) base 0x1000 = None \<and> guestpa_to_hostpa (kmem s) base 0x1000 \<noteq> - 1"
proof -
  obtain S T base s t where "ewf S T base s" "id_ok s" "avail s 1000" and
    s: "ept_pte (kmem s) base 0x1000 = None" and t: "ewalk (kmem s) base (idx2 0x1000) = Some t"
    by (rule sample_guest)
  let ?e = "load64 (kmem s) (t + 8 * LEVEL_1_INDEX 0x1000)"
  have e: "eentry (kmem s) base (idx2 0x1000) (LEVEL_1_INDEX 0x1000) = Some ?e" using t by (simp add: entry_def)
  then have "\<not> ept_present ?e" using s by (auto simp: ept_pte_def split: if_splits)
  from guestpa_to_hostpa_unmapped [OF e this] show ?thesis by blast
qed

end
