(* ===== verification/Ring_Buffer.thy ===== *)
theory Ring_Buffer
  imports Zelda_Prelude
begin

text \<open>
  The byte ring of \<open>lib64/include/ring.h\<close>, used for the keyboard scancodes of a guest.  The locale
  \<open>bounded_queue\<close> states what a client may rely on, a bounded first-in first-out queue; the ring
  is shown to provide it, and any interleaving of operations to behave like the queue.
\<close>

section \<open>The ring\<close>

record ring =
  ring_size :: int
  front :: int
  rear :: int
  buffer :: "u8 list"

text \<open>C remainder: it truncates towards zero, and a zero divisor raises an exception.\<close>

definition c_rem :: "int \<Rightarrow> int \<Rightarrow> int result" where
  "c_rem a b = (if b = 0 then Inl Divide_error else Inr (sgn a * (\<bar>a\<bar> mod \<bar>b\<bar>)))"

definition get_byte :: "u8 list \<Rightarrow> int \<Rightarrow> u8 result" where
  "get_byte bs i = (if 0 \<le> i \<and> i < int (length bs) then Inr (bs ! nat i) else Inl Wild_access)"

definition set_byte :: "u8 list \<Rightarrow> int \<Rightarrow> u8 \<Rightarrow> u8 list result" where
  "set_byte bs i v = (if 0 \<le> i \<and> i < int (length bs) then Inr (bs[nat i := v]) else Inl Wild_access)"

definition ring_reset :: "ring \<Rightarrow> ring" where
  "ring_reset r = r\<lparr>front := 0, rear := 0\<rparr>"

definition ring_empty :: "ring \<Rightarrow> bool" where
  "ring_empty r \<longleftrightarrow> front r = rear r"

definition ring_full :: "ring \<Rightarrow> bool result" where
  "ring_full r = bind_result (c_rem (rear r + 1) (ring_size r)) (\<lambda>n. Inr (n = front r))"

definition ring_length :: "ring \<Rightarrow> int result" where
  "ring_length r = c_rem (rear r + ring_size r - front r) (ring_size r)"

function write_ring_loop :: "ring \<Rightarrow> u8 list \<Rightarrow> int \<Rightarrow> int \<Rightarrow> (int \<times> ring) result" where
  "write_ring_loop r ptr left result =
     (if left > 0 then
        bind_result (ring_full r) (\<lambda>full.
        if full then Inr (result, r) else
        bind_result (get_byte ptr result) (\<lambda>b.
        bind_result (set_byte (buffer r) (rear r) b) (\<lambda>buf.
        bind_result (c_rem (rear r + 1) (ring_size r)) (\<lambda>n.
        write_ring_loop (r\<lparr>buffer := buf, rear := n\<rparr>) ptr (left - 1) (result + 1)))))
      else Inr (result, r))"
  by pat_completeness auto
termination by (relation "measure (\<lambda>(r, ptr, left, result). nat left)") simp_all

definition write_ring :: "ring \<Rightarrow> u8 list \<Rightarrow> int \<Rightarrow> (int \<times> ring) result" where
  "write_ring r buf sz = write_ring_loop r buf sz 0"

function read_ring_loop :: "ring \<Rightarrow> u8 list \<Rightarrow> int \<Rightarrow> int \<Rightarrow> (int \<times> u8 list \<times> ring) result" where
  "read_ring_loop r ptr left result =
     (if left > 0 then
        if ring_empty r then Inr (result, ptr, r) else
        bind_result (get_byte (buffer r) (front r)) (\<lambda>b.
        bind_result (set_byte ptr result b) (\<lambda>ptr'.
        bind_result (c_rem (front r + 1) (ring_size r)) (\<lambda>n.
        read_ring_loop (r\<lparr>front := n\<rparr>) ptr' (left - 1) (result + 1))))
      else Inr (result, ptr, r))"
  by pat_completeness auto
termination by (relation "measure (\<lambda>(r, ptr, left, result). nat left)") simp_all

declare write_ring_loop.simps [simp del] read_ring_loop.simps [simp del]

definition read_ring :: "ring \<Rightarrow> u8 list \<Rightarrow> int \<Rightarrow> (int \<times> u8 list \<times> ring) result" where
  "read_ring r buf sz = read_ring_loop r buf sz 0"

definition ring_enqueue :: "ring \<Rightarrow> u8 \<Rightarrow> (int \<times> ring) result" where
  "ring_enqueue r v = write_ring r [v] 1"

text \<open>The old content of the destination byte is an argument: it is kept when the ring is empty.\<close>

definition ring_dequeue :: "ring \<Rightarrow> u8 \<Rightarrow> (int \<times> u8 \<times> ring) result" where
  "ring_dequeue r old = bind_result (read_ring r [old] 1) (\<lambda>(n, ptr, r'). Inr (n, ptr ! 0, r'))"

definition ring_peek :: "ring \<Rightarrow> u8 result" where
  "ring_peek r = get_byte (buffer r) (front r)"

section \<open>A bounded queue\<close>

datatype 'a queue_op = Enq 'a | Deq

primrec queue_step :: "nat \<Rightarrow> 'a queue_op \<Rightarrow> 'a list \<Rightarrow> 'a option \<times> 'a list" where
  "queue_step n (Enq v) q = (None, if length q < n then q @ [v] else q)"
| "queue_step n Deq q = (case q of [] \<Rightarrow> (None, []) | x # xs \<Rightarrow> (Some x, xs))"

fun queue_run :: "nat \<Rightarrow> 'a queue_op list \<Rightarrow> 'a list \<Rightarrow> 'a option list \<times> 'a list" where
  "queue_run n [] q = ([], q)"
| "queue_run n (x # xs) q =
     (let (y, q') = queue_step n x q; (ys, q'') = queue_run n xs q' in (y # ys, q''))"

locale bounded_queue =
  fixes inv :: "'q \<Rightarrow> bool" and abs :: "'q \<Rightarrow> 'a list" and cap :: "'q \<Rightarrow> nat"
    and enq :: "'q \<Rightarrow> 'a \<Rightarrow> (int \<times> 'q) result"
    and deq :: "'q \<Rightarrow> 'a \<Rightarrow> (int \<times> 'a \<times> 'q) result"
  assumes enq_law: "inv q \<Longrightarrow> \<exists>q'. enq q v = Inr (if length (abs q) < cap q then 1 else 0, q') \<and> inv q' \<and>
      cap q' = cap q \<and> abs q' = (if length (abs q) < cap q then abs q @ [v] else abs q)"
    and deq_law: "inv q \<Longrightarrow> \<exists>q'. deq q old = Inr (if abs q = [] then 0 else 1, if abs q = [] then old else hd (abs q), q') \<and>
      inv q' \<and> cap q' = cap q \<and> abs q' = tl (abs q)"
begin

definition step :: "'a queue_op \<Rightarrow> 'q \<Rightarrow> ('a option \<times> 'q) result" where
  "step x q = (case x of
     Enq v \<Rightarrow> bind_result (enq q v) (\<lambda>(n, q'). Inr (None, q'))
   | Deq \<Rightarrow> bind_result (deq q undefined) (\<lambda>(n, v, q'). Inr (if n = 1 then Some v else None, q')))"

fun run :: "'a queue_op list \<Rightarrow> 'q \<Rightarrow> ('a option list \<times> 'q) result" where
  "run [] q = Inr ([], q)"
| "run (x # xs) q = bind_result (step x q) (\<lambda>(y, q'). bind_result (run xs q') (\<lambda>(ys, q''). Inr (y # ys, q'')))"

lemma step_simulates:
  assumes "inv q"
  shows "\<exists>q'. step x q = Inr (fst (queue_step (cap q) x (abs q)), q') \<and> inv q' \<and> cap q' = cap q \<and>
    abs q' = snd (queue_step (cap q) x (abs q))"
proof (cases x)
  case (Enq v)
  from enq_law [OF assms, of v] show ?thesis by (auto simp: Enq step_def)
next
  case Deq
  from deq_law [OF assms, of undefined] show ?thesis by (auto simp: Deq step_def split: list.splits)
qed

lemma run_simulates:
  assumes "inv q"
  shows "\<exists>q'. run xs q = Inr (fst (queue_run (cap q) xs (abs q)), q') \<and> inv q' \<and>
    abs q' = snd (queue_run (cap q) xs (abs q))"
  using assms
proof (induction xs arbitrary: q)
  case (Cons x xs)
  from step_simulates [OF Cons.prems, of x] obtain q' where
    q': "step x q = Inr (fst (queue_step (cap q) x (abs q)), q')" "inv q'" "cap q' = cap q"
      "abs q' = snd (queue_step (cap q) x (abs q))" by blast
  from Cons.IH [OF q'(2)] q' show ?case by (auto simp: Let_def split_beta)
qed simp

end

section \<open>The ring is a bounded queue\<close>

definition ring_ok :: "ring \<Rightarrow> bool" where
  "ring_ok r \<longleftrightarrow> 1 \<le> ring_size r \<and> ring_size r \<le> 2 ^ 30 \<and> length (buffer r) = nat (ring_size r) \<and>
     0 \<le> front r \<and> front r < ring_size r \<and> 0 \<le> rear r \<and> rear r < ring_size r"

definition ring_count :: "ring \<Rightarrow> nat" where
  "ring_count r = nat ((rear r - front r) mod ring_size r)"

definition ring_list :: "ring \<Rightarrow> u8 list" where
  "ring_list r = map (\<lambda>i. buffer r ! nat ((front r + int i) mod ring_size r)) [0..<ring_count r]"

definition ring_cap :: "ring \<Rightarrow> nat" where
  "ring_cap r = nat (ring_size r - 1)"

lemma c_rem_pos: "0 \<le> a \<Longrightarrow> 0 < b \<Longrightarrow> c_rem a b = Inr (a mod b)"
  by (auto simp: c_rem_def sgn_if)

lemma ring_full_eq: "ring_ok r \<Longrightarrow> ring_full r = Inr ((rear r + 1) mod ring_size r = front r)"
  by (simp add: ring_full_def ring_ok_def c_rem_pos)

lemma length_ring_list [simp]: "length (ring_list r) = ring_count r"
  by (simp add: ring_list_def)

lemma mod_cases:
  fixes a n :: int
  assumes "- n \<le> a" "a < 2 * n"
  shows "a mod n = (if a < 0 then a + n else if a < n then a else a - n)"
proof -
  consider "a < 0" | "0 \<le> a" "a < n" | "n \<le> a" by linarith
  then show ?thesis
  proof cases
    case 1
    have "a mod n = (a + n) mod n" by simp
    also have "\<dots> = a + n" using 1 assms by (intro mod_pos_pos_trivial) auto
    finally show ?thesis using 1 by simp
  next
    case 3
    have "a mod n = (a - n) mod n" by simp
    also have "\<dots> = a - n" using 3 assms by (intro mod_pos_pos_trivial) auto
    finally show ?thesis using 3 assms by simp
  qed (use assms in simp)
qed

lemma ring_count_eq:
  assumes "ring_ok r"
  shows "int (ring_count r) = (if front r \<le> rear r then rear r - front r else rear r - front r + ring_size r)"
  using assms mod_cases [of "ring_size r" "rear r - front r"] by (auto simp: ring_count_def ring_ok_def)

lemma ring_index:
  assumes "ring_ok r" "i \<le> ring_count r"
  shows "(front r + int i) mod ring_size r =
    (if front r + int i < ring_size r then front r + int i else front r + int i - ring_size r)"
proof -
  have "front r + int i < 2 * ring_size r"
    using assms ring_count_eq [OF assms(1)] by (auto simp: ring_ok_def split: if_splits)
  then show ?thesis
    using assms(1) mod_cases [of "ring_size r" "front r + int i"] by (auto simp: ring_ok_def)
qed

lemma ring_full_iff: "ring_ok r \<Longrightarrow> (rear r + 1) mod ring_size r = front r \<longleftrightarrow> ring_count r = ring_cap r"
  using ring_count_eq [of r] mod_cases [of "ring_size r" "rear r + 1"]
  by (auto simp: ring_ok_def ring_cap_def split: if_splits)

lemma ring_count_le: "ring_ok r \<Longrightarrow> ring_count r \<le> ring_cap r"
  using ring_count_eq [of r] by (auto simp: ring_ok_def ring_cap_def split: if_splits)

lemma ring_empty_iff: "ring_ok r \<Longrightarrow> ring_empty r \<longleftrightarrow> ring_count r = 0"
  using ring_count_eq [of r] by (auto simp: ring_ok_def ring_empty_def split: if_splits)

definition ring_put :: "ring \<Rightarrow> u8 \<Rightarrow> ring" where
  "ring_put r v = r\<lparr>buffer := (buffer r)[nat (rear r) := v], rear := (rear r + 1) mod ring_size r\<rparr>"

definition ring_drop :: "ring \<Rightarrow> ring" where
  "ring_drop r = r\<lparr>front := (front r + 1) mod ring_size r\<rparr>"

lemma ring_put_ok:
  assumes ok: "ring_ok r" and room: "ring_count r < ring_cap r"
  shows "ring_ok (ring_put r v)" "ring_count (ring_put r v) = Suc (ring_count r)"
    "ring_list (ring_put r v) = ring_list r @ [v]" "ring_cap (ring_put r v) = ring_cap r"
proof -
  let ?r = "ring_put r v"
  have m: "(rear r + 1) mod ring_size r = (if rear r + 1 < ring_size r then rear r + 1 else 0)"
    using ok mod_cases [of "ring_size r" "rear r + 1"] by (auto simp: ring_ok_def)
  show ok': "ring_ok ?r" using ok m by (auto simp: ring_ok_def ring_put_def)
  show cnt: "ring_count ?r = Suc (ring_count r)"
    using ring_count_eq [OF ok'] ring_count_eq [OF ok] ok room m
    by (auto simp: ring_put_def ring_ok_def ring_cap_def split: if_splits)
  show "ring_cap ?r = ring_cap r" by (simp add: ring_cap_def ring_put_def)
  show "ring_list ?r = ring_list r @ [v]"
  proof (rule nth_equalityI)
    show "length (ring_list ?r) = length (ring_list r @ [v])" by (simp add: cnt)
    fix i assume "i < length (ring_list ?r)"
    then have i: "i \<le> ring_count r" by (simp add: cnt)
    let ?k = "(front r + int i) mod ring_size r"
    have k: "ring_list ?r ! i = (buffer r)[nat (rear r) := v] ! nat ?k"
      using i cnt by (simp add: ring_list_def ring_put_def del: upt_Suc)
    have rear: "?k = rear r \<longleftrightarrow> i = ring_count r"
      using ring_index [OF ok i] ring_count_eq [OF ok] i ok by (auto simp: ring_ok_def split: if_splits)
    have rng: "nat ?k < length (buffer r)" using ok by (simp add: ring_ok_def)
    show "ring_list ?r ! i = (ring_list r @ [v]) ! i"
    proof (cases "i = ring_count r")
      case True
      then show ?thesis using k rear rng by (simp add: nth_append)
    next
      case False
      have "nat ?k \<noteq> nat (rear r)" using False rear ok by (auto simp: ring_ok_def nat_eq_iff)
      then show ?thesis using False i k by (simp add: nth_append ring_list_def)
    qed
  qed
qed

lemma ring_drop_ok:
  assumes ok: "ring_ok r" and ne: "0 < ring_count r"
  shows "ring_ok (ring_drop r)" "ring_list (ring_drop r) = tl (ring_list r)" "ring_cap (ring_drop r) = ring_cap r"
    "hd (ring_list r) = buffer r ! nat (front r)" "ring_count (ring_drop r) = ring_count r - 1"
proof -
  let ?r = "ring_drop r"
  have m: "(front r + 1) mod ring_size r = (if front r + 1 < ring_size r then front r + 1 else 0)"
    using ok mod_cases [of "ring_size r" "front r + 1"] by (auto simp: ring_ok_def)
  show ok': "ring_ok ?r" using ok m by (auto simp: ring_ok_def ring_drop_def)
  show cnt: "ring_count ?r = ring_count r - 1"
    using ring_count_eq [OF ok'] ring_count_eq [OF ok] ok ne m
    by (auto simp: ring_drop_def ring_ok_def split: if_splits)
  show "ring_cap ?r = ring_cap r" by (simp add: ring_cap_def ring_drop_def)
  obtain c where c: "ring_count r = Suc c" using ne by (cases "ring_count r") auto
  show "hd (ring_list r) = buffer r ! nat (front r)"
    using ok c by (simp add: ring_list_def upt_conv_Cons ring_ok_def del: upt_Suc)
  show "ring_list ?r = tl (ring_list r)"
  proof (rule nth_equalityI)
    show "length (ring_list ?r) = length (tl (ring_list r))" by (simp add: cnt)
    fix i assume "i < length (ring_list ?r)"
    then have i: "Suc i < ring_count r" by (simp add: cnt)
    have "((front r + 1) mod ring_size r + int i) mod ring_size r = (front r + int (Suc i)) mod ring_size r"
      by (simp add: mod_simps algebra_simps)
    then show "ring_list ?r ! i = tl (ring_list r) ! i"
      using i cnt nth_upt [of 0 i "ring_count r - Suc 0"] by (simp add: nth_tl ring_list_def ring_drop_def)
  qed
qed

lemma write_ring_loop_step:
  assumes ok: "ring_ok r" and b: "0 \<le> j" "j < int (length bs)" "0 < left"
  shows "write_ring_loop r bs left j =
    (if ring_count r < ring_cap r then write_ring_loop (ring_put r (bs ! nat j)) bs (left - 1) (j + 1)
     else Inr (j, r))"
proof -
  have full: "ring_full r = Inr (ring_count r = ring_cap r)" using ok by (simp add: ring_full_eq ring_full_iff)
  have "ring_count r < ring_cap r \<longleftrightarrow> ring_count r \<noteq> ring_cap r" using ring_count_le [OF ok] by auto
  then show ?thesis
    using b ok full
    by (subst write_ring_loop.simps)
      (simp add: get_byte_def set_byte_def c_rem_pos ring_ok_def ring_put_def)
qed

lemma write_ring_loop_spec:
  assumes "ring_ok r" "0 \<le> j" "j + left = int (length bs)" "0 \<le> left"
  shows "\<exists>r'. write_ring_loop r bs left j = Inr (j + min left (int (ring_cap r - ring_count r)), r') \<and>
    ring_ok r' \<and> ring_cap r' = ring_cap r \<and>
    ring_list r' = ring_list r @ take (ring_cap r - ring_count r) (drop (nat j) bs)"
  using assms
proof (induction "nat left" arbitrary: r j left)
  case 0
  then have "left = 0" by simp
  with 0 show ?case by (subst write_ring_loop.simps) simp
next
  case (Suc n)
  then have l: "0 < left" by simp
  have j: "j < int (length bs)" using Suc.prems l by simp
  show ?case
  proof (cases "ring_count r < ring_cap r")
    case False
    then show ?thesis
      using write_ring_loop_step [OF Suc.prems(1,2) j l] Suc.prems(1,4) by simp
  next
    case True
    note put = ring_put_ok [OF Suc.prems(1) True, of "bs ! nat j"]
    have "n = nat (left - 1)" "j + 1 + (left - 1) = int (length bs)" "0 \<le> left - 1" "0 \<le> j + 1"
      using Suc.hyps(2) Suc.prems l by auto
    from Suc.hyps(1) [OF this(1) put(1) this(4,2,3)] obtain r' where
      r': "write_ring_loop (ring_put r (bs ! nat j)) bs (left - 1) (j + 1) =
         Inr (j + 1 + min (left - 1) (int (ring_cap r - Suc (ring_count r))), r')"
      "ring_ok r'" "ring_cap r' = ring_cap r"
      "ring_list r' = ring_list r @ [bs ! nat j] @ take (ring_cap r - Suc (ring_count r)) (drop (nat (j + 1)) bs)"
      unfolding put by auto
    have d: "drop (nat j) bs = bs ! nat j # drop (nat (j + 1)) bs"
      using Suc.prems(2) j by (simp add: Cons_nth_drop_Suc nat_add_distrib)
    obtain m where m: "ring_cap r - ring_count r = Suc m" "ring_cap r - Suc (ring_count r) = m"
      using True by (cases "ring_cap r - ring_count r") auto
    show ?thesis
      using r' True write_ring_loop_step [OF Suc.prems(1,2) j l]
      by (simp add: d m min_def)
  qed
qed

lemma read_ring_loop_step:
  assumes ok: "ring_ok r" and b: "0 \<le> j" "j < int (length bs)" "0 < left"
  shows "read_ring_loop r bs left j =
    (if ring_count r = 0 then Inr (j, bs, r)
     else read_ring_loop (ring_drop r) (bs[nat j := hd (ring_list r)]) (left - 1) (j + 1))"
  using b ok ring_empty_iff [OF ok] ring_drop_ok(4) [OF ok]
  by (subst read_ring_loop.simps) (auto simp: get_byte_def set_byte_def c_rem_pos ring_ok_def ring_drop_def)

lemma read_ring_loop_spec:
  assumes "ring_ok r" "0 \<le> j" "j + left = int (length bs)" "0 \<le> left"
  shows "\<exists>r'. read_ring_loop r bs left j =
      Inr (j + min left (int (ring_count r)),
        take (nat j) bs @ take (nat left) (ring_list r) @ drop (nat j + ring_count r) bs, r') \<and>
    ring_ok r' \<and> ring_cap r' = ring_cap r \<and> ring_list r' = drop (nat left) (ring_list r)"
  using assms
proof (induction "nat left" arbitrary: r j left bs)
  case 0
  then have l0: "left = 0" by simp
  then have "length bs = nat j" using 0 by simp
  with 0 l0 show ?case by (subst read_ring_loop.simps) simp
next
  case (Suc n)
  then have l: "0 < left" by simp
  have j: "j < int (length bs)" using Suc.prems l by simp
  show ?case
  proof (cases "ring_count r = 0")
    case True
    then have "ring_list r = []" by (simp add: ring_list_def)
    then show ?thesis
      using True read_ring_loop_step [OF Suc.prems(1,2) j l] Suc.prems by simp
  next
    case False
    then have ne: "0 < ring_count r" by simp
    note dr = ring_drop_ok [OF Suc.prems(1) ne]
    let ?bs = "bs[nat j := hd (ring_list r)]"
    have nl: "n = nat (left - 1)" "nat left = Suc n" using Suc.hyps(2) l by auto
    have "j + 1 + (left - 1) = int (length ?bs)" "0 \<le> left - 1" "0 \<le> j + 1"
      using Suc.prems l by auto
    from Suc.hyps(1) [OF nl(1) dr(1) this(3,1,2)] obtain r' where
      r': "read_ring_loop (ring_drop r) ?bs (left - 1) (j + 1) =
         Inr (j + 1 + min (left - 1) (int (ring_count r - 1)),
           take (nat (j + 1)) ?bs @ take n (tl (ring_list r)) @ drop (nat (j + 1) + (ring_count r - 1)) ?bs, r')"
      "ring_ok r'" "ring_cap r' = ring_cap r" "ring_list r' = drop n (tl (ring_list r))"
      unfolding dr nl(1) [symmetric] by blast
    obtain x xs where x: "ring_list r = x # xs" using ne length_ring_list [of r] by (cases "ring_list r") auto
    have lj: "nat j < length bs" using Suc.prems(2) j by simp
    have tk: "take (nat (j + 1)) ?bs = take (nat j) bs @ [x]"
      using lj Suc.prems(2) by (simp add: nat_add_distrib take_Suc_conv_app_nth x)
    have dp: "drop (nat (j + 1) + (ring_count r - 1)) ?bs = drop (nat j + ring_count r) bs"
      using ne Suc.prems(2) by (simp add: nat_add_distrib)
    show ?thesis
      using r' False read_ring_loop_step [OF Suc.prems(1,2) j l] ne
      unfolding tk dp by (simp add: nl(2) x min_def)
  qed
qed

lemma ring_enqueue_law:
  assumes "ring_ok r"
  shows "\<exists>r'. ring_enqueue r v = Inr (if length (ring_list r) < ring_cap r then 1 else 0, r') \<and> ring_ok r' \<and>
    ring_cap r' = ring_cap r \<and> ring_list r' = (if length (ring_list r) < ring_cap r then ring_list r @ [v] else ring_list r)"
proof -
  from write_ring_loop_spec [OF assms, of 0 1 "[v]"] obtain r' where
    "write_ring_loop r [v] 1 0 = Inr (0 + min 1 (int (ring_cap r - ring_count r)), r')"
    "ring_ok r'" "ring_cap r' = ring_cap r" "ring_list r' = ring_list r @ take (ring_cap r - ring_count r) (drop (nat 0) [v])"
    by auto
  moreover have "take n [v] = (if n = 0 then [] else [v])" for n by (cases n) auto
  ultimately show ?thesis by (auto simp: ring_enqueue_def write_ring_def)
qed

lemma ring_dequeue_law:
  assumes "ring_ok r"
  shows "\<exists>r'. ring_dequeue r old =
      Inr (if ring_list r = [] then 0 else 1, if ring_list r = [] then old else hd (ring_list r), r') \<and>
    ring_ok r' \<and> ring_cap r' = ring_cap r \<and> ring_list r' = tl (ring_list r)"
proof -
  from read_ring_loop_spec [OF assms, of 0 1 "[old]"] obtain r' where
    r': "read_ring_loop r [old] 1 0 =
      Inr (0 + min 1 (int (ring_count r)), take (nat 1) (ring_list r) @ drop (ring_count r) [old], r')"
    "ring_ok r'" "ring_cap r' = ring_cap r" "ring_list r' = drop (nat 1) (ring_list r)" by auto
  show ?thesis
  proof (cases "ring_list r")
    case Nil
    then show ?thesis using r' length_ring_list [of r] by (simp add: ring_dequeue_def read_ring_def)
  next
    case (Cons x xs)
    then have "0 < ring_count r" using length_ring_list [of r] by simp
    then show ?thesis using r' Cons by (simp add: ring_dequeue_def read_ring_def)
  qed
qed

interpretation scan: bounded_queue ring_ok ring_list ring_cap ring_enqueue ring_dequeue
  by unfold_locales (rule ring_enqueue_law ring_dequeue_law; assumption)+

section \<open>Main properties\<close>

text \<open>A client's view of the ring: any sequence of enqueues and dequeues.\<close>

definition ring_op :: "u8 queue_op \<Rightarrow> ring \<Rightarrow> (u8 option \<times> ring) result" where
  "ring_op x r = (case x of
     Enq v \<Rightarrow> bind_result (ring_enqueue r v) (\<lambda>(n, r'). Inr (None, r'))
   | Deq \<Rightarrow> bind_result (ring_dequeue r undefined) (\<lambda>(n, v, r'). Inr (if n = 1 then Some v else None, r')))"

fun ring_ops :: "u8 queue_op list \<Rightarrow> ring \<Rightarrow> (u8 option list \<times> ring) result" where
  "ring_ops [] r = Inr ([], r)"
| "ring_ops (x # xs) r =
     bind_result (ring_op x r) (\<lambda>(y, r'). bind_result (ring_ops xs r') (\<lambda>(ys, r''). Inr (y # ys, r'')))"

lemma ring_ops_eq_run: "ring_ops xs r = scan.run xs r"
proof (induction xs arbitrary: r)
  case (Cons x xs)
  have "ring_op x r = scan.step x r" by (simp add: ring_op_def scan.step_def)
  with Cons.IH show ?case by simp
qed simp

text \<open>
  C21 (ring). Any interleaving of \<open>ring_enqueue\<close> and \<open>ring_dequeue\<close> on a well-formed ring returns, keeps
  the ring well formed, and yields exactly the values of a first-in first-out queue bounded by
  \<open>ring_size - 1\<close>: bytes come out in the order they went in, and an enqueue on a full ring is dropped.
\<close>

theorem ring_refines_queue:
  assumes "ring_ok r"
  shows "\<exists>r'. ring_ops xs r = Inr (fst (queue_run (ring_cap r) xs (ring_list r)), r') \<and> ring_ok r' \<and>
    ring_list r' = snd (queue_run (ring_cap r) xs (ring_list r))"
  using scan.run_simulates [OF assms, of xs] by (simp add: ring_ops_eq_run)

definition sample_ring :: ring where
  "sample_ring = \<lparr>ring_size = 3, front = 2, rear = 0, buffer = [0, 0, 0x1e]\<rparr>"

theorem ring_refines_queue_witness:
  "\<exists>r'. ring_ops [Enq 0x30, Enq 0x2e, Deq, Deq, Deq] sample_ring = Inr ([None, None, Some 0x1e, Some 0x30, None], r') \<and> ring_ok r'"
proof -
  have "ring_ok sample_ring" by (simp add: ring_ok_def sample_ring_def)
  moreover have "ring_list sample_ring = [0x1e]" "ring_cap sample_ring = 2"
    by (simp_all add: ring_list_def ring_count_def ring_cap_def sample_ring_def)
  ultimately show ?thesis
    using ring_refines_queue [of sample_ring "[Enq 0x30, Enq 0x2e, Deq, Deq, Deq]"] by (auto simp: Let_def)
qed

text \<open>
  \<open>write_ring\<close> appends as many of the given bytes as fit and returns their number;
  \<open>read_ring\<close> then hands back the oldest bytes in order, so a block written to an empty ring with enough
  room is read back unchanged.
\<close>

lemma ring_block_roundtrip:
  assumes "ring_ok r" "ring_list r = []" "length bs \<le> ring_cap r" "length dst = length bs"
  shows "\<exists>r1 r2. write_ring r bs (int (length bs)) = Inr (int (length bs), r1) \<and> ring_list r1 = bs \<and>
    ring_length r1 = Inr (int (length bs)) \<and>
    read_ring r1 dst (int (length bs)) = Inr (int (length bs), bs, r2) \<and> ring_ok r2 \<and> ring_list r2 = []"
proof -
  have c0: "ring_count r = 0" using assms(2) length_ring_list [of r] by simp
  from write_ring_loop_spec [OF assms(1), of 0 "int (length bs)" bs] obtain r1 where
    w: "write_ring_loop r bs (int (length bs)) 0 = Inr (int (length bs), r1)" and
    r1: "ring_ok r1" "ring_cap r1 = ring_cap r" "ring_list r1 = bs"
    using assms(2,3) c0 by (auto simp: min_def)
  have c1: "ring_count r1 = length bs" using r1(3) length_ring_list [of r1] by simp
  have "int (ring_count r1) = (rear r1 + ring_size r1 - front r1) mod ring_size r1"
    using r1(1) ring_count_eq [OF r1(1)] mod_cases [of "ring_size r1" "rear r1 + ring_size r1 - front r1"]
    by (auto simp: ring_ok_def)
  then have len: "ring_length r1 = Inr (int (length bs))"
    using r1(1) c1 by (simp add: ring_length_def ring_ok_def c_rem_pos)
  from read_ring_loop_spec [OF r1(1), of 0 "int (length bs)" dst] obtain r2 where
    "read_ring_loop r1 dst (int (length bs)) 0 = Inr (int (length bs), bs, r2)" "ring_ok r2" "ring_list r2 = []"
    using assms(4) c1 r1(3) by auto
  with w r1(3) len show ?thesis by (auto simp: write_ring_def read_ring_def)
qed

theorem ring_block_roundtrip_witness:
  "\<exists>r1 r2. write_ring \<lparr>ring_size = 4, front = 3, rear = 3, buffer = [0, 0, 0, 0]\<rparr> [1, 2] 2 = Inr (2, r1) \<and>
     read_ring r1 [9, 9] 2 = Inr (2, [1, 2], r2)"
proof -
  let ?r = "\<lparr>ring_size = 4, front = 3, rear = 3, buffer = [0, 0, 0, 0]\<rparr>"
  have "ring_ok ?r" "ring_list ?r = []" "length [1, 2 :: u8] \<le> ring_cap ?r"
    by (simp_all add: ring_ok_def ring_list_def ring_count_def ring_cap_def)
  from ring_block_roundtrip [OF this, of "[9, 9]"] show ?thesis by auto
qed

end
