(* ===== verification/Sort_Search.thy ===== *)
theory Sort_Search
  imports Zelda_Prelude "HOL-Library.Multiset"
begin

text \<open>
  The array macros \<open>SORT\<close> (\<open>lib64/include/sort.h\<close>, a bubble sort) and \<open>SEARCH\<close>
  (\<open>lib64/include/search.h\<close>, a binary search that also probes both ends of its interval).  They are
  parameterised by a comparison function; the comparison of MMIO regions can fail an assertion, so a
  comparison is a fallible operation here.  An array of \<open>num\<close> elements is a list of that length, and
  the pointer \<open>SEARCH\<close> yields is an optional index.
\<close>

section \<open>The macros\<close>

type_synonym 'a compare = "'a \<Rightarrow> 'a \<Rightarrow> int result"

definition swap_elems :: "'a list \<Rightarrow> nat \<Rightarrow> 'a list" where
  "swap_elems xs i = (let tmp = xs ! i in (xs[i := xs ! (i + 1)])[i + 1 := tmp])"

function sort_inner :: "'a compare \<Rightarrow> nat \<Rightarrow> nat \<Rightarrow> 'a list \<Rightarrow> 'a list result" where
  "sort_inner cmp idx_in idx_out xs =
     (if idx_in < idx_out
      then bind_result (cmp (xs ! idx_in) (xs ! (idx_in + 1))) (\<lambda>c.
        sort_inner cmp (idx_in + 1) idx_out (if c > 0 then swap_elems xs idx_in else xs))
      else Inr xs)"
  by pat_completeness auto
termination by (relation "measure (\<lambda>(cmp, i, n, xs). n - i)") simp_all

fun sort_outer :: "'a compare \<Rightarrow> nat \<Rightarrow> 'a list \<Rightarrow> 'a list result" where
  "sort_outer cmp 0 xs = Inr xs"
| "sort_outer cmp (Suc n) xs = bind_result (sort_inner cmp 0 (Suc n) xs) (\<lambda>ys. sort_outer cmp n ys)"

definition SORT :: "'a compare \<Rightarrow> 'a list \<Rightarrow> 'a list result" where
  "SORT cmp xs = sort_outer cmp (length xs - 1) xs"

function search_loop :: "'a compare \<Rightarrow> 'a list \<Rightarrow> 'a \<Rightarrow> int \<Rightarrow> int \<Rightarrow> nat option result" where
  "search_loop cmp xs target idx_low idx_high =
     (if idx_low \<le> idx_high
      then bind_result (cmp target (xs ! nat idx_low)) (\<lambda>c_low.
        if c_low = 0 then Inr (Some (nat idx_low)) else
        bind_result (cmp target (xs ! nat idx_high)) (\<lambda>c_high.
        if c_high = 0 then Inr (Some (nat idx_high)) else
        let idx_mid = (idx_low + idx_high) div 2 in
        if idx_mid = idx_low \<or> idx_mid = idx_high then Inr None else
        bind_result (cmp target (xs ! nat idx_mid)) (\<lambda>c_mid.
        if c_mid < 0 then search_loop cmp xs target idx_low idx_mid
        else search_loop cmp xs target idx_mid idx_high)))
      else Inr None)"
  by pat_completeness auto
termination
  by (relation "measure (\<lambda>(cmp, xs, target, low, high). nat (high - low))") auto

definition SEARCH :: "'a compare \<Rightarrow> 'a list \<Rightarrow> 'a \<Rightarrow> nat option result" where
  "SEARCH cmp xs target = search_loop cmp xs target 0 (int (length xs) - 1)"

declare sort_inner.simps [simp del] search_loop.simps [simp del]

section \<open>Sorting\<close>

text \<open>On the elements of \<open>A\<close> the comparison succeeds and is a total preorder.\<close>

definition compares :: "'a compare \<Rightarrow> 'a set \<Rightarrow> ('a \<Rightarrow> 'a \<Rightarrow> bool) \<Rightarrow> bool" where
  "compares cmp A le \<longleftrightarrow>
     (\<forall>x \<in> A. \<forall>y \<in> A. \<exists>c. cmp x y = Inr c \<and> (c \<le> 0 \<longleftrightarrow> le x y)) \<and>
     (\<forall>x \<in> A. \<forall>y \<in> A. le x y \<or> le y x) \<and>
     (\<forall>x \<in> A. \<forall>y \<in> A. \<forall>z \<in> A. le x y \<longrightarrow> le y z \<longrightarrow> le x z)"

lemma comparesD:
  assumes "compares cmp A le" "x \<in> A" "y \<in> A"
  obtains c where "cmp x y = Inr c" "c \<le> 0 \<longleftrightarrow> le x y"
  using assms unfolding compares_def by blast

lemma compares_total: "compares cmp A le \<Longrightarrow> x \<in> A \<Longrightarrow> y \<in> A \<Longrightarrow> le x y \<or> le y x"
  and compares_trans: "compares cmp A le \<Longrightarrow> x \<in> A \<Longrightarrow> y \<in> A \<Longrightarrow> z \<in> A \<Longrightarrow> le x y \<Longrightarrow> le y z \<Longrightarrow> le x z"
  unfolding compares_def by blast+

lemma compares_mono: "compares cmp A le \<Longrightarrow> B \<subseteq> A \<Longrightarrow> compares cmp B le"
  unfolding compares_def by blast

lemma swap_elems_props:
  assumes "i + 1 < length xs"
  shows "length (swap_elems xs i) = length xs" "mset (swap_elems xs i) = mset xs"
    "swap_elems xs i ! j = (if j = i then xs ! (i + 1) else if j = i + 1 then xs ! i else xs ! j)"
  using assms mset_swap [of "i + 1" xs i] by (auto simp: swap_elems_def Let_def nth_list_update)

lemma sort_inner_spec:
  assumes cp: "compares cmp (set xs) le" and n: "n < length xs" "i \<le> n"
    and top: "\<forall>j \<le> i. le (xs ! j) (xs ! i)"
    and upper: "\<forall>k. n < k \<longrightarrow> k < length xs \<longrightarrow> (\<forall>j < k. le (xs ! j) (xs ! k))"
  shows "\<exists>ys. sort_inner cmp i n xs = Inr ys \<and> mset ys = mset xs \<and> length ys = length xs \<and>
    (\<forall>k. n \<le> k \<longrightarrow> k < length ys \<longrightarrow> (\<forall>j < k. le (ys ! j) (ys ! k)))"
  using assms
proof (induction "n - i" arbitrary: i xs)
  case 0
  then have "i = n" by simp
  with 0 show ?case
    by (subst sort_inner.simps) (auto simp: le_less)
next
  case (Suc d)
  then have lt: "i < n" by simp
  have i1: "i + 1 < length xs" using lt Suc.prems(2) by simp
  have mem: "xs ! i \<in> set xs" "xs ! (i + 1) \<in> set xs" using i1 by simp_all
  obtain c where c: "cmp (xs ! i) (xs ! (i + 1)) = Inr c" "c \<le> 0 \<longleftrightarrow> le (xs ! i) (xs ! (i + 1))"
    by (rule comparesD [OF Suc.prems(1) mem])
  let ?ys = "if c > 0 then swap_elems xs i else xs"
  note sw = swap_elems_props [OF i1]
  have ms: "mset ?ys = mset xs" "length ?ys = length xs" using sw by simp_all
  then have st: "set ?ys = set xs" by (metis mset_eq_setD)
  have step: "sort_inner cmp i n xs = sort_inner cmp (i + 1) n ?ys"
    using lt c(1) by (subst sort_inner.simps) simp
  have refl: "le x x" if "x \<in> set xs" for x using compares_total [OF Suc.prems(1)] that by blast
  have top': "\<forall>j \<le> i + 1. le (?ys ! j) (?ys ! (i + 1))"
  proof (intro allI impI)
    fix j assume j: "j \<le> i + 1"
    have nj: "xs ! k \<in> set xs" if "k \<le> i + 1" for k using that i1 by simp
    show "le (?ys ! j) (?ys ! (i + 1))"
    proof (cases "c > 0")
      case True
      have gt: "le (xs ! (i + 1)) (xs ! i)"
        using compares_total [OF Suc.prems(1) mem] c(2) True by auto
      show ?thesis using True j gt Suc.prems(4) refl [OF mem(1)] by (auto simp: sw(3))
    next
      case False
      then have "le (xs ! i) (xs ! (i + 1))" using c(2) by simp
      then have "le (xs ! j) (xs ! (i + 1))" if "j \<le> i"
        using compares_trans [OF Suc.prems(1) nj [of j] mem] Suc.prems(4) that by simp
      then show ?thesis using False j refl [OF mem(2)] by (cases "j = i + 1") auto
    qed
  qed
  have upper': "\<forall>k. n < k \<longrightarrow> k < length ?ys \<longrightarrow> (\<forall>j < k. le (?ys ! j) (?ys ! k))"
  proof (intro allI impI)
    fix k j assume k: "n < k" "k < length ?ys" "j < k"
    have "?ys ! k = xs ! k" using k lt by (simp add: sw(3))
    moreover have "\<exists>j' < k. ?ys ! j = xs ! j'"
    proof (cases "c > 0 \<and> (j = i \<or> j = i + 1)")
      case True
      then show ?thesis using k lt by (intro exI [of _ "if j = i then i + 1 else i"]) (auto simp: sw(3))
    next
      case False
      then show ?thesis using k by (intro exI [of _ j]) (auto simp: sw(3))
    qed
    ultimately show "le (?ys ! j) (?ys ! k)" using Suc.prems(5) k ms by auto
  qed
  have "d = n - (i + 1)" "n < length ?ys" "i + 1 \<le> n" using Suc.hyps(2) Suc.prems(2) ms lt by auto
  from Suc.hyps(1) [OF this(1) _ this(2,3) top' upper'] Suc.prems(1) st ms step show ?case by simp
qed

lemma sort_outer_spec:
  assumes "compares cmp (set xs) le" "n < length xs \<or> n = 0"
    "\<forall>k. n < k \<longrightarrow> k < length xs \<longrightarrow> (\<forall>j < k. le (xs ! j) (xs ! k))"
  shows "\<exists>ys. sort_outer cmp n xs = Inr ys \<and> mset ys = mset xs \<and> sorted_wrt le ys"
  using assms
proof (induction n arbitrary: xs)
  case 0
  then show ?case by (auto simp: sorted_wrt_iff_nth_less)
next
  case (Suc n)
  then have n: "Suc n < length xs" by simp
  have refl: "le x x" if "x \<in> set xs" for x using compares_total [OF Suc.prems(1)] that by blast
  have "xs ! 0 \<in> set xs" using n by (intro nth_mem) auto
  then have "\<forall>j \<le> 0. le (xs ! j) (xs ! 0)" using refl by simp
  from sort_inner_spec [OF Suc.prems(1) n _ this Suc.prems(3)] obtain ys where
    ys: "sort_inner cmp 0 (Suc n) xs = Inr ys" "mset ys = mset xs" "length ys = length xs"
      "\<forall>k. Suc n \<le> k \<longrightarrow> k < length ys \<longrightarrow> (\<forall>j < k. le (ys ! j) (ys ! k))" by auto
  have "set ys = set xs" using ys(2) by (metis mset_eq_setD)
  with Suc.IH [of ys] ys n Suc.prems(1) show ?case by (auto simp: Suc_le_eq)
qed

lemma SORT_spec:
  assumes "compares cmp (set xs) le"
  shows "\<exists>ys. SORT cmp xs = Inr ys \<and> mset ys = mset xs \<and> sorted_wrt le ys"
proof -
  have "length xs - 1 < length xs \<or> length xs - 1 = 0" by auto
  moreover have "\<forall>k. length xs - 1 < k \<longrightarrow> k < length xs \<longrightarrow> (\<forall>j < k. le (xs ! j) (xs ! k))" by auto
  ultimately show ?thesis unfolding SORT_def by (rule sort_outer_spec [OF assms])
qed

lemma sort_inner_length: "sort_inner cmp i n xs = Inr ys \<Longrightarrow> length ys = length xs"
proof (induction cmp i n xs rule: sort_inner.induct)
  case (1 cmp i n xs)
  have sw: "length (swap_elems xs i) = length xs" by (simp add: swap_elems_def Let_def)
  show ?case
  proof (cases "i < n")
    case True
    with 1(2) obtain c where c: "cmp (xs ! i) (xs ! (i + 1)) = Inr c"
      "sort_inner cmp (i + 1) n (if c > 0 then swap_elems xs i else xs) = Inr ys"
      by (subst (asm) sort_inner.simps) (auto simp: bind_result_eq_Inr)
    from 1(1) [OF True c(2)] sw show ?thesis by (simp split: if_splits)
  next
    case False
    with 1(2) show ?thesis by (subst (asm) sort_inner.simps) simp
  qed
qed

lemma sort_outer_length: "sort_outer cmp n xs = Inr ys \<Longrightarrow> length ys = length xs"
  by (induction n arbitrary: xs) (auto simp: bind_result_eq_Inr dest: sort_inner_length)

section \<open>Searching\<close>

text \<open>The comparison of the target with the elements is defined and falls monotonically.\<close>

definition probes :: "'a compare \<Rightarrow> 'a list \<Rightarrow> 'a \<Rightarrow> (nat \<Rightarrow> int) \<Rightarrow> bool" where
  "probes cmp xs t c \<longleftrightarrow> (\<forall>i < length xs. cmp t (xs ! i) = Inr (c i)) \<and>
     (\<forall>i j. i < j \<longrightarrow> j < length xs \<longrightarrow> (c i < 0 \<longrightarrow> c j < 0) \<and> (c j > 0 \<longrightarrow> c i > 0))"

lemma search_loop_spec:
  assumes p: "probes cmp xs t c" and b: "0 \<le> low" "high < int (length xs)"
    and inside: "(\<exists>i < length xs. c i = 0) \<longrightarrow> (\<exists>i. low \<le> int i \<and> int i \<le> high \<and> c i = 0)"
  shows "\<exists>r. search_loop cmp xs t low high = Inr r \<and>
    (case r of Some i \<Rightarrow> i < length xs \<and> c i = 0 | None \<Rightarrow> \<forall>i < length xs. c i \<noteq> 0)"
  using b inside
proof (induction "nat (high - low)" arbitrary: low high rule: less_induct)
  case less
  show ?case
  proof (cases "low \<le> high")
    case False
    then show ?thesis using less.prems by (subst search_loop.simps) auto
  next
    case True
    have lo: "nat low < length xs" and hi: "nat high < length xs" using True less.prems(1,2) by auto
    have cl: "cmp t (xs ! nat low) = Inr (c (nat low))" and ch: "cmp t (xs ! nat high) = Inr (c (nat high))"
      using p lo hi by (auto simp: probes_def)
    let ?mid = "(low + high) div 2"
    show ?thesis
    proof (cases "c (nat low) = 0 \<or> c (nat high) = 0 \<or> ?mid = low \<or> ?mid = high")
      case stop: True
      have none: "\<forall>i < length xs. c i \<noteq> 0"
        if ne: "c (nat low) \<noteq> 0" "c (nat high) \<noteq> 0" and m: "?mid = low \<or> ?mid = high"
      proof (rule ccontr)
        assume "\<not> (\<forall>i < length xs. c i \<noteq> 0)"
        then obtain i where i: "low \<le> int i" "int i \<le> high" "c i = 0" using less.prems(3) by auto
        have "high \<le> low + 1" using m True by linarith
        with i have "i = nat low \<or> i = nat high" by linarith
        with i(3) ne show False by auto
      qed
      show ?thesis
      proof (cases "c (nat low) = 0 \<or> c (nat high) = 0")
        case True
        then show ?thesis using \<open>low \<le> high\<close> lo hi cl ch by (subst search_loop.simps) auto
      next
        case False
        then show ?thesis using \<open>low \<le> high\<close> stop none cl ch by (subst search_loop.simps) (auto simp: Let_def)
      qed
    next
      case go: False
      have m: "low < ?mid" "?mid < high" using go True by auto
      have mid: "nat ?mid < length xs" using m hi less.prems(1) by auto
      have cm: "cmp t (xs ! nat ?mid) = Inr (c (nat ?mid))" using p mid by (auto simp: probes_def)
      have mono: "i < j \<Longrightarrow> j < length xs \<Longrightarrow> (c i < 0 \<longrightarrow> c j < 0) \<and> (c j > 0 \<longrightarrow> c i > 0)" for i j
        using p by (auto simp: probes_def)
      have step: "search_loop cmp xs t low high =
          (if c (nat ?mid) < 0 then search_loop cmp xs t low ?mid else search_loop cmp xs t ?mid high)"
        using go True cl ch cm by (subst search_loop.simps) (simp add: Let_def)
      show ?thesis
      proof (cases "c (nat ?mid) < 0")
        case neg: True
        have "\<exists>i. low \<le> int i \<and> int i \<le> ?mid \<and> c i = 0" if ex: "\<exists>i < length xs. c i = 0"
        proof -
          obtain i where i: "low \<le> int i" "int i \<le> high" "c i = 0" using ex less.prems(3) by auto
          have "\<not> nat ?mid < i" using mono [of "nat ?mid" i] i neg less.prems(2) by auto
          then have "int i \<le> ?mid" using m less.prems(1) by linarith
          with i show ?thesis by blast
        qed
        with less.hyps [of ?mid low] m less.prems(1,2) step neg show ?thesis by simp
      next
        case nonneg: False
        have "\<exists>i. ?mid \<le> int i \<and> int i \<le> high \<and> c i = 0" if ex: "\<exists>i < length xs. c i = 0"
        proof -
          obtain i where i: "low \<le> int i" "int i \<le> high" "c i = 0" using ex less.prems(3) by auto
          show ?thesis
          proof (cases "c (nat ?mid) = 0")
            case True
            then show ?thesis using m less.prems(1) by (intro exI [of _ "nat ?mid"]) auto
          next
            case False
            have "\<not> i < nat ?mid" using mono [OF _ mid, of i] i False nonneg by auto
            then show ?thesis using i by (intro exI [of _ i]) linarith
          qed
        qed
        with less.hyps [of high ?mid] m less.prems(1,2) step nonneg show ?thesis by simp
      qed
    qed
  qed
qed

lemma SEARCH_spec:
  assumes "probes cmp xs t c"
  shows "\<exists>r. SEARCH cmp xs t = Inr r \<and>
    (case r of Some i \<Rightarrow> i < length xs \<and> c i = 0 | None \<Rightarrow> \<forall>i < length xs. c i \<noteq> 0)"
  unfolding SEARCH_def
proof (rule search_loop_spec [OF assms])
  show "(\<exists>i < length xs. c i = 0) \<longrightarrow> (\<exists>i. 0 \<le> int i \<and> int i \<le> int (length xs) - 1 \<and> c i = 0)" by force
qed simp_all

section \<open>Registries\<close>

text \<open>
  The monitor keeps two sorted arrays of handlers, one for I/O ports and one for MMIO regions.  Both
  promise a partial map from the valid keys to the operation that covers them.
\<close>

locale registry =
  fixes inv :: "'s \<Rightarrow> bool" and key :: "'k \<Rightarrow> bool" and fits :: "'op \<Rightarrow> 's \<Rightarrow> bool" and covers :: "'op \<Rightarrow> 'k \<Rightarrow> bool"
    and lookup :: "'k \<Rightarrow> 's \<Rightarrow> 'op option result" and enter :: "'op \<Rightarrow> 's \<Rightarrow> 's result"
  assumes lookup_law: "inv s \<Longrightarrow> key k \<Longrightarrow> \<exists>r. lookup k s = Inr r"
    and enter_law: "inv s \<Longrightarrow> fits op s \<Longrightarrow> \<exists>s'. enter op s = Inr s' \<and> inv s' \<and>
      (\<forall>k. key k \<longrightarrow> lookup k s' = (if covers op k then Inr (Some op) else lookup k s))"
begin

fun enter_all :: "'op list \<Rightarrow> 's \<Rightarrow> 's result" where
  "enter_all [] s = Inr s"
| "enter_all (x # xs) s = bind_result (enter x s) (enter_all xs)"

fun all_fit :: "'op list \<Rightarrow> 's \<Rightarrow> bool" where
  "all_fit [] s \<longleftrightarrow> True"
| "all_fit (x # xs) s \<longleftrightarrow> fits x s \<and> (\<forall>s'. enter x s = Inr s' \<longrightarrow> all_fit xs s')"

lemma enter_all_law:
  assumes "inv s" "all_fit xs s"
  shows "\<exists>s'. enter_all xs s = Inr s' \<and> inv s' \<and>
    (\<forall>k. key k \<longrightarrow> lookup k s' = (case find (\<lambda>x. covers x k) (rev xs) of Some x \<Rightarrow> Inr (Some x) | None \<Rightarrow> lookup k s))"
  using assms
proof (induction xs arbitrary: s)
  case (Cons x xs)
  from enter_law [OF Cons.prems(1), of x] Cons.prems(2) obtain s1 where
    s1: "enter x s = Inr s1" "inv s1" "\<And>k. key k \<Longrightarrow> lookup k s1 = (if covers x k then Inr (Some x) else lookup k s)" by auto
  from Cons.IH [OF s1(2)] Cons.prems(2) s1(1) obtain s' where
    s': "enter_all xs s1 = Inr s'" "inv s'"
      "\<And>k. key k \<Longrightarrow> lookup k s' = (case find (\<lambda>x. covers x k) (rev xs) of Some x \<Rightarrow> Inr (Some x) | None \<Rightarrow> lookup k s1)" by auto
  have "find P (ys @ [x]) = (case find P ys of Some y \<Rightarrow> Some y | None \<Rightarrow> if P x then Some x else None)" for P ys
    by (induction ys) auto
  with s1 s' show ?case by (auto split: option.splits)
qed simp

end

end
