(* ===== verification/Port_IO.thy ===== *)
theory Port_IO
  imports Sort_Search
begin

text \<open>
  The registry of I/O port handlers, \<open>vm_monitor/vmx_pio.c\<close>: an array kept sorted by port, searched
  by bisection.  The callbacks of \<open>struct portio_operation\<close> are function pointers; the functions the
  devices install are named by the two datatypes below, and the word and double-word callbacks, which
  no device installs and nothing calls, are left out.
\<close>

section \<open>Operations\<close>

datatype inb_callback = Master_pic_inb | Slave_pic_inb | Keyboard_data_inb | Device_serial_inb
datatype outb_callback = Master_pic_outb | Slave_pic_outb | Pit_outb | Device_serial_outb

record portio_operation =
  portid :: u32
  call_inb :: "inb_callback option"
  call_outb :: "outb_callback option"

abbreviation MAX_PORTS_SUPPORTED :: nat where "MAX_PORTS_SUPPORTED \<equiv> 256"

definition port_ops_compare :: "portio_operation compare" where
  "port_ops_compare port1 port2 = Inr (sint (portid port1 - portid port2))"

definition search_portio_callback :: "u32 \<Rightarrow> portio_operation list \<Rightarrow> nat option result" where
  "search_portio_callback port_id ops =
     SEARCH port_ops_compare ops \<lparr>portid = port_id, call_inb = None, call_outb = None\<rparr>"

definition register_pio_operation :: "portio_operation \<Rightarrow> portio_operation list \<Rightarrow> portio_operation list result" where
  "register_pio_operation pio ops =
     bind_result (search_portio_callback (portid pio) ops) (\<lambda>pio_found.
     case pio_found of
       Some i \<Rightarrow> if portid (ops ! i) = portid pio then Inr (ops[i := pio]) else Inl Assertion_failed
     | None \<Rightarrow>
         if \<not> length ops < MAX_PORTS_SUPPORTED then Inl Assertion_failed else
         bind_result (SORT port_ops_compare (ops @ [pio])) (\<lambda>ops'.
         bind_result (search_portio_callback (portid pio) ops') (\<lambda>pio_found.
         case pio_found of
           Some i \<Rightarrow> if portid (ops' ! i) = portid pio then Inr ops' else Inl Assertion_failed
         | None \<Rightarrow> Inl Assertion_failed)))"

section \<open>The registry interface\<close>

definition pio_inv :: "portio_operation list \<Rightarrow> bool" where
  "pio_inv ops \<longleftrightarrow> sorted_wrt (\<lambda>x y. portid x < portid y) ops \<and> length ops \<le> MAX_PORTS_SUPPORTED \<and>
     (\<forall>x \<in> set ops. unat (portid x) < 2 ^ 31)"

definition pio_fits :: "portio_operation \<Rightarrow> portio_operation list \<Rightarrow> bool" where
  "pio_fits op ops \<longleftrightarrow> unat (portid op) < 2 ^ 31 \<and>
     (length ops < MAX_PORTS_SUPPORTED \<or> portid op \<in> portid ` set ops)"

definition pio_key :: "u32 \<Rightarrow> bool" where
  "pio_key k \<longleftrightarrow> unat k < 2 ^ 31"

definition pio_covers :: "portio_operation \<Rightarrow> u32 \<Rightarrow> bool" where
  "pio_covers op k \<longleftrightarrow> portid op = k"

definition pio_lookup :: "u32 \<Rightarrow> portio_operation list \<Rightarrow> portio_operation option result" where
  "pio_lookup k ops = bind_result (search_portio_callback k ops) (\<lambda>r. Inr (map_option (\<lambda>i. ops ! i) r))"

lemma sint_diff_small:
  fixes a b :: u32
  assumes "unat a < 2 ^ 31" "unat b < 2 ^ 31"
  shows "sint (a - b) = uint a - uint b"
proof -
  have "unat a < 2147483648" "unat b < 2147483648" using assms by simp_all
  then have "int (unat a) < 2147483648" "int (unat b) < 2147483648" by linarith+
  then have lt: "uint a < 2147483648" "uint b < 2147483648" by simp_all
  have ge: "0 \<le> uint a" "0 \<le> uint b" by simp_all
  have "sint (a - b) = signed_take_bit 31 (uint a - uint b)"
    using signed_take_bit_take_bit [of 31 32 "uint a - uint b"]
    by (simp add: sint_uint uint_word_ariths take_bit_eq_mod)
  moreover have "- 2147483648 \<le> uint a - uint b" "uint a - uint b < 2147483648" using lt ge by linarith+
  then have "signed_take_bit 31 (uint a - uint b) = uint a - uint b"
    by (intro signed_take_bit_int_eq_self) simp_all
  ultimately show ?thesis by simp
qed

lemma compares_ports:
  "compares port_ops_compare {x. unat (portid x) < 2 ^ 31} (\<lambda>x y. portid x \<le> portid y)"
  by (auto simp: compares_def port_ops_compare_def sint_diff_small word_le_def)

lemma compares_ports_inv:
  "pio_inv ops \<Longrightarrow> unat (portid op) < 2 ^ 31 \<Longrightarrow>
   compares port_ops_compare (set (ops @ [op])) (\<lambda>x y. portid x \<le> portid y)"
  by (rule compares_mono [OF compares_ports]) (auto simp: pio_inv_def)

lemma probes_ports:
  assumes "pio_inv ops" "unat k < 2 ^ 31" "portid t = k"
  shows "probes port_ops_compare ops t (\<lambda>i. uint k - uint (portid (ops ! i)))"
proof -
  have "portid (ops ! i) < portid (ops ! j)" if "i < j" "j < length ops" for i j
    using assms(1) that by (auto simp: pio_inv_def sorted_wrt_iff_nth_less)
  moreover have "unat (portid (ops ! i)) < 2 ^ 31" if "i < length ops" for i
    using assms(1) that by (auto simp: pio_inv_def)
  ultimately show ?thesis
    using assms(2,3) by (fastforce simp: probes_def port_ops_compare_def sint_diff_small word_less_def)
qed

lemma search_portio_spec:
  assumes "pio_inv ops" "unat k < 2 ^ 31"
  obtains (found) i where "search_portio_callback k ops = Inr (Some i)" "i < length ops" "portid (ops ! i) = k"
  | (absent) "search_portio_callback k ops = Inr None" "k \<notin> portid ` set ops"
proof -
  from SEARCH_spec [OF probes_ports [OF assms, of "\<lparr>portid = k, call_inb = None, call_outb = None\<rparr>"]]
  obtain r where r: "search_portio_callback k ops = Inr r"
    "case r of Some i \<Rightarrow> i < length ops \<and> uint k - uint (portid (ops ! i)) = 0
     | None \<Rightarrow> \<forall>i < length ops. uint k - uint (portid (ops ! i)) \<noteq> 0"
    by (auto simp: search_portio_callback_def)
  show thesis
  proof (cases r)
    case None
    then have "k \<noteq> portid (ops ! i)" if "i < length ops" for i using r(2) that by auto
    then have "k \<notin> portid ` set ops" by (metis imageE in_set_conv_nth)
    with None r(1) absent show thesis by blast
  next
    case (Some i)
    then have "i < length ops" "portid (ops ! i) = k" using r(2) by (auto simp: word_uint_eq_iff)
    with Some r(1) found show thesis by blast
  qed
qed

lemma pio_index_unique:
  assumes "pio_inv ops" "x \<in> set ops" "y \<in> set ops" "portid x = portid y"
  shows "x = y"
proof -
  obtain i j where ij: "i < length ops" "j < length ops" "x = ops ! i" "y = ops ! j"
    using assms(2,3) by (auto simp: in_set_conv_nth)
  have "i = j"
    using assms(1,4) ij by (cases i j rule: linorder_cases) (fastforce simp: pio_inv_def sorted_wrt_iff_nth_less)+
  with ij show ?thesis by simp
qed

lemma pio_lookup_Some:
  assumes "pio_inv ops" "x \<in> set ops"
  shows "pio_lookup (portid x) ops = Inr (Some x)"
proof -
  have "unat (portid x) < 2 ^ 31" using assms by (auto simp: pio_inv_def)
  with assms(1) show ?thesis
  proof (cases rule: search_portio_spec)
    case (found i)
    then have "ops ! i = x" using pio_index_unique [OF assms(1) nth_mem assms(2)] by blast
    with found show ?thesis by (simp add: pio_lookup_def)
  next
    case absent
    then show ?thesis using assms(2) by (metis imageI)
  qed
qed

lemma pio_lookup_None:
  assumes "pio_inv ops" "pio_key k" "k \<notin> portid ` set ops"
  shows "pio_lookup k ops = Inr None"
  using assms(1) assms(2) [unfolded pio_key_def]
proof (cases rule: search_portio_spec)
  case (found i)
  then show ?thesis using assms(3) by (metis imageI nth_mem)
qed (simp add: pio_lookup_def)

lemma pio_lookup_transfer:
  assumes "pio_inv ops" "pio_inv ops'" "pio_key k"
    and "\<And>x. x \<in> set ops' \<longleftrightarrow> x = op \<or> x \<in> set ops \<and> portid x \<noteq> portid op"
  shows "pio_lookup k ops' = (if pio_covers op k then Inr (Some op) else pio_lookup k ops)"
proof (cases "pio_covers op k")
  case True
  then show ?thesis using pio_lookup_Some [OF assms(2), of op] assms(4) by (simp add: pio_covers_def)
next
  case False
  show ?thesis
  proof (cases "\<exists>x \<in> set ops. portid x = k")
    case True
    then obtain x where x: "x \<in> set ops" "portid x = k" by blast
    then have "x \<in> set ops'" using False assms(4) by (auto simp: pio_covers_def)
    with x False show ?thesis
      using pio_lookup_Some [OF assms(1)] pio_lookup_Some [OF assms(2)] by auto
  next
    case none: False
    then have "k \<notin> portid ` set ops" "k \<notin> portid ` set ops'"
      using False assms(4) by (auto simp: pio_covers_def image_def)
    then show ?thesis using False pio_lookup_None [OF assms(1,3)] pio_lookup_None [OF assms(2,3)] by simp
  qed
qed

lemma register_update_inv:
  assumes "pio_inv ops" "i < length ops" "portid (ops ! i) = portid op"
  shows "pio_inv (ops[i := op])" "\<And>x. x \<in> set (ops[i := op]) \<longleftrightarrow> x = op \<or> x \<in> set ops \<and> portid x \<noteq> portid op"
proof -
  have nth: "portid (ops[i := op] ! j) = portid (ops ! j)" if "j < length ops" for j
    using that assms(2,3) by (cases "j = i") auto
  have "unat (portid op) < 2 ^ 31" using assms by (metis nth_mem pio_inv_def)
  then show "pio_inv (ops[i := op])"
    using assms nth set_update_subset_insert [of ops i op] by (auto simp: pio_inv_def sorted_wrt_iff_nth_less)
  fix x
  show "x \<in> set (ops[i := op]) \<longleftrightarrow> x = op \<or> x \<in> set ops \<and> portid x \<noteq> portid op"
  proof
    assume "x \<in> set (ops[i := op])"
    then obtain j where j: "j < length ops" "x = ops[i := op] ! j" by (auto simp: in_set_conv_nth)
    show "x = op \<or> x \<in> set ops \<and> portid x \<noteq> portid op"
    proof (cases "j = i")
      case False
      then have "x = ops ! j" using j by simp
      moreover have "portid (ops ! j) \<noteq> portid (ops ! i)"
        using False j(1) assms(1,2)
        by (cases j i rule: linorder_cases) (fastforce simp: pio_inv_def sorted_wrt_iff_nth_less)+
      ultimately show ?thesis using j(1) assms(3) by simp
    qed (use j assms(2) in simp)
  next
    assume "x = op \<or> x \<in> set ops \<and> portid x \<noteq> portid op"
    then show "x \<in> set (ops[i := op])"
    proof
      assume "x = op"
      then show ?thesis using assms(2) by (simp add: set_update_memI)
    next
      assume x: "x \<in> set ops \<and> portid x \<noteq> portid op"
      then obtain j where "j < length ops" "x = ops ! j" by (auto simp: in_set_conv_nth)
      with x assms(3) have "x = ops[i := op] ! j" "j < length (ops[i := op])" by (cases "j = i"; auto)+
      then show ?thesis by (metis nth_mem)
    qed
  qed
qed

lemma register_law:
  assumes inv: "pio_inv ops" and fits: "pio_fits op ops"
  shows "\<exists>ops'. register_pio_operation op ops = Inr ops' \<and> pio_inv ops' \<and>
    (\<forall>k. pio_key k \<longrightarrow> pio_lookup k ops' = (if pio_covers op k then Inr (Some op) else pio_lookup k ops))"
proof -
  have p: "unat (portid op) < 2 ^ 31" using fits by (simp add: pio_fits_def)
  show ?thesis
    using inv p
  proof (cases rule: search_portio_spec)
    case (found i)
    note upd = register_update_inv [OF inv found(2,3)]
    show ?thesis
      using found upd(1) pio_lookup_transfer [OF inv upd(1) _ upd(2)] by (simp add: register_pio_operation_def)
  next
    case absent
    then have len: "length ops < MAX_PORTS_SUPPORTED" using fits by (auto simp: pio_fits_def)
    from SORT_spec [OF compares_ports_inv [OF inv p]] obtain ys where
      ys: "SORT port_ops_compare (ops @ [op]) = Inr ys" "mset ys = mset (ops @ [op])"
        "sorted_wrt (\<lambda>x y. portid x \<le> portid y) ys" by blast
    have st: "set ys = insert op (set ops)" using mset_eq_setD [OF ys(2)] by auto
    have ln: "length ys = Suc (length ops)" using mset_eq_length [OF ys(2)] by simp
    have dist: "distinct (map portid ys)"
    proof -
      have "distinct (map portid ops)"
        unfolding distinct_conv_nth
      proof (intro allI impI)
        fix i j assume "i < length (map portid ops)" "j < length (map portid ops)" "i \<noteq> j"
        then show "map portid ops ! i \<noteq> map portid ops ! j"
          using inv by (cases i j rule: linorder_cases) (fastforce simp: pio_inv_def sorted_wrt_iff_nth_less)+
      qed
      then have "distinct (map portid (ops @ [op]))" using absent(2) by auto
      moreover have "mset (map portid ys) = mset (map portid (ops @ [op]))" using ys(2) by (metis mset_map)
      ultimately show ?thesis using mset_eq_imp_distinct_iff by blast
    qed
    have inv': "pio_inv ys" unfolding pio_inv_def
    proof (intro conjI)
      show "sorted_wrt (\<lambda>x y. portid x < portid y) ys"
        unfolding sorted_wrt_iff_nth_less
      proof (intro allI impI)
        fix i j assume ij: "i < j" "j < length ys"
        then have "portid (ys ! i) \<le> portid (ys ! j)" using ys(3) by (auto simp: sorted_wrt_iff_nth_less)
        moreover have "portid (ys ! i) \<noteq> portid (ys ! j)" using dist ij by (auto simp: distinct_conv_nth)
        ultimately show "portid (ys ! i) < portid (ys ! j)" by simp
      qed
      show "length ys \<le> MAX_PORTS_SUPPORTED" using ln len by simp
      show "\<forall>x \<in> set ys. unat (portid x) < 2 ^ 31" using st inv p by (auto simp: pio_inv_def)
    qed
    have neq: "portid x \<noteq> portid op" if "x \<in> set ops" for x using absent(2) that by (metis imageI)
    have look: "pio_lookup k ys = (if pio_covers op k then Inr (Some op) else pio_lookup k ops)" if "pio_key k" for k
      by (rule pio_lookup_transfer [OF inv inv' that]) (use st neq in auto)
    have "register_pio_operation op ops = Inr ys"
      using inv' p
    proof (cases rule: search_portio_spec)
      case found2: (found i)
      then show ?thesis using absent len ys(1) by (simp add: register_pio_operation_def)
    next
      case absent2: absent
      then show ?thesis using st by auto
    qed
    with inv' look show ?thesis by blast
  qed
qed

lemma register_length: "register_pio_operation op ops = Inr ops' \<Longrightarrow> length ops' \<le> Suc (length ops)"
  by (auto simp: register_pio_operation_def bind_result_eq_Inr SORT_def split: option.splits if_splits
      dest!: sort_outer_length)

interpretation ports: registry pio_inv pio_key pio_fits pio_covers pio_lookup register_pio_operation
proof
  fix ops :: "portio_operation list" and k :: u32
  assume "pio_inv ops" "pio_key k"
  then show "\<exists>r. pio_lookup k ops = Inr r"
    unfolding pio_key_def by (cases rule: search_portio_spec) (simp_all add: pio_lookup_def)
qed (rule register_law)

end
