(* ===== verification/Mmio.thy ===== *)
theory Mmio
  imports Sort_Search
begin

text \<open>
  The registry of memory-mapped I/O regions, \<open>vm_monitor/vmx_mmio.c\<close>: an array of half-open address
  ranges kept sorted, with a comparison that halts on overlapping ranges and answers zero on nested
  ones.  The only callbacks any device installs are those of the video buffer.
\<close>

section \<open>Operations\<close>

datatype mmio_read_callback = Video_buffer_mmio_read
datatype mmio_write_callback = Video_buffer_mmio_write

record mmio_operation =
  addr_low :: u64
  addr_high :: u64
  mmio_read :: "mmio_read_callback option"
  mmio_write :: "mmio_write_callback option"

abbreviation MAX_NR_MMIO_REGIONS :: nat where "MAX_NR_MMIO_REGIONS \<equiv> 256"

definition mmio_operation_compare :: "mmio_operation compare" where
  "mmio_operation_compare mmio1 mmio2 =
     (if \<not> addr_low mmio1 \<le> addr_high mmio1 then Inl Assertion_failed
      else if \<not> addr_low mmio2 \<le> addr_high mmio2 then Inl Assertion_failed
      else if addr_high mmio1 \<le> addr_low mmio2 then Inr (- 1)
      else if addr_low mmio1 \<ge> addr_high mmio2 then Inr 1
      else if addr_low mmio1 \<le> addr_low mmio2 \<and> addr_high mmio1 \<ge> addr_high mmio2 \<or>
              addr_low mmio2 \<le> addr_low mmio1 \<and> addr_high mmio2 \<ge> addr_high mmio1 then Inr 0
      else Inl Assertion_failed)"

definition search_mmio_callback :: "u64 \<Rightarrow> mmio_operation list \<Rightarrow> nat option result" where
  "search_mmio_callback guest_pa ops =
     SEARCH mmio_operation_compare ops
       \<lparr>addr_low = guest_pa, addr_high = guest_pa + 1, mmio_read = None, mmio_write = None\<rparr>"

definition register_mmio_operation :: "mmio_operation \<Rightarrow> mmio_operation list \<Rightarrow> mmio_operation list result" where
  "register_mmio_operation mmio ops =
     bind_result (search_mmio_callback (addr_low mmio) ops) (\<lambda>r.
     if r \<noteq> None then Inl Assertion_failed else
     if \<not> length ops < MAX_NR_MMIO_REGIONS then Inl Assertion_failed else
     bind_result (SORT mmio_operation_compare (ops @ [mmio])) (\<lambda>ops'.
     bind_result (search_mmio_callback (addr_low mmio) ops') (\<lambda>r.
     if r = None then Inl Assertion_failed else Inr ops')))"

section \<open>The registry interface\<close>

text \<open>Non-empty regions in ascending order; the last byte of the address space is no valid key.\<close>

definition mmio_inv :: "mmio_operation list \<Rightarrow> bool" where
  "mmio_inv ops \<longleftrightarrow> sorted_wrt (\<lambda>x y. addr_high x \<le> addr_low y) ops \<and>
     (\<forall>x \<in> set ops. addr_low x < addr_high x) \<and> length ops \<le> MAX_NR_MMIO_REGIONS"

definition mmio_key :: "u64 \<Rightarrow> bool" where
  "mmio_key k \<longleftrightarrow> k < - 1"

definition mmio_covers :: "mmio_operation \<Rightarrow> u64 \<Rightarrow> bool" where
  "mmio_covers op k \<longleftrightarrow> addr_low op \<le> k \<and> k < addr_high op"

definition mmio_fits :: "mmio_operation \<Rightarrow> mmio_operation list \<Rightarrow> bool" where
  "mmio_fits op ops \<longleftrightarrow> addr_low op < addr_high op \<and> length ops < MAX_NR_MMIO_REGIONS \<and>
     (\<forall>x \<in> set ops. addr_high x \<le> addr_low op \<or> addr_high op \<le> addr_low x)"

definition mmio_lookup :: "u64 \<Rightarrow> mmio_operation list \<Rightarrow> mmio_operation option result" where
  "mmio_lookup k ops = bind_result (search_mmio_callback k ops) (\<lambda>r. Inr (map_option (\<lambda>i. ops ! i) r))"

definition mmio_le :: "mmio_operation \<Rightarrow> mmio_operation \<Rightarrow> bool" where
  "mmio_le x y \<longleftrightarrow> x = y \<or> addr_high x \<le> addr_low y"

definition apart :: "mmio_operation set \<Rightarrow> bool" where
  "apart A \<longleftrightarrow> (\<forall>x \<in> A. addr_low x < addr_high x) \<and>
     (\<forall>x \<in> A. \<forall>y \<in> A. x \<noteq> y \<longrightarrow> addr_high x \<le> addr_low y \<or> addr_high y \<le> addr_low x)"

lemma apartD:
  assumes "apart A" "x \<in> A" "y \<in> A"
  shows "addr_low x < addr_high x" "x \<noteq> y \<Longrightarrow> addr_high x \<le> addr_low y \<or> addr_high y \<le> addr_low x"
  using assms unfolding apart_def by blast+

lemma compares_regions:
  assumes "apart A"
  shows "compares mmio_operation_compare A mmio_le"
  unfolding compares_def
proof (intro conjI ballI impI)
  fix x y assume xy: "x \<in> A" "y \<in> A"
  note x = apartD(1) [OF assms xy(1) xy(1)] and y = apartD(1) [OF assms xy(2) xy(2)]
  note d = apartD(2) [OF assms xy]
  show "\<exists>c. mmio_operation_compare x y = Inr c \<and> (c \<le> 0 \<longleftrightarrow> mmio_le x y)"
    using x y d by (cases "x = y") (auto simp: mmio_operation_compare_def mmio_le_def)
  show "mmio_le x y \<or> mmio_le y x" using d by (auto simp: mmio_le_def)
  fix z assume "z \<in> A" "mmio_le x y" "mmio_le y z"
  then show "mmio_le x z" using y by (auto simp: mmio_le_def)
qed

lemma mmio_inv_nth:
  assumes "mmio_inv ops" "j < length ops"
  shows "addr_low (ops ! j) < addr_high (ops ! j)" "i < j \<Longrightarrow> addr_high (ops ! i) \<le> addr_low (ops ! j)"
  using assms by (auto simp: mmio_inv_def sorted_wrt_iff_nth_less)

lemma probes_regions:
  assumes "mmio_inv ops" "mmio_key k" "addr_low t = k" "addr_high t = k + 1"
  shows "probes mmio_operation_compare ops t
    (\<lambda>i. if k < addr_low (ops ! i) then - 1 else if addr_high (ops ! i) \<le> k then 1 else 0)"
proof -
  have k1: "k < k + 1" "k + 1 \<le> y \<longleftrightarrow> k < y" for y
  proof -
    have "unat k + 1 < 18446744073709551616"
      using assms(2) by (simp add: mmio_key_def word_less_nat_alt unsigned_minus_1_eq_mask mask_eq_exp_minus_1)
    then have "unat (k + 1) = unat k + 1" by (simp add: unat_word_ariths)
    then show "k < k + 1" "k + 1 \<le> y \<longleftrightarrow> k < y" by (auto simp: word_less_nat_alt word_le_nat_alt)
  qed
  show ?thesis
    unfolding probes_def
  proof (intro conjI allI impI)
    fix i assume i: "i < length ops"
    show "mmio_operation_compare t (ops ! i) =
        Inr (if k < addr_low (ops ! i) then - 1 else if addr_high (ops ! i) \<le> k then 1 else 0)"
      using mmio_inv_nth(1) [OF assms(1) i] k1(1) assms(3,4)
      by (auto simp: mmio_operation_compare_def k1(2))
  next
    fix i j assume ij: "i < j" "j < length ops"
    note n = mmio_inv_nth(2) [OF assms(1) ij(2,1)] mmio_inv_nth(1) [OF assms(1) ij(2)]
      mmio_inv_nth(1) [OF assms(1), of i]
    show "(if k < addr_low (ops ! j) then - 1 else if addr_high (ops ! j) \<le> k then 1 else 0 :: int) < 0"
      if "(if k < addr_low (ops ! i) then - 1 else if addr_high (ops ! i) \<le> k then 1 else 0 :: int) < 0"
      using that n ij by (auto split: if_splits)
    show "0 < (if k < addr_low (ops ! i) then - 1 else if addr_high (ops ! i) \<le> k then 1 else 0 :: int)"
      if "0 < (if k < addr_low (ops ! j) then - 1 else if addr_high (ops ! j) \<le> k then 1 else 0 :: int)"
      using that n ij by (auto split: if_splits)
  qed
qed

lemma search_mmio_spec:
  assumes "mmio_inv ops" "mmio_key k"
  obtains (found) i where "search_mmio_callback k ops = Inr (Some i)" "i < length ops" "mmio_covers (ops ! i) k"
  | (absent) "search_mmio_callback k ops = Inr None" "\<And>x. x \<in> set ops \<Longrightarrow> \<not> mmio_covers x k"
proof -
  from SEARCH_spec [OF probes_regions [OF assms, of
      "\<lparr>addr_low = k, addr_high = k + 1, mmio_read = None, mmio_write = None\<rparr>"]]
  obtain r where r: "search_mmio_callback k ops = Inr r"
    "case r of Some i \<Rightarrow> i < length ops \<and> mmio_covers (ops ! i) k
     | None \<Rightarrow> \<forall>i < length ops. \<not> mmio_covers (ops ! i) k"
    by (force simp: search_mmio_callback_def mmio_covers_def not_le not_less split: if_splits option.splits)
  show thesis
  proof (cases r)
    case None
    then have "\<not> mmio_covers x k" if "x \<in> set ops" for x
      using r(2) that by (auto simp: in_set_conv_nth)
    with None r(1) absent show thesis by blast
  next
    case (Some i)
    with r found show thesis by simp
  qed
qed

lemma mmio_unique:
  assumes "mmio_inv ops" "x \<in> set ops" "y \<in> set ops" "mmio_covers x k" "mmio_covers y k"
  shows "x = y"
proof -
  obtain i j where ij: "i < length ops" "j < length ops" "x = ops ! i" "y = ops ! j"
    using assms(2,3) by (auto simp: in_set_conv_nth)
  have "\<not> i < j" "\<not> j < i"
    using mmio_inv_nth(2) [OF assms(1)] assms(4,5) ij by (force simp: mmio_covers_def)+
  with ij show ?thesis by simp
qed

lemma mmio_lookup_iff:
  assumes "mmio_inv ops" "mmio_key k"
  shows "x \<in> set ops \<Longrightarrow> mmio_covers x k \<Longrightarrow> mmio_lookup k ops = Inr (Some x)"
    "(\<And>x. x \<in> set ops \<Longrightarrow> \<not> mmio_covers x k) \<Longrightarrow> mmio_lookup k ops = Inr None"
proof -
  assume x: "x \<in> set ops" "mmio_covers x k"
  show "mmio_lookup k ops = Inr (Some x)"
    using assms
  proof (cases rule: search_mmio_spec)
    case (found i)
    then have "ops ! i = x" using mmio_unique [OF assms(1) nth_mem x(1)] x(2) by blast
    with found show ?thesis by (simp add: mmio_lookup_def)
  qed (use x in blast)
next
  assume n: "\<And>x. x \<in> set ops \<Longrightarrow> \<not> mmio_covers x k"
  show "mmio_lookup k ops = Inr None"
    using assms
  proof (cases rule: search_mmio_spec)
    case (found i)
    then show ?thesis using n [OF nth_mem] by blast
  qed (simp add: mmio_lookup_def)
qed

lemma apart_insert:
  assumes "mmio_inv ops" "mmio_fits op ops"
  shows "apart (insert op (set ops))"
proof -
  have "addr_high x \<le> addr_low y \<or> addr_high y \<le> addr_low x" if xy: "x \<in> set ops" "y \<in> set ops" "x \<noteq> y" for x y
  proof -
    obtain i j where ij: "i < length ops" "j < length ops" "x = ops ! i" "y = ops ! j"
      using xy by (auto simp: in_set_conv_nth)
    with xy(3) have "i < j \<or> j < i" by (cases i j rule: linorder_cases) auto
    with ij mmio_inv_nth(2) [OF assms(1)] show ?thesis by auto
  qed
  then show ?thesis using assms by (auto simp: apart_def mmio_inv_def mmio_fits_def)
qed

lemma mmio_insert_inv:
  assumes inv: "mmio_inv ops" and fits: "mmio_fits op ops"
    and ys: "mset ys = mset (ops @ [op])" "sorted_wrt mmio_le ys"
  shows "mmio_inv ys"
proof -
  have op: "op \<notin> set ops" using fits by (auto simp: mmio_fits_def not_le dest: bspec [where x = op])
  have "distinct ops"
    unfolding distinct_conv_nth
  proof (intro allI impI)
    fix i j assume "i < length ops" "j < length ops" "i \<noteq> j"
    then show "ops ! i \<noteq> ops ! j"
      using mmio_inv_nth [OF inv, of i] mmio_inv_nth [OF inv, of j]
      by (cases i j rule: linorder_cases) (metis leD)+
  qed
  then have "distinct ys" using op ys(1) by (metis distinct_append distinct_singleton mset_eq_imp_distinct_iff
      disjoint_insert(1) empty_set inf_bot_right list.simps(15))
  moreover have "set ys = insert op (set ops)" "length ys = Suc (length ops)"
    using mset_eq_setD [OF ys(1)] mset_eq_length [OF ys(1)] by auto
  ultimately show ?thesis
    using inv fits ys(2)
    by (auto simp: mmio_inv_def mmio_fits_def sorted_wrt_iff_nth_less mmio_le_def nth_eq_iff_index_eq)
qed

lemma mmio_register_law:
  assumes inv: "mmio_inv ops" and fits: "mmio_fits op ops"
  shows "\<exists>ops'. register_mmio_operation op ops = Inr ops' \<and> mmio_inv ops' \<and>
    (\<forall>k. mmio_key k \<longrightarrow> mmio_lookup k ops' = (if mmio_covers op k then Inr (Some op) else mmio_lookup k ops))"
proof -
  have "compares mmio_operation_compare (set (ops @ [op])) mmio_le"
    using compares_regions [OF apart_insert [OF assms]] by simp
  from SORT_spec [OF this] obtain ys where
    ys: "SORT mmio_operation_compare (ops @ [op]) = Inr ys" "mset ys = mset (ops @ [op])" "sorted_wrt mmio_le ys"
    by blast
  note inv' = mmio_insert_inv [OF inv fits ys(2,3)]
  have st: "set ys = insert op (set ops)" using mset_eq_setD [OF ys(2)] by auto
  have low: "mmio_key (addr_low op)" "mmio_covers op (addr_low op)"
    using fits by (auto simp: mmio_fits_def mmio_key_def mmio_covers_def word_order.not_eq_extremum
      intro: less_le_trans [OF _ word_n1_ge])
  have free: "\<not> mmio_covers x (addr_low op)" if "x \<in> set ops" for x
    using fits that by (force simp: mmio_fits_def mmio_covers_def)
  from inv low(1) have none: "search_mmio_callback (addr_low op) ops = Inr None"
  proof (cases rule: search_mmio_spec)
    case (found i)
    then show ?thesis using free [OF nth_mem] by blast
  qed
  from inv' low(1) have "\<exists>i. search_mmio_callback (addr_low op) ys = Inr (Some i)"
  proof (cases rule: search_mmio_spec)
    case absent
    then show ?thesis using st low(2) by blast
  qed blast
  with none ys(1) fits have reg: "register_mmio_operation op ops = Inr ys"
    by (auto simp: register_mmio_operation_def mmio_fits_def)
  have "mmio_lookup k ys = (if mmio_covers op k then Inr (Some op) else mmio_lookup k ops)" if k: "mmio_key k" for k
  proof (cases "\<exists>x \<in> set ys. mmio_covers x k")
    case True
    then obtain x where x: "x \<in> set ys" "mmio_covers x k" by blast
    have "op \<in> set ys" using st by simp
    then have "x = op" if "mmio_covers op k" using mmio_unique [OF inv' x(1) _ x(2) that] by simp
    then show ?thesis
      using mmio_lookup_iff(1) [OF inv' k x] mmio_lookup_iff(1) [OF inv k _ x(2)] x st by auto
  next
    case False
    then show ?thesis using mmio_lookup_iff(2) [OF inv' k] mmio_lookup_iff(2) [OF inv k] st by auto
  qed
  with reg inv' show ?thesis by blast
qed

interpretation mmios: registry mmio_inv mmio_key mmio_fits mmio_covers mmio_lookup register_mmio_operation
proof
  fix ops :: "mmio_operation list" and k :: u64
  assume "mmio_inv ops" "mmio_key k"
  then show "\<exists>r. mmio_lookup k ops = Inr r"
    by (cases rule: search_mmio_spec) (simp_all add: mmio_lookup_def)
qed (rule mmio_register_law)

end
