(* ===== verification/Format.thy ===== *)
theory Format
  imports Mem_Ops
begin

text \<open>
  Formatted output: \<open>lib64/printk.c\<close>, which sends each character to the serial line, and the
  \<open>sprintf\<close> of \<open>lib64/string.c\<close>, which stores it in a buffer.  Both walk a NUL-terminated format in
  memory and take their arguments as 64-bit words, so format and string arguments are addresses here
  and the loops over them are partial: a missing terminator is a loop that does not return.  The
  serial line is the list of the bytes sent; \<open>write_serial\<close> polls the transmitter before each byte,
  which the model takes to be ready.
\<close>

section \<open>Digits\<close>

abbreviation DEFAULT_RESOLVE_STACK :: nat where "DEFAULT_RESOLVE_STACK \<equiv> 128"

lemma unat_div10_less: "q \<noteq> 0 \<Longrightarrow> unat (q div 10) < unat q" for q :: u64
  by (simp add: unat_div unat_gt_0)

lemma unat_shift4_less: "q \<noteq> 0 \<Longrightarrow> unat (drop_bit 4 q) < unat q" for q :: u64
  by (simp add: unat_drop_bit_div unat_gt_0)

function decimal_stack :: "u64 \<Rightarrow> u8 list \<Rightarrow> u8 list" where
  "decimal_stack qword stack =
     (if qword \<noteq> 0 \<and> length stack < DEFAULT_RESOLVE_STACK
      then decimal_stack (qword div 10) (stack @ [0x30 + ucast (qword mod 10)])
      else stack)"
  by pat_completeness auto
termination
  by (relation "measure (\<lambda>(q, stack). unat q)") (simp_all add: unat_div10_less)

definition hex_digits :: "bool \<Rightarrow> u8 list" where
  "hex_digits is_lowercase =
     map (\<lambda>c. of_char c) (if is_lowercase then ''0123456789abcdef'' else ''0123456789ABCDEF'')"

function hex_stack :: "bool \<Rightarrow> u64 \<Rightarrow> u8 list \<Rightarrow> u8 list" where
  "hex_stack is_lowercase qword stack =
     (if qword \<noteq> 0 \<and> length stack < DEFAULT_RESOLVE_STACK
      then hex_stack is_lowercase (drop_bit 4 qword) (stack @ [hex_digits is_lowercase ! unat (qword AND 0xf)])
      else stack)"
  by pat_completeness auto
termination
  by (relation "measure (\<lambda>(l, q, stack). unat q)") (simp_all add: unat_shift4_less)

declare decimal_stack.simps [simp del] hex_stack.simps [simp del]

text \<open>Popping the digits: onto the serial line, or into the buffer at \<open>iptr\<close>.\<close>

primrec pop_serial :: "nat \<Rightarrow> u8 list \<Rightarrow> u8 list \<Rightarrow> u8 list" where
  "pop_serial 0 stack out = out"
| "pop_serial (Suc i) stack out = pop_serial i stack (out @ [stack ! i])"

primrec pop_buffer :: "nat \<Rightarrow> u8 list \<Rightarrow> u64 \<Rightarrow> mem \<times> nat \<Rightarrow> mem \<times> nat" where
  "pop_buffer 0 stack buff st = st"
| "pop_buffer (Suc i) stack buff st =
     (case st of (m, iptr) \<Rightarrow> pop_buffer i stack buff (m(buff + of_nat iptr := stack ! i), iptr + 1))"

definition resolve_qword :: "u64 \<Rightarrow> u8 list \<Rightarrow> u8 list" where
  "resolve_qword qword out =
     (let stack = decimal_stack qword []; stack = (if stack = [] then [0x30] else stack)
      in pop_serial (length stack) stack out)"

definition resolve_hex_qword :: "u64 \<Rightarrow> bool \<Rightarrow> u8 list \<Rightarrow> u8 list" where
  "resolve_hex_qword qword is_lowercase out =
     (let stack = hex_stack is_lowercase qword []; stack = (if stack = [] then [0x30] else stack)
      in pop_serial (length stack) stack out)"

definition resolve_decimal :: "u64 \<Rightarrow> u64 \<Rightarrow> mem \<times> nat \<Rightarrow> mem \<times> nat" where
  "resolve_decimal buff qword st =
     (let stack = decimal_stack qword []; stack = (if stack = [] then [0x30] else stack)
      in pop_buffer (length stack) stack buff st)"

definition resolve_hexadecimal :: "u64 \<Rightarrow> u64 \<Rightarrow> bool \<Rightarrow> mem \<times> nat \<Rightarrow> mem \<times> nat" where
  "resolve_hexadecimal buff qword is_lowercase st =
     (let stack = hex_stack is_lowercase qword []; stack = (if stack = [] then [0x30] else stack)
      in pop_buffer (length stack) stack buff st)"

section \<open>printk\<close>

definition va_arg :: "u64 list \<Rightarrow> (u64 \<times> u64 list) result" where
  "va_arg args = (case args of [] \<Rightarrow> Inl Wild_access | x # xs \<Rightarrow> Inr (x, xs))"

partial_function (option) printk_string :: "mem \<Rightarrow> u64 \<Rightarrow> u8 list \<Rightarrow> u8 list option" where
  "printk_string m string_ptr out =
     (if m string_ptr = 0 then Some out else printk_string m (string_ptr + 1) (out @ [m string_ptr]))"

text \<open>
  The sign handling of \<open>%d\<close> and \<open>%q\<close>: the negation wraps at the width of the variable, and the call
  of the digit routine extends the result to 64 bits.
\<close>

definition printk_decimal :: "'a::len word \<Rightarrow> u8 list \<Rightarrow> u8 list" where
  "printk_decimal arg out =
     (if sint arg < 0 then resolve_qword (scast (- arg)) (out @ [0x2d]) else resolve_qword (scast arg) out)"

definition printk_directive :: "mem \<Rightarrow> u8 \<Rightarrow> u64 list \<Rightarrow> u8 list \<Rightarrow> (u64 list \<times> u8 list) result option" where
  "printk_directive m c args out =
     (if c = of_char (CHR ''s'') then
        (case va_arg args of Inl e \<Rightarrow> Some (Inl e) | Inr (p, rest) \<Rightarrow>
           map_option (\<lambda>out'. Inr (rest, out')) (printk_string m p out))
      else if c = of_char (CHR ''c'') then
        Some (bind_result (va_arg args) (\<lambda>(a, rest). Inr (rest, out @ [ucast a])))
      else if c = of_char (CHR ''d'') then
        Some (bind_result (va_arg args) (\<lambda>(a, rest). Inr (rest, printk_decimal (ucast a :: u32) out)))
      else if c = of_char (CHR ''q'') then
        Some (bind_result (va_arg args) (\<lambda>(a, rest). Inr (rest, printk_decimal a out)))
      else if c = of_char (CHR ''x'') then
        Some (bind_result (va_arg args) (\<lambda>(a, rest). Inr (rest, resolve_hex_qword a True out)))
      else if c = of_char (CHR ''X'') then
        Some (bind_result (va_arg args) (\<lambda>(a, rest). Inr (rest, resolve_hex_qword a False out)))
      else Some (Inr (args, out)))"

partial_function (option) printk_loop :: "mem \<Rightarrow> u64 \<Rightarrow> u64 list \<Rightarrow> u8 list \<Rightarrow> u8 list result option" where
  "printk_loop m ptr args out =
     (if m ptr = 0 then Some (Inr out)
      else if m ptr \<noteq> of_char (CHR ''%'') then printk_loop m (ptr + 1) args (out @ [m ptr])
      else Option.bind (printk_directive m (m (ptr + 1)) args out) (\<lambda>r.
        case r of Inl e \<Rightarrow> Some (Inl e) | Inr (args', out') \<Rightarrow> printk_loop m (ptr + 1 + 1) args' out'))"

definition printk_mp_raw :: "mem \<Rightarrow> u64 \<Rightarrow> u64 list \<Rightarrow> u8 list \<Rightarrow> u8 list result option" where
  "printk_mp_raw m fmt args out = printk_loop m fmt args out"

section \<open>sprintf\<close>

partial_function (option) sprintf_string :: "u64 \<Rightarrow> u64 \<Rightarrow> mem \<times> nat \<Rightarrow> (mem \<times> nat) option" where
  "sprintf_string buff string_ptr st =
     (case st of (m, iptr) \<Rightarrow>
        if m string_ptr = 0 then Some (m, iptr)
        else sprintf_string buff (string_ptr + 1) (m(buff + of_nat iptr := m string_ptr), iptr + 1))"

definition sprintf_decimal :: "u64 \<Rightarrow> 'a::len word \<Rightarrow> mem \<times> nat \<Rightarrow> mem \<times> nat" where
  "sprintf_decimal buff arg st =
     (case st of (m, iptr) \<Rightarrow>
        if sint arg < 0 then resolve_decimal buff (scast (- arg)) (m(buff + of_nat iptr := 0x2d), iptr + 1)
        else resolve_decimal buff (scast arg) (m, iptr))"

definition sprintf_directive :: "u64 \<Rightarrow> u8 \<Rightarrow> u64 list \<Rightarrow> mem \<times> nat \<Rightarrow> (u64 list \<times> mem \<times> nat) result option" where
  "sprintf_directive buff c args st =
     (if c = of_char (CHR ''s'') then
        (case va_arg args of Inl e \<Rightarrow> Some (Inl e) | Inr (p, rest) \<Rightarrow>
           map_option (\<lambda>st'. Inr (rest, st')) (sprintf_string buff p st))
      else if c = of_char (CHR ''c'') then
        Some (bind_result (va_arg args) (\<lambda>(a, rest).
          case st of (m, iptr) \<Rightarrow> Inr (rest, m(buff + of_nat iptr := ucast a), iptr + 1)))
      else if c = of_char (CHR ''d'') then
        Some (bind_result (va_arg args) (\<lambda>(a, rest). Inr (rest, sprintf_decimal buff (ucast a :: u32) st)))
      else if c = of_char (CHR ''q'') then
        Some (bind_result (va_arg args) (\<lambda>(a, rest). Inr (rest, sprintf_decimal buff a st)))
      else if c = of_char (CHR ''x'') \<or> c = of_char (CHR ''X'') then
        Some (bind_result (va_arg args) (\<lambda>(a, rest).
          Inr (rest, resolve_hexadecimal buff a (c = of_char (CHR ''x'')) st)))
      else Some (Inr (args, st)))"

partial_function (option) sprintf_loop :: "u64 \<Rightarrow> u64 \<Rightarrow> u64 list \<Rightarrow> mem \<Rightarrow> nat \<Rightarrow> (mem \<times> nat) result option" where
  "sprintf_loop buff ptr args m iptr =
     (if m ptr = 0 then Some (Inr (m, iptr))
      else if m ptr \<noteq> of_char (CHR ''%'')
      then sprintf_loop buff (ptr + 1) args (m(buff + of_nat iptr := m ptr)) (iptr + 1)
      else Option.bind (sprintf_directive buff (m (ptr + 1)) args (m, iptr)) (\<lambda>r.
        case r of Inl e \<Rightarrow> Some (Inl e)
        | Inr (args', m', iptr') \<Rightarrow> sprintf_loop buff (ptr + 1 + 1) args' m' iptr'))"

definition sprintf_raw :: "mem \<Rightarrow> u64 \<Rightarrow> u64 \<Rightarrow> u64 list \<Rightarrow> mem result option" where
  "sprintf_raw m buff fmt args =
     map_option (\<lambda>r. bind_result r (\<lambda>(m', iptr). Inr (m'(buff + of_nat iptr := 0))))
       (sprintf_loop buff fmt args m 0)"

section \<open>Digits and values\<close>

lemma pop_serial_eq: "pop_serial n stack out = out @ rev (take n stack)" if "n \<le> length stack"
  using that by (induction n arbitrary: out) (simp_all add: take_Suc_conv_app_nth)

fun value_of :: "nat \<Rightarrow> (u8 \<Rightarrow> nat) \<Rightarrow> u8 list \<Rightarrow> nat" where
  "value_of base dig [] = 0"
| "value_of base dig (d # ds) = dig d * base ^ length ds + value_of base dig ds"

lemma value_of_append: "value_of b dig (xs @ ys) = value_of b dig xs * b ^ length ys + value_of b dig ys"
  by (induction xs) (simp_all add: algebra_simps power_add)

definition dec_digit :: "u8 \<Rightarrow> nat" where "dec_digit d = unat d - 48"

definition hex_digit :: "u8 \<Rightarrow> nat" where
  "hex_digit d = (if unat d \<le> 57 then unat d - 48 else if unat d \<le> 70 then unat d - 55 else unat d - 87)"

text \<open>The digits of a number in ascending order of weight, and the stack as their list.\<close>

fun digits :: "nat \<Rightarrow> nat \<Rightarrow> nat list" where
  "digits b n = (if n = 0 \<or> b < 2 then [] else n mod b # digits b (n div b))"

declare digits.simps [simp del]

lemma digits_length: "2 \<le> b \<Longrightarrow> n < b ^ k \<Longrightarrow> length (digits b n) \<le> k"
proof (induction b n arbitrary: k rule: digits.induct)
  case (1 b n)
  show ?case
  proof (cases "n = 0")
    case False
    then obtain j where k: "k = Suc j" using 1(3) by (cases k) auto
    have "n div b < b ^ j" using 1(2,3) k by (simp add: div_less_iff_less_mult mult.commute)
    then show ?thesis using 1(1) [of j] False 1(2) k by (subst digits.simps) simp
  qed (simp add: digits.simps)
qed

lemma digits_value:
  "2 \<le> b \<Longrightarrow> (\<And>k. k < b \<Longrightarrow> dig (f k) = k) \<Longrightarrow> value_of b dig (rev (map f (digits b n))) = n"
proof (induction b n rule: digits.induct)
  case (1 b n)
  show ?case
  proof (cases "n = 0")
    case False
    then have "digits b n = n mod b # digits b (n div b)" using 1(2) by (subst digits.simps) simp
    moreover have "value_of b dig (rev (map f (digits b (n div b)))) = n div b"
      using 1(1) [OF _ 1(2)] 1(3) False 1(2) by simp
    ultimately show ?thesis using 1(2,3) by (simp add: value_of_append div_mult_mod_eq)
  qed (simp add: digits.simps)
qed

lemma digits_lt: "d \<in> set (digits b n) \<Longrightarrow> d < b"
proof (induction b n rule: digits.induct)
  case (1 b n)
  then show ?case by (subst (asm) (2) digits.simps) (auto split: if_splits)
qed

lemma digits_top: "digits b n \<noteq> [] \<Longrightarrow> last (digits b n) \<noteq> 0"
proof (induction b n rule: digits.induct)
  case (1 b n)
  then have n: "n \<noteq> 0" "2 \<le> b" by (auto simp: digits.simps [of b n] split: if_splits)
  show ?case
  proof (cases "digits b (n div b) = []")
    case True
    then have "n div b = 0" using n by (auto simp: digits.simps [of b "n div b"] split: if_splits)
    then have "n mod b = n" by (metis div_mult_mod_eq mult_zero_left plus_nat.add_0)
    then show ?thesis using n True by (simp add: digits.simps [of b n])
  next
    case False
    then show ?thesis using 1(1) n by (simp add: digits.simps [of b n])
  qed
qed

lemma digits_nonempty: "2 \<le> b \<Longrightarrow> digits b n = [] \<longleftrightarrow> n = 0"
  by (simp add: digits.simps [of b n])

lemma decimal_stack_eq:
  "length stack + length (digits 10 (unat q)) \<le> 128 \<Longrightarrow>
   decimal_stack q stack = stack @ map (\<lambda>d. 0x30 + of_nat d) (digits 10 (unat q))"
proof (induction q stack rule: decimal_stack.induct)
  case (1 q stack)
  show ?case
  proof (cases "q = 0")
    case False
    then have d: "digits 10 (unat q) = unat (q mod 10) # digits 10 (unat (q div 10))"
      by (subst digits.simps) (simp add: unat_div unat_mod unat_eq_0)
    have "(ucast (q mod 10) :: u8) = of_nat (unat (q mod 10))" by simp
    then show ?thesis using 1 False d by (subst decimal_stack.simps) simp
  qed (simp add: decimal_stack.simps digits.simps)
qed

lemma hex_stack_eq:
  "length stack + length (digits 16 (unat q)) \<le> 128 \<Longrightarrow>
   hex_stack l q stack = stack @ map (\<lambda>d. hex_digits l ! d) (digits 16 (unat q))"
proof (induction l q stack rule: hex_stack.induct)
  case (1 l q stack)
  show ?case
  proof (cases "q = 0")
    case False
    have "q AND 0xf = take_bit 4 q" by (simp add: take_bit_eq_mask mask_eq_exp_minus_1)
    then have "unat (q AND 0xf) = unat q mod 16" by (simp add: take_bit_eq_mod unat_mod)
    then have "digits 16 (unat q) = unat (q AND 0xf) # digits 16 (unat (drop_bit 4 q))"
      using False by (subst digits.simps) (simp add: unat_drop_bit_div unat_eq_0)
    then show ?thesis using 1 False by (subst hex_stack.simps) simp
  qed (simp add: hex_stack.simps digits.simps)
qed

lemma decimal_bound: "length (digits 10 (unat q)) \<le> 20" for q :: u64
  by (rule digits_length) (use unat_u64_less [of q] in simp_all)

lemma hex_bound: "length (digits 16 (unat q)) \<le> 16" for q :: u64
  by (rule digits_length) (use unat_u64_less [of q] in simp_all)

definition render_dec :: "u64 \<Rightarrow> u8 list" where
  "render_dec q = (if q = 0 then [0x30] else rev (map (\<lambda>d. 0x30 + of_nat d) (digits 10 (unat q))))"

definition render_hex :: "bool \<Rightarrow> u64 \<Rightarrow> u8 list" where
  "render_hex l q = (if q = 0 then [0x30] else rev (map (\<lambda>d. hex_digits l ! d) (digits 16 (unat q))))"

lemma stacks_eq:
  "(if decimal_stack q [] = [] then [0x30] else decimal_stack q []) = rev (render_dec q)"
  "(if hex_stack l q [] = [] then [0x30] else hex_stack l q []) = rev (render_hex l q)"
  using decimal_bound [of q] hex_bound [of q]
  by (simp_all add: decimal_stack_eq hex_stack_eq render_dec_def render_hex_def digits_nonempty unat_eq_0)

lemma resolve_eq:
  "resolve_qword q out = out @ render_dec q" "resolve_hex_qword q l out = out @ render_hex l q"
  unfolding resolve_qword_def resolve_hex_qword_def Let_def stacks_eq by (simp_all add: pop_serial_eq)

lemma store_bytes_snoc:
  assumes "length bs < 18446744073709551616"
  shows "(store_bytes m a bs)(a + of_nat (length bs) := b) = store_bytes m a (bs @ [b])"
proof
  fix x
  have "x - a = of_nat (length bs) \<longleftrightarrow> x = a + of_nat (length bs)" by (auto simp: algebra_simps)
  moreover have "x - a = of_nat (length bs) \<longleftrightarrow> unat (x - a) = length bs"
    using assms by (auto simp: u64_eq_iff unat_of_nat_u64)
  ultimately show "((store_bytes m a bs)(a + of_nat (length bs) := b)) x = store_bytes m a (bs @ [b]) x"
    by (auto simp: store_bytes_def nth_append)
qed

lemma pop_buffer_eq:
  assumes "n \<le> length stack" "length bs + n < 18446744073709551616"
  shows "pop_buffer n stack a (store_bytes m a bs, length bs) =
    (store_bytes m a (bs @ rev (take n stack)), length (bs @ rev (take n stack)))"
  using assms
proof (induction n arbitrary: bs)
  case (Suc n)
  have "(store_bytes m a bs)(a + of_nat (length bs) := stack ! n) = store_bytes m a (bs @ [stack ! n])"
    by (rule store_bytes_snoc) (use Suc.prems in simp)
  moreover have "pop_buffer n stack a (store_bytes m a (bs @ [stack ! n]), length (bs @ [stack ! n])) =
      (store_bytes m a ((bs @ [stack ! n]) @ rev (take n stack)), length ((bs @ [stack ! n]) @ rev (take n stack)))"
    by (rule Suc.IH) (use Suc.prems in simp_all)
  ultimately show ?case using Suc.prems by (simp add: take_Suc_conv_app_nth)
qed simp

lemma render_length: "length (render_dec q) \<le> 20" "length (render_hex l q) \<le> 16"
  using decimal_bound [of q] hex_bound [of q] by (simp_all add: render_dec_def render_hex_def)

lemma resolve_buffer_eq:
  assumes "length bs + 20 < 18446744073709551616"
  shows "resolve_decimal a q (store_bytes m a bs, length bs) =
      (store_bytes m a (bs @ render_dec q), length (bs @ render_dec q))"
    "resolve_hexadecimal a q l (store_bytes m a bs, length bs) =
      (store_bytes m a (bs @ render_hex l q), length (bs @ render_hex l q))"
proof -
  have "pop_buffer (length (rev (render_dec q))) (rev (render_dec q)) a (store_bytes m a bs, length bs) =
      (store_bytes m a (bs @ rev (take (length (rev (render_dec q))) (rev (render_dec q)))),
       length (bs @ rev (take (length (rev (render_dec q))) (rev (render_dec q)))))"
    by (rule pop_buffer_eq) (use assms render_length(1) [of q] in simp_all)
  then show "resolve_decimal a q (store_bytes m a bs, length bs) =
      (store_bytes m a (bs @ render_dec q), length (bs @ render_dec q))"
    unfolding resolve_decimal_def Let_def stacks_eq by simp
  have "pop_buffer (length (rev (render_hex l q))) (rev (render_hex l q)) a (store_bytes m a bs, length bs) =
      (store_bytes m a (bs @ rev (take (length (rev (render_hex l q))) (rev (render_hex l q)))),
       length (bs @ rev (take (length (rev (render_hex l q))) (rev (render_hex l q)))))"
    by (rule pop_buffer_eq) (use assms render_length(2) [of l q] in simp_all)
  then show "resolve_hexadecimal a q l (store_bytes m a bs, length bs) =
      (store_bytes m a (bs @ render_hex l q), length (bs @ render_hex l q))"
    unfolding resolve_hexadecimal_def Let_def stacks_eq by simp
qed

lemma dec_digit_inv: "k < 10 \<Longrightarrow> dec_digit (0x30 + of_nat k) = k"
proof -
  assume "k < 10"
  then have "k \<in> set [0..<10]" by simp
  then show ?thesis by (auto simp: upt_rec dec_digit_def)
qed

lemma dec_byte: "k < 10 \<Longrightarrow> 0x30 \<le> (0x30 + of_nat k :: u8) \<and> (0x30 + of_nat k :: u8) \<le> 0x39"
proof -
  assume "k < 10"
  then have "k \<in> set [0..<10]" by simp
  then show ?thesis by (auto simp: upt_rec)
qed

lemma hex_digit_inv: "k < 16 \<Longrightarrow> hex_digit (hex_digits l ! k) = k"
proof -
  assume "k < 16"
  then have "k \<in> set [0..<16]" by simp
  then show ?thesis by (cases l) (auto simp: upt_rec hex_digit_def hex_digits_def)
qed

section \<open>What the format loops print\<close>

text \<open>
  A format is a sequence of literal characters and conversions.  Each conversion determines the bytes
  of the format it is written with, the argument it takes and the text it stands for.
\<close>

datatype conversion =
    Literal u8
  | String u64 "u8 list"
  | Char u64
  | Decimal u64
  | Quad u64
  | Hex bool u64
  | Unknown u8

definition render_signed :: "int \<Rightarrow> u8 list" where
  "render_signed k = (if k < 0 then 0x2d # render_dec (of_int (- k)) else render_dec (of_int k))"

primrec conv_fmt :: "conversion \<Rightarrow> u8 list" where
  "conv_fmt (Literal b) = [b]"
| "conv_fmt (String p bs) = map of_char ''%s''"
| "conv_fmt (Char a) = map of_char ''%c''"
| "conv_fmt (Decimal a) = map of_char ''%d''"
| "conv_fmt (Quad a) = map of_char ''%q''"
| "conv_fmt (Hex l a) = map of_char (if l then ''%x'' else ''%X'')"
| "conv_fmt (Unknown c) = [of_char (CHR ''%''), c]"

primrec conv_args :: "conversion \<Rightarrow> u64 list" where
  "conv_args (Literal b) = []"
| "conv_args (String p bs) = [p]"
| "conv_args (Char a) = [a]"
| "conv_args (Decimal a) = [a]"
| "conv_args (Quad a) = [a]"
| "conv_args (Hex l a) = [a]"
| "conv_args (Unknown c) = []"

primrec conv_text :: "conversion \<Rightarrow> u8 list" where
  "conv_text (Literal b) = [b]"
| "conv_text (String p bs) = bs"
| "conv_text (Char a) = [ucast a]"
| "conv_text (Decimal a) = render_signed (sint (ucast a :: u32))"
| "conv_text (Quad a) = render_signed (sint a)"
| "conv_text (Hex l a) = render_hex l a"
| "conv_text (Unknown c) = []"

definition c_string :: "mem \<Rightarrow> u64 \<Rightarrow> u8 list \<Rightarrow> bool" where
  "c_string m p bs \<longleftrightarrow> load_bytes m p (length bs) = bs \<and> m (p + of_nat (length bs)) = 0 \<and> 0 \<notin> set bs"

primrec conv_ok :: "mem \<Rightarrow> conversion \<Rightarrow> bool" where
  "conv_ok m (Literal b) \<longleftrightarrow> b \<noteq> 0 \<and> b \<noteq> of_char (CHR ''%'')"
| "conv_ok m (String p bs) \<longleftrightarrow> c_string m p bs"
| "conv_ok m (Char a) \<longleftrightarrow> True"
| "conv_ok m (Decimal a) \<longleftrightarrow> ucast a \<noteq> (0x80000000 :: u32)"
| "conv_ok m (Quad a) \<longleftrightarrow> True"
| "conv_ok m (Hex l a) \<longleftrightarrow> True"
| "conv_ok m (Unknown c) \<longleftrightarrow> c \<notin> of_char ` set ''scdqxX'' \<and> c \<noteq> 0"

definition fmt_of :: "conversion list \<Rightarrow> u8 list" where "fmt_of cs = concat (map conv_fmt cs)"
definition args_of :: "conversion list \<Rightarrow> u64 list" where "args_of cs = concat (map conv_args cs)"
definition text_of :: "conversion list \<Rightarrow> u8 list" where "text_of cs = concat (map conv_text cs)"

lemma c_string_Nil: "c_string m p [] \<longleftrightarrow> m p = 0"
  by (simp add: c_string_def load_bytes_def)

lemma c_string_Cons: "c_string m p (b # bs) \<longleftrightarrow> b \<noteq> 0 \<and> m p = b \<and> c_string m (p + 1) bs"
proof -
  have "load_bytes m p (Suc n) = m p # load_bytes m (p + 1) n" for n
    unfolding load_bytes_def by (subst upt_conv_Cons) (simp_all add: map_Suc_upt [symmetric] o_def add.assoc del: upt_Suc)
  then show ?thesis by (auto simp: c_string_def add.assoc)
qed

lemma printk_string_eq: "c_string m p bs \<Longrightarrow> printk_string m p out = Some (out @ bs)"
  by (induction bs arbitrary: p out)
    (subst printk_string.simps, simp add: c_string_Nil c_string_Cons)+

lemma sint_of_int_u32: "sint (of_int k :: u32) = signed_take_bit 31 k"
  by (subst signed_of_int) simp

lemma sint_of_nat_u32: "n < 2 ^ 31 \<Longrightarrow> sint (of_nat n :: u32) = int n"
proof -
  assume "n < 2 ^ 31"
  then have "int n < 2147483648" by simp
  moreover have "sint (of_nat n :: u32) = signed_take_bit 31 (int n)" using sint_of_int_u32 [of "int n"] by simp
  ultimately show ?thesis by (simp add: signed_take_bit_int_eq_self)
qed

lemma scast_minus_u32:
  fixes a :: u32
  assumes "a \<noteq> 0x80000000"
  shows "scast (- a) = (of_int (- sint a) :: u64)"
proof -
  have "sint a \<noteq> - 2147483648"
  proof
    assume "sint a = - 2147483648"
    then have "(of_int (sint a) :: u32) = of_int (- 2147483648)" by simp
    then show False using assms by simp
  qed
  moreover have "- 2147483648 \<le> sint a" "sint a < 2147483648"
    using sint_greater_eq [of a] sint_less [of a] by simp_all
  ultimately have r: "- 2147483648 \<le> - sint a" "- sint a < 2147483648" by linarith+
  have "sint (- a) = sint (of_int (- sint a) :: u32)" by simp
  also have "\<dots> = signed_take_bit 31 (- sint a)" by (simp only: sint_of_int_u32)
  also have "\<dots> = - sint a" by (rule signed_take_bit_int_eq_self) (use r in simp_all)
  finally have eq: "sint (- a) = - sint a" .
  have "scast (- a) = (of_int (sint (- a)) :: u64)" by simp
  then show ?thesis by (simp only: eq)
qed

lemma printk_decimal_u32:
  fixes a :: u32
  assumes "a \<noteq> 0x80000000"
  shows "printk_decimal a out = out @ render_signed (sint a)"
  unfolding printk_decimal_def resolve_eq render_signed_def scast_minus_u32 [OF assms] by simp

lemma printk_decimal_u64: "printk_decimal (b :: u64) out = out @ render_signed (sint b)"
  unfolding printk_decimal_def resolve_eq render_signed_def by simp

lemma printk_directive_eq:
  assumes "conv_ok m c" "\<And>b. c \<noteq> Literal b"
  obtains d where "conv_fmt c = [of_char (CHR ''%''), d]"
    "printk_directive m d (conv_args c @ rest) out = Some (Inr (rest, out @ conv_text c))"
proof (cases c)
  case (Unknown d)
  with assms(1) that [of d] show thesis by (simp add: printk_directive_def)
next
  case (Hex l a)
  with that show thesis by (cases l) (simp_all add: printk_directive_def va_arg_def resolve_eq)
qed (use assms that in \<open>simp_all add: printk_directive_def va_arg_def printk_string_eq printk_decimal_u32
  printk_decimal_u64 resolve_eq split: if_splits\<close>)

lemma printk_loop_eq:
  assumes "\<forall>c \<in> set cs. conv_ok m c" "c_string m p (fmt_of cs)"
  shows "printk_loop m p (args_of cs @ rest) out = Some (Inr (out @ text_of cs))"
  using assms
proof (induction cs arbitrary: p out)
  case Nil
  then show ?case by (subst printk_loop.simps) (simp add: fmt_of_def text_of_def c_string_Nil)
next
  case (Cons c cs)
  show ?case
  proof (cases "\<exists>b. c = Literal b")
    case True
    then obtain b where b: "c = Literal b" by blast
    then show ?thesis
      using Cons.prems Cons.IH [of "p + 1" "out @ [b]"]
      by (subst printk_loop.simps) (simp add: fmt_of_def text_of_def args_of_def c_string_Cons)
  next
    case False
    obtain d where d: "conv_fmt c = [of_char (CHR ''%''), d]"
      "printk_directive m d (conv_args c @ args_of cs @ rest) out = Some (Inr (args_of cs @ rest, out @ conv_text c))"
      using printk_directive_eq [of m c "args_of cs @ rest" out] Cons.prems(1) False by auto
    have mp: "m p = of_char (CHR ''%'')" "m (p + 1) = d" "c_string m (p + 1 + 1) (fmt_of cs)"
      using Cons.prems(2) d(1) by (simp_all add: fmt_of_def c_string_Cons)
    have "printk_loop m p (args_of (c # cs) @ rest) out = printk_loop m (p + 1 + 1) (args_of cs @ rest) (out @ conv_text c)"
      using mp d(2) by (subst printk_loop.simps) (simp add: args_of_def)
    with Cons.IH [OF _ mp(3)] Cons.prems(1) show ?thesis by (simp add: text_of_def)
  qed
qed

text \<open>
  The buffer occupies the offsets up to \<open>n\<close> from its start; a string is clear of it if all its bytes,
  the terminator included, are further away.
\<close>

definition clear_of :: "u64 \<Rightarrow> nat \<Rightarrow> u64 \<Rightarrow> u8 list \<Rightarrow> bool" where
  "clear_of buff n p bs \<longleftrightarrow> (\<forall>i \<le> length bs. n < unat (p + of_nat i - buff))"

primrec conv_clear :: "u64 \<Rightarrow> nat \<Rightarrow> conversion \<Rightarrow> bool" where
  "conv_clear buff n (Literal b) \<longleftrightarrow> True"
| "conv_clear buff n (String p bs) \<longleftrightarrow> clear_of buff n p bs"
| "conv_clear buff n (Char a) \<longleftrightarrow> True"
| "conv_clear buff n (Decimal a) \<longleftrightarrow> True"
| "conv_clear buff n (Quad a) \<longleftrightarrow> True"
| "conv_clear buff n (Hex l a) \<longleftrightarrow> True"
| "conv_clear buff n (Unknown c) \<longleftrightarrow> True"

lemma clear_of_Cons: "clear_of buff n p (b # bs) \<longleftrightarrow> n < unat (p - buff) \<and> clear_of buff n (p + 1) bs"
proof -
  have "(\<forall>i \<le> Suc k. P i) \<longleftrightarrow> P 0 \<and> (\<forall>i \<le> k. P (Suc i))" for P :: "nat \<Rightarrow> bool" and k
    by (metis Suc_le_mono not0_implies_Suc zero_le)
  from this [of _ "\<lambda>i. n < unat (p + of_nat i - buff)"] show ?thesis by (simp add: clear_of_def add.assoc)
qed

lemma clear_of_Nil: "clear_of buff n p [] \<longleftrightarrow> n < unat (p - buff)"
  by (simp add: clear_of_def)

lemma clear_of_head: "clear_of buff n p bs \<Longrightarrow> n < unat (p - buff)"
  by (auto simp: clear_of_def dest: spec [where x = 0])

lemma store_bytes_clear: "length bs \<le> unat (x - a) \<Longrightarrow> store_bytes m a bs x = m x"
  by (simp add: store_bytes_def)

lemma sprintf_string_eq:
  assumes "c_string m p str" "clear_of buff n p str" "length bs + length str \<le> n" "n < 18446744073709551616"
  shows "sprintf_string buff p (store_bytes m buff bs, length bs) =
    Some (store_bytes m buff (bs @ str), length (bs @ str))"
  using assms
proof (induction str arbitrary: p bs)
  case Nil
  then have "store_bytes m buff bs p = 0"
    using clear_of_head [OF Nil(2)] by (simp add: store_bytes_clear c_string_Nil)
  then show ?case by (subst sprintf_string.simps) simp
next
  case (Cons b str)
  then have p: "store_bytes m buff bs p = b" "b \<noteq> 0"
    using clear_of_head [OF Cons.prems(2)] by (simp_all add: store_bytes_clear c_string_Cons)
  have "(store_bytes m buff bs)(buff + of_nat (length bs) := b) = store_bytes m buff (bs @ [b])"
    by (rule store_bytes_snoc) (use Cons.prems in simp)
  with p Cons.IH [of "p + 1" "bs @ [b]"] Cons.prems show ?case
    by (subst sprintf_string.simps) (simp add: c_string_Cons clear_of_Cons)
qed

lemma sprintf_decimal_eq:
  assumes "length bs + 21 < 18446744073709551616"
  shows "a \<noteq> 0x80000000 \<Longrightarrow> sprintf_decimal buff (a :: u32) (store_bytes m buff bs, length bs) =
      (store_bytes m buff (bs @ render_signed (sint a)), length (bs @ render_signed (sint a)))"
    "sprintf_decimal buff (c :: u64) (store_bytes m buff bs, length bs) =
      (store_bytes m buff (bs @ render_signed (sint c)), length (bs @ render_signed (sint c)))"
proof -
  have st: "(store_bytes m buff bs)(buff + of_nat (length bs) := 0x2d) = store_bytes m buff (bs @ [0x2d])"
    by (rule store_bytes_snoc) (use assms in simp)
  note r = resolve_buffer_eq(1) [of "bs @ [0x2d]"] resolve_buffer_eq(1) [of bs]
  show "sprintf_decimal buff a (store_bytes m buff bs, length bs) =
      (store_bytes m buff (bs @ render_signed (sint a)), length (bs @ render_signed (sint a)))" if "a \<noteq> 0x80000000"
    unfolding sprintf_decimal_def render_signed_def scast_minus_u32 [OF that] using assms r by (simp add: st)
  show "sprintf_decimal buff c (store_bytes m buff bs, length bs) =
      (store_bytes m buff (bs @ render_signed (sint c)), length (bs @ render_signed (sint c)))"
    unfolding sprintf_decimal_def render_signed_def using assms r by (simp add: st)
qed

lemma sprintf_directive_eq:
  assumes "conv_ok m c" "\<And>b. c \<noteq> Literal b" "conv_clear buff n c"
    and "length bs + length (conv_text c) \<le> n" "n + 21 < 18446744073709551616"
  obtains d where "conv_fmt c = [of_char (CHR ''%''), d]"
    "sprintf_directive buff d (conv_args c @ rest) (store_bytes m buff bs, length bs) =
      Some (Inr (rest, store_bytes m buff (bs @ conv_text c), length (bs @ conv_text c)))"
proof (cases c)
  case (Unknown d)
  with assms(1) that [of d] show thesis by (simp add: sprintf_directive_def)
next
  case (Hex l a)
  with that assms(4,5) show thesis
    by (cases l) (simp_all add: sprintf_directive_def va_arg_def resolve_buffer_eq)
next
  case (String p str)
  with that assms sprintf_string_eq [of m p str buff n bs] show thesis
    by (simp add: sprintf_directive_def va_arg_def)
next
  case (Char a)
  with that assms(4,5) store_bytes_snoc [of bs m buff "ucast a"] show thesis
    by (simp add: sprintf_directive_def va_arg_def)
next
  case (Decimal a)
  with that assms sprintf_decimal_eq(1) [of bs "ucast a" buff m] show thesis
    by (simp add: sprintf_directive_def va_arg_def)
next
  case (Quad a)
  with that assms sprintf_decimal_eq(2) [of bs buff a m] show thesis
    by (simp add: sprintf_directive_def va_arg_def)
qed (use assms in blast)

lemma sprintf_loop_eq:
  assumes "\<forall>c \<in> set cs. conv_ok m c \<and> conv_clear buff n c" "c_string m p (fmt_of cs)" "clear_of buff n p (fmt_of cs)"
    and "length bs + length (text_of cs) \<le> n" "n + 21 < 18446744073709551616"
  shows "sprintf_loop buff p (args_of cs @ rest) (store_bytes m buff bs) (length bs) =
    Some (Inr (store_bytes m buff (bs @ text_of cs), length (bs @ text_of cs)))"
  using assms(1-4)
proof (induction cs arbitrary: p bs)
  case Nil
  then show ?case
    using clear_of_head [OF Nil(3)]
    by (subst sprintf_loop.simps) (simp add: fmt_of_def text_of_def c_string_Nil store_bytes_clear)
next
  case (Cons c cs)
  have len: "length bs \<le> n" using Cons.prems(4) by simp
  show ?case
  proof (cases "\<exists>b. c = Literal b")
    case True
    then obtain b where b: "c = Literal b" by blast
    have "(store_bytes m buff bs)(buff + of_nat (length bs) := b) = store_bytes m buff (bs @ [b])"
      by (rule store_bytes_snoc) (use len assms(5) in simp)
    moreover have "store_bytes m buff bs p = b" "b \<noteq> of_char (CHR ''%'')" "b \<noteq> 0"
      using Cons.prems b clear_of_head [OF Cons.prems(3)] len
      by (simp_all add: store_bytes_clear fmt_of_def c_string_Cons)
    ultimately show ?thesis
      using Cons.prems b Cons.IH [of "p + 1" "bs @ [b]"]
      by (subst sprintf_loop.simps)
        (simp add: fmt_of_def text_of_def args_of_def c_string_Cons clear_of_Cons)
  next
    case False
    have tl: "length bs + length (conv_text c) \<le> n" using Cons.prems(4) by (simp add: text_of_def)
    obtain d where d: "conv_fmt c = [of_char (CHR ''%''), d]"
      "sprintf_directive buff d (conv_args c @ args_of cs @ rest) (store_bytes m buff bs, length bs) =
        Some (Inr (args_of cs @ rest, store_bytes m buff (bs @ conv_text c), length (bs @ conv_text c)))"
      using sprintf_directive_eq [OF _ _ _ tl assms(5), where rest = "args_of cs @ rest" and m = m] Cons.prems(1) False by auto
    have fm: "fmt_of (c # cs) = of_char (CHR ''%'') # d # fmt_of cs" using d(1) by (simp add: fmt_of_def)
    have cl: "n < unat (p - buff)" "n < unat (p + 1 - buff)" "clear_of buff n (p + 1 + 1) (fmt_of cs)"
      using Cons.prems(3) by (simp_all add: fm clear_of_Cons)
    have mp: "store_bytes m buff bs p = of_char (CHR ''%'')" "store_bytes m buff bs (p + 1) = d"
      "c_string m (p + 1 + 1) (fmt_of cs)"
      using Cons.prems(2) cl len by (simp_all add: fm c_string_Cons store_bytes_clear)
    have "sprintf_loop buff p (args_of (c # cs) @ rest) (store_bytes m buff bs) (length bs) =
        sprintf_loop buff (p + 1 + 1) (args_of cs @ rest) (store_bytes m buff (bs @ conv_text c)) (length (bs @ conv_text c))"
      using mp d(2) by (subst sprintf_loop.simps) (simp add: args_of_def)
    with Cons.IH [OF _ mp(3) cl(3), of "bs @ conv_text c"] Cons.prems(1,4) show ?thesis by (simp add: text_of_def)
  qed
qed

section \<open>Properties\<close>

text \<open>
  C29 (printk). For every format that is a sequence of literal characters and conversions, printk
  returns after sending exactly the text the conversions stand for: strings verbatim, signed 32-bit
  and 64-bit numbers in decimal with a sign, unsigned 64-bit numbers in hexadecimal, and nothing for
  an unknown conversion.  The one value excluded is the most negative 32-bit number.
\<close>

theorem printk_prints:
  assumes "\<forall>c \<in> set cs. conv_ok m c" "c_string m fmt (fmt_of cs)"
  shows "printk_mp_raw m fmt (args_of cs) out = Some (Inr (out @ text_of cs))"
  using printk_loop_eq [OF assms, of "[]"] by (simp add: printk_mp_raw_def)

text \<open>
  C28 (sprintf). When the format and the string arguments lie outside the buffer, sprintf stores there
  exactly what printk would send for the same arguments, followed by a NUL, and changes no other byte.
\<close>

theorem sprintf_stores_what_printk_prints:
  assumes "\<forall>c \<in> set cs. conv_ok m c \<and> conv_clear buff n c" "c_string m fmt (fmt_of cs)"
    and "clear_of buff n fmt (fmt_of cs)" "n = length (text_of cs)" "n < 2 ^ 31"
  shows "\<exists>out. printk_mp_raw m fmt (args_of cs) [] = Some (Inr out) \<and>
    sprintf_raw m buff fmt (args_of cs) = Some (Inr (store_bytes m buff (out @ [0])))"
proof -
  have "store_bytes m buff [] = m" by (simp add: store_bytes_def)
  with sprintf_loop_eq [OF assms(1,2,3), of "[]" "[]"] assms(4,5)
  have "sprintf_loop buff fmt (args_of cs) m 0 = Some (Inr (store_bytes m buff (text_of cs), length (text_of cs)))"
    by simp
  moreover have "(store_bytes m buff (text_of cs))(buff + of_nat (length (text_of cs)) := 0) = store_bytes m buff (text_of cs @ [0])"
    by (rule store_bytes_snoc) (use assms(4,5) in simp)
  ultimately have "sprintf_raw m buff fmt (args_of cs) = Some (Inr (store_bytes m buff (text_of cs @ [0])))"
    by (simp add: sprintf_raw_def)
  with printk_loop_eq [of cs m fmt "[]" "[]"] assms(1,2) show ?thesis by (simp add: printk_mp_raw_def)
qed

text \<open>
  The decimal digits printed for a 64-bit number read back as that number, there is
  no leading zero except in the number zero, every byte is a digit, and the scratch stack of the
  routine never overflows: at most 20 of its 128 bytes are used.
\<close>

lemma decimal_roundtrip:
  "\<exists>ds. resolve_qword q out = out @ ds \<and> value_of 10 dec_digit ds = unat q \<and>
    ds \<noteq> [] \<and> (hd ds = 0x30 \<longleftrightarrow> q = 0) \<and> set ds \<subseteq> {0x30..0x39} \<and> length (decimal_stack q []) \<le> 20"
proof (intro exI conjI)
  show "resolve_qword q out = out @ render_dec q" by (rule resolve_eq)
  show "value_of 10 dec_digit (render_dec q) = unat q"
    using digits_value [of 10 dec_digit "\<lambda>d. 0x30 + of_nat d" "unat q"] dec_digit_inv
    by (auto simp: render_dec_def dec_digit_def)
  show "render_dec q \<noteq> []" by (simp add: render_dec_def digits_nonempty unat_eq_0)
  show "hd (render_dec q) = 0x30 \<longleftrightarrow> q = 0"
  proof (cases "q = 0")
    case False
    then have ne: "digits 10 (unat q) \<noteq> []" by (simp add: digits_nonempty unat_eq_0)
    let ?d = "last (digits 10 (unat q))"
    have "?d < 10" using digits_lt last_in_set [OF ne] by blast
    then have "dec_digit (0x30 + of_nat ?d) = ?d" by (rule dec_digit_inv)
    with digits_top [OF ne] have "0x30 + of_nat ?d \<noteq> (0x30 :: u8)" by (auto simp: dec_digit_def)
    with False ne show ?thesis by (simp add: render_dec_def hd_rev last_map)
  qed (simp add: render_dec_def)
  show "set (render_dec q) \<subseteq> {0x30..0x39}"
    using digits_lt [of _ 10 "unat q"] dec_byte by (auto simp: render_dec_def)
  show "length (decimal_stack q []) \<le> 20"
    using decimal_bound [of q] by (simp add: decimal_stack_eq)
qed

text \<open>
  The same for the hexadecimal routine, in either case of the letters: the digits
  read back as the number, without leading zeros, from at most 16 bytes of the stack.
\<close>

lemma hex_roundtrip:
  "\<exists>ds. resolve_hex_qword q is_lowercase out = out @ ds \<and> value_of 16 hex_digit ds = unat q \<and>
    ds \<noteq> [] \<and> (hd ds = 0x30 \<longleftrightarrow> q = 0) \<and> set ds \<subseteq> set (hex_digits is_lowercase) \<and>
    length (hex_stack is_lowercase q []) \<le> 16"
proof (intro exI conjI)
  show "resolve_hex_qword q is_lowercase out = out @ render_hex is_lowercase q" by (rule resolve_eq)
  show "value_of 16 hex_digit (render_hex is_lowercase q) = unat q"
    using digits_value [of 16 hex_digit "\<lambda>d. hex_digits is_lowercase ! d" "unat q"] hex_digit_inv
    by (auto simp: render_hex_def hex_digit_def)
  show "render_hex is_lowercase q \<noteq> []" by (simp add: render_hex_def digits_nonempty unat_eq_0)
  show "hd (render_hex is_lowercase q) = 0x30 \<longleftrightarrow> q = 0"
  proof (cases "q = 0")
    case False
    then have ne: "digits 16 (unat q) \<noteq> []" by (simp add: digits_nonempty unat_eq_0)
    let ?d = "last (digits 16 (unat q))"
    have "?d < 16" using digits_lt last_in_set [OF ne] by blast
    then have "hex_digit (hex_digits is_lowercase ! ?d) = ?d" by (rule hex_digit_inv)
    with digits_top [OF ne] have "hex_digits is_lowercase ! ?d \<noteq> 0x30" by (auto simp: hex_digit_def)
    with False ne show ?thesis by (simp add: render_hex_def hd_rev last_map)
  qed (simp add: render_hex_def)
  have "length (hex_digits is_lowercase) = 16" "0x30 \<in> set (hex_digits is_lowercase)"
    by (simp_all add: hex_digits_def)
  then show "set (render_hex is_lowercase q) \<subseteq> set (hex_digits is_lowercase)"
    using digits_lt [of _ 16 "unat q"] by (auto simp: render_hex_def)
  show "length (hex_stack is_lowercase q []) \<le> 16"
    using hex_bound [of q] by (simp add: hex_stack_eq)
qed

text \<open>
  The excluded value: \<open>%d\<close> of the most negative 32-bit number prints the
  sign followed by the 64-bit sign extension of the number instead of its magnitude.
\<close>

lemma printk_int_min:
  "printk_directive m (of_char (CHR ''d'')) [0x80000000] out =
     Some (Inr ([], out @ map of_char ''-18446744071562067968''))"
  by (simp add: printk_directive_def va_arg_def printk_decimal_def resolve_eq render_dec_def digits.simps)

section \<open>Witnesses\<close>

text \<open>A format with a string, a number and an address, as the log lines of the monitor have them.\<close>

definition sample_mem :: mem where
  "sample_mem = store_bytes (store_bytes (\<lambda>_. 0) 0x1000 (map of_char ''vm%s:%d 0x%x'')) 0x2000 (map of_char ''one'')"

definition sample_convs :: "conversion list" where
  "sample_convs = [Literal (of_char (CHR ''v'')), Literal (of_char (CHR ''m'')), String 0x2000 (map of_char ''one''),
     Literal (of_char (CHR '':'')), Decimal (- 42), Literal (of_char (CHR '' '')), Literal (of_char (CHR ''0'')),
     Literal (of_char (CHR ''x'')), Hex True 0xbeef]"

lemma sample_convs_ok:
  "\<forall>c \<in> set sample_convs. conv_ok sample_mem c \<and> conv_clear 0x3000 16 c"
  "c_string sample_mem 0x1000 (fmt_of sample_convs)" "clear_of 0x3000 16 0x1000 (fmt_of sample_convs)"
  by (simp_all add: sample_convs_def sample_mem_def c_string_Cons c_string_Nil clear_of_Cons clear_of_Nil fmt_of_def
      store_bytes_def)

lemma sample_convs_text:
  "args_of sample_convs = [0x2000, - 42, 0xbeef]" "text_of sample_convs = map of_char ''vmone:-42 0xbeef''"
  by (simp_all add: sample_convs_def args_of_def text_of_def render_signed_def render_dec_def render_hex_def
      hex_digits_def digits.simps)

theorem printk_prints_witness:
  "printk_mp_raw sample_mem 0x1000 [0x2000, - 42, 0xbeef] [] = Some (Inr (map of_char ''vmone:-42 0xbeef''))"
  using printk_prints [of sample_convs sample_mem "0x1000" "[]"] sample_convs_ok by (simp add: sample_convs_text)

theorem sprintf_stores_what_printk_prints_witness:
  "sprintf_raw sample_mem 0x3000 0x1000 [0x2000, - 42, 0xbeef] =
     Some (Inr (store_bytes sample_mem 0x3000 (map of_char ''vmone:-42 0xbeef'' @ [0])))"
  using sprintf_stores_what_printk_prints [OF sample_convs_ok] printk_loop_eq [of sample_convs sample_mem "0x1000" "[]" "[]"]
    sample_convs_ok by (simp add: sample_convs_text printk_mp_raw_def)

end
