(* ===== verification/Vmx_State.thy ===== *)
theory Vmx_State
  imports Ept Ring_Buffer Port_IO Mmio Format
begin

text \<open>
  The state of the virtual machine monitor: the objects of \<open>vm_monitor/include/vmx_vmcs.h\<close> and
  \<open>vmx_vcpu_state.h\<close>, the virtual-machine control structure as \<open>vmx_read\<close> and \<open>vmx_write\<close> see it, and
  the guest's general registers.  The program has one virtual machine, whose object is the field
  \<^verbatim>\<open>vm\<close> of the record; the per-processor pointer \<open>current_vm\<close> is null or points to it.
\<close>

section \<open>Objects\<close>

record guest_cpu_state =
  vcr2 :: u64
  r8 :: u64
  r9 :: u64
  r10 :: u64
  r11 :: u64
  r12 :: u64
  r13 :: u64
  r14 :: u64
  r15 :: u64
  rbp :: u64
  rdi :: u64
  rsi :: u64
  rdx :: u64
  rcx :: u64
  rbx :: u64
  rax :: u64

record vmcs_region =
  guest_region :: u64
  io_bitmap_region0 :: u64
  io_bitmap_region1 :: u64
  virtual_apic_region :: u64
  vm_exit_store_msr_count :: u64
  vm_exit_load_msr_count :: u64
  vm_exit_store_msr_region :: u64
  vm_exit_load_msr_region :: u64
  ept_pml4_base :: u64
  video_buffer :: u64

record pic8259_blob =
  master_pic_command :: u8
  slave_pic_command :: u8
  master_pic_data :: u8
  slave_pic_data :: u8
  is_master_pic_initializing :: u8
  is_slave_pic_initializing :: u8
  master_pic_offset :: u8
  slave_pic_offset :: u8
  interrupt_delivery_pending :: u8
  interrupt_delivery_vector :: u8

abbreviation PIC_INVALID_VECTOR :: u8 where "PIC_INVALID_VECTOR \<equiv> 0xff"

record pit8253_blob =
  initial_counter :: int
  divisor :: u64
  threshold :: u64
  last_tsc :: u64

text \<open>The keyboard buffer \<open>struct keyboard_blob\<close> is the storage of a ring of \<open>0x32\<close> bytes.\<close>

abbreviation SCANCODE_BUFFER_LENGTH :: nat where "SCANCODE_BUFFER_LENGTH \<equiv> 0x32"

record vmcs_blob =
  regions :: vmcs_region
  host_stack :: u64
  vpid :: u64
  vcpu :: guest_cpu_state
  serial_line_buffer :: u64
  serial_line_iptr :: int
  pic :: pic8259_blob
  pit :: pit8253_blob
  kbd :: ring

text \<open>
  The monitor's globals.  \<^verbatim>\<open>vmcs_supported\<close> says which control fields the processor has;
  \<^verbatim>\<open>serial_out\<close> is what the host has sent to its serial line and \<^verbatim>\<open>eoi_count\<close>
  the number of interrupts acknowledged at the local APIC.
\<close>

record monitor =
  host :: kstate
  vmcs :: "u64 \<Rightarrow> u64"
  vmcs_supported :: "u64 \<Rightarrow> bool"
  vm :: vmcs_blob
  vm_addr :: u64
  current_vm :: bool
  interrupt_request_bitmap :: "u8 list"
  portio_ops :: "portio_operation list"
  mmio_ops :: "mmio_operation list"
  serial_out :: "u8 list"
  eoi_count :: nat

section \<open>The control structure\<close>

abbreviation GUEST_RSP :: u64 where "GUEST_RSP \<equiv> 0x681C"
abbreviation GUEST_RIP :: u64 where "GUEST_RIP \<equiv> 0x681E"
abbreviation GUEST_RFLAG :: u64 where "GUEST_RFLAG \<equiv> 0x6820"
abbreviation GUEST_CR3 :: u64 where "GUEST_CR3 \<equiv> 0x6802"
abbreviation GUEST_IA32_EFER :: u64 where "GUEST_IA32_EFER \<equiv> 0x2806"
abbreviation CTLS_PRI_PROC_BASED_VM_EXECUTION :: u64 where "CTLS_PRI_PROC_BASED_VM_EXECUTION \<equiv> 0x4002"
abbreviation CTLS_VM_ENTRY :: u64 where "CTLS_VM_ENTRY \<equiv> 0x4012"
abbreviation VMENTRY_INTRRUPTION_INFO :: u64 where "VMENTRY_INTRRUPTION_INFO \<equiv> 0x4016"
abbreviation VMEXIT_REASON :: u64 where "VMEXIT_REASON \<equiv> 0x4402"
abbreviation VMEXIT_QUALIFICATION :: u64 where "VMEXIT_QUALIFICATION \<equiv> 0x6400"
abbreviation VMEXIT_GUEST_LINEAR_ADDR :: u64 where "VMEXIT_GUEST_LINEAR_ADDR \<equiv> 0x640A"
abbreviation VMEXIT_GUEST_PHYSICAL_ADDR :: u64 where "VMEXIT_GUEST_PHYSICAL_ADDR \<equiv> 0x2400"
abbreviation VMEXIT_INSTRUCTION_LENGTH :: u64 where "VMEXIT_INSTRUCTION_LENGTH \<equiv> 0x440C"
abbreviation VMEXIT_INSTRUCTION_INFO :: u64 where "VMEXIT_INSTRUCTION_INFO \<equiv> 0x440E"
abbreviation VMEXIT_INTERRUPT_INFORMATION :: u64 where "VMEXIT_INTERRUPT_INFORMATION \<equiv> 0x4404"
abbreviation VMEXIT_INTERRUPT_ERROR_CODE :: u64 where "VMEXIT_INTERRUPT_ERROR_CODE \<equiv> 0x4406"

text \<open>
  Bits 14:13 of an encoding give the width of the field, bit 0 selects the high half of a 64-bit
  field, and bits 11:10 are 1 for the read-only exit information.  A write keeps the bits that fit
  the width; a write to a field the processor lacks, or to a read-only one, fails, and a read of a
  missing field leaves the zero \<open>vmx_read\<close> starts from.
\<close>

definition field_width :: "u64 \<Rightarrow> nat" where
  "field_width encoding =
     (if bf_get 13 2 encoding = 0 then 16 else if bf_get 13 2 encoding = 2 then 32 else 64)"

definition vmx_read :: "u64 \<Rightarrow> monitor \<Rightarrow> u64" where
  "vmx_read encoding s =
     (if \<not> vmcs_supported s encoding then 0
      else if bit encoding 0 then drop_bit 32 (vmcs s (encoding - 1)) else vmcs s encoding)"

definition vmx_write :: "u64 \<Rightarrow> u64 \<Rightarrow> monitor \<Rightarrow> int \<times> monitor" where
  "vmx_write encoding value s =
     (if \<not> vmcs_supported s encoding \<or> bf_get 10 2 encoding = 1 then (- errno ERROR_INVALID, s)
      else if bit encoding 0
      then (errno ERROR_OK, s\<lparr>vmcs := (vmcs s)(encoding - 1 := bf_set 32 32 value (vmcs s (encoding - 1)))\<rparr>)
      else (errno ERROR_OK, s\<lparr>vmcs := (vmcs s)(encoding := take_bit (field_width encoding) value)\<rparr>))"

definition vmwrite :: "u64 \<Rightarrow> u64 \<Rightarrow> monitor \<Rightarrow> monitor" where
  "vmwrite encoding value s = snd (vmx_write encoding value s)"

lemma vmwrite_full:
  "vmcs_supported s e \<Longrightarrow> bf_get 10 2 e \<noteq> 1 \<Longrightarrow> \<not> bit e 0 \<Longrightarrow>
   vmwrite e v s = s\<lparr>vmcs := (vmcs s)(e := take_bit (field_width e) v)\<rparr>"
  by (simp add: vmwrite_def vmx_write_def)

lemma vmwrite_frame: "\<exists>f. vmwrite e v s = s\<lparr>vmcs := f\<rparr> \<and> (\<forall>x. x \<noteq> e \<longrightarrow> x \<noteq> e - 1 \<longrightarrow> f x = vmcs s x)"
  by (cases "vmcs_supported s e") (auto simp: vmwrite_def vmx_write_def intro: exI [of _ "vmcs s"])

text \<open>Writing a field leaves the rest of the state alone.\<close>

lemma vmwrite_simps [simp]:
  "host (vmwrite e v s) = host s" "vmcs_supported (vmwrite e v s) = vmcs_supported s"
  "vm (vmwrite e v s) = vm s" "vm_addr (vmwrite e v s) = vm_addr s" "current_vm (vmwrite e v s) = current_vm s"
  "interrupt_request_bitmap (vmwrite e v s) = interrupt_request_bitmap s"
  "portio_ops (vmwrite e v s) = portio_ops s" "mmio_ops (vmwrite e v s) = mmio_ops s"
  "serial_out (vmwrite e v s) = serial_out s" "eoi_count (vmwrite e v s) = eoi_count s"
  by (simp_all add: vmwrite_def vmx_write_def)

definition GOTO_NEXT_INSTRUCTION :: "u64 \<Rightarrow> monitor \<Rightarrow> monitor" where
  "GOTO_NEXT_INSTRUCTION instruction_length s = vmwrite GUEST_RIP (vmx_read GUEST_RIP s + instruction_length) s"

section \<open>General registers\<close>

definition vcpu_get_gp_regiter :: "monitor \<Rightarrow> u8 \<Rightarrow> u64" where
  "vcpu_get_gp_regiter s index =
     (let v = vcpu (vm s) in
      if index = 0 then rax v else if index = 1 then rcx v else if index = 2 then rdx v
      else if index = 3 then rbx v else if index = 4 then vmx_read GUEST_RSP s
      else if index = 5 then rbp v else if index = 6 then rsi v else if index = 7 then rdi v
      else if index = 8 then r8 v else if index = 9 then r9 v else if index = 10 then r10 v
      else if index = 11 then r11 v else if index = 12 then r12 v else if index = 13 then r13 v
      else if index = 14 then r14 v else if index = 15 then r15 v else 0)"

definition set_vcpu :: "(guest_cpu_state \<Rightarrow> guest_cpu_state) \<Rightarrow> monitor \<Rightarrow> monitor" where
  "set_vcpu f s = s\<lparr>vm := (vm s)\<lparr>vcpu := f (vcpu (vm s))\<rparr>\<rparr>"

definition vcpu_set_gp_regiter :: "u8 \<Rightarrow> u64 \<Rightarrow> monitor \<Rightarrow> monitor" where
  "vcpu_set_gp_regiter index val s =
     (if index = 0 then set_vcpu (rax_update (\<lambda>_. val)) s
      else if index = 1 then set_vcpu (rcx_update (\<lambda>_. val)) s
      else if index = 2 then set_vcpu (rdx_update (\<lambda>_. val)) s
      else if index = 3 then set_vcpu (rbx_update (\<lambda>_. val)) s
      else if index = 5 then set_vcpu (rbp_update (\<lambda>_. val)) s
      else if index = 6 then set_vcpu (rsi_update (\<lambda>_. val)) s
      else if index = 7 then set_vcpu (rdi_update (\<lambda>_. val)) s
      else if index = 8 then set_vcpu (r8_update (\<lambda>_. val)) s
      else if index = 9 then set_vcpu (r9_update (\<lambda>_. val)) s
      else if index = 10 then set_vcpu (r10_update (\<lambda>_. val)) s
      else if index = 11 then set_vcpu (r11_update (\<lambda>_. val)) s
      else if index = 12 then set_vcpu (r12_update (\<lambda>_. val)) s
      else if index = 13 then set_vcpu (r13_update (\<lambda>_. val)) s
      else if index = 14 then set_vcpu (r14_update (\<lambda>_. val)) s
      else if index = 15 then set_vcpu (r15_update (\<lambda>_. val)) s
      else if index = 4 then vmwrite GUEST_RSP val s
      else s)"

lemma vcpu_set_vcpu: "vcpu (vm (set_vcpu f s)) = f (vcpu (vm s))"
  by (simp add: set_vcpu_def)

text \<open>
  The sixteen register numbers of the instruction encoding name sixteen
  independent registers, the stack pointer in the control structure among them: a write to one is read
  back from it, and every other register keeps its value.
\<close>

lemma gp_register_file:
  assumes "vmcs_supported s GUEST_RSP" "i < 16"
  shows "vcpu_get_gp_regiter (vcpu_set_gp_regiter i v s) j = (if j = i then v else vcpu_get_gp_regiter s j)"
proof -
  have rsp: "vmx_read GUEST_RSP (vmwrite GUEST_RSP v s) = v" "\<And>f. vmx_read GUEST_RSP (set_vcpu f s) = vmx_read GUEST_RSP s"
    using assms(1) by (simp_all add: vmx_read_def vmwrite_def vmx_write_def field_width_def bf_get_def set_vcpu_def)
  have "i \<in> set (map of_nat [0..<16])" using u8_below [of i 16] assms(2) by simp
  then have "i \<in> {0, 1, 2, 3, 4, 5, 6, 7, 8, 9, 10, 11, 12, 13, 14, 15}" by (simp add: upt_rec)
  then show ?thesis
    by (elim insertE emptyE) (simp_all add: vcpu_set_gp_regiter_def vcpu_get_gp_regiter_def Let_def rsp vcpu_set_vcpu)
qed

text \<open>A concrete machine, on which the witnesses of the monitor's properties evaluate.\<close>

definition sample_monitor :: monitor where
  "sample_monitor = \<lparr>host = sample_kstate, vmcs = (\<lambda>_. 0)(GUEST_RFLAG := 0x202, GUEST_RIP := 0x1000), vmcs_supported = (\<lambda>_. True),
     vm = \<lparr>regions = \<lparr>guest_region = 0x2000000, io_bitmap_region0 = 0x2001000, io_bitmap_region1 = 0x2002000,
              virtual_apic_region = 0x2003000, vm_exit_store_msr_count = 0, vm_exit_load_msr_count = 0,
              vm_exit_store_msr_region = 0x2004000, vm_exit_load_msr_region = 0x2005000, ept_pml4_base = 0x2006000,
              video_buffer = 0x2007000\<rparr>,
           host_stack = 0x2008000, vpid = 1,
           vcpu = \<lparr>vcr2 = 0, r8 = 0, r9 = 0, r10 = 0, r11 = 0, r12 = 0, r13 = 0, r14 = 0, r15 = 0, rbp = 0, rdi = 0, rsi = 0,
              rdx = 0, rcx = 0, rbx = 0, rax = 0\<rparr>,
           serial_line_buffer = 0x200a000, serial_line_iptr = 0,
           pic = \<lparr>master_pic_command = 0, slave_pic_command = 0, master_pic_data = 0, slave_pic_data = 0,
              is_master_pic_initializing = 0, is_slave_pic_initializing = 0, master_pic_offset = 0x20, slave_pic_offset = 0x28,
              interrupt_delivery_pending = 0, interrupt_delivery_vector = PIC_INVALID_VECTOR\<rparr>,
           pit = \<lparr>initial_counter = 0, divisor = 0, threshold = 10, last_tsc = 0\<rparr>,
           kbd = \<lparr>ring_size = int SCANCODE_BUFFER_LENGTH, front = 0, rear = 0, buffer = replicate SCANCODE_BUFFER_LENGTH 0\<rparr>\<rparr>,
     vm_addr = 0x200b000, current_vm = True, interrupt_request_bitmap = replicate 15 0, portio_ops = [], mmio_ops = [],
     serial_out = [], eoi_count = 0\<rparr>"

lemma gp_register_file_sample:
  "vcpu_get_gp_regiter (vcpu_set_gp_regiter 4 0x8000 sample_monitor) 4 = 0x8000 \<and>
   vcpu_get_gp_regiter (vcpu_set_gp_regiter 4 0x8000 sample_monitor) 12 = 0"
  using gp_register_file [of sample_monitor 4 "0x8000"]
  by (simp add: sample_monitor_def) (simp add: vcpu_get_gp_regiter_def)

end
