(* ===== verification/Devices.thy ===== *)
theory Devices
  imports Vmx_State
begin

text \<open>
  The emulated devices of the monitor: interrupt controller (\<open>device_8259pic.c\<close>), interval timer
  (\<open>device_8253pit.c\<close>), keyboard (\<open>device_keyboard.c\<close>), serial line (\<open>device_serial.c\<close>) and video
  buffer (\<open>device_video.c\<close>).  A callback that touches one device object takes and returns that object;
  the serial line and the video buffer also use the host's memory and take the monitor state.
\<close>

section \<open>Interrupt controller\<close>

abbreviation PIC_MASTER_COMMAND_PORT :: u32 where "PIC_MASTER_COMMAND_PORT \<equiv> 0x20"
abbreviation PIC_MASTER_DATA_PORT :: u32 where "PIC_MASTER_DATA_PORT \<equiv> 0x21"
abbreviation PIC_SLAVE_COMMAND_PORT :: u32 where "PIC_SLAVE_COMMAND_PORT \<equiv> 0xa0"
abbreviation PIC_SLAVE_DATA_PORT :: u32 where "PIC_SLAVE_DATA_PORT \<equiv> 0xa1"
abbreviation ICW1_INIT :: u8 where "ICW1_INIT \<equiv> 0x10"
abbreviation PIC_EOI :: u8 where "PIC_EOI \<equiv> 0x20"

definition master_pic_inb :: "u32 \<Rightarrow> pic8259_blob \<Rightarrow> u8 result" where
  "master_pic_inb port_id p =
     (if port_id = PIC_MASTER_DATA_PORT then Inr (master_pic_data p) else Inl Panic_exit)"

definition master_pic_outb :: "u32 \<Rightarrow> u8 \<Rightarrow> pic8259_blob \<Rightarrow> pic8259_blob result" where
  "master_pic_outb port_id byte p =
     (if port_id = PIC_MASTER_COMMAND_PORT then
        let p = p\<lparr>master_pic_command := byte\<rparr>;
            p = (if master_pic_command p AND ICW1_INIT \<noteq> 0 then p\<lparr>is_master_pic_initializing := 1\<rparr> else p);
            p = (if master_pic_command p = PIC_EOI then p\<lparr>interrupt_delivery_pending := 0\<rparr> else p)
        in Inr p
      else if port_id = PIC_MASTER_DATA_PORT then
        let p = p\<lparr>master_pic_data := byte\<rparr>
        in Inr (if is_master_pic_initializing p \<noteq> 0
                then p\<lparr>master_pic_offset := master_pic_data p, is_master_pic_initializing := 0\<rparr> else p)
      else Inl Panic_exit)"

definition slave_pic_inb :: "u32 \<Rightarrow> pic8259_blob \<Rightarrow> u8 result" where
  "slave_pic_inb port_id p =
     (if port_id = PIC_SLAVE_DATA_PORT then Inr (slave_pic_data p) else Inl Panic_exit)"

definition slave_pic_outb :: "u32 \<Rightarrow> u8 \<Rightarrow> pic8259_blob \<Rightarrow> pic8259_blob result" where
  "slave_pic_outb port_id byte p =
     (if port_id = PIC_SLAVE_COMMAND_PORT then
        let p = p\<lparr>slave_pic_command := byte\<rparr>;
            p = (if slave_pic_command p AND ICW1_INIT \<noteq> 0 then p\<lparr>is_slave_pic_initializing := 1\<rparr> else p);
            p = (if slave_pic_command p = PIC_EOI then p\<lparr>interrupt_delivery_pending := 0\<rparr> else p)
        in Inr p
      else if port_id = PIC_SLAVE_DATA_PORT then
        let p = p\<lparr>slave_pic_data := byte\<rparr>
        in Inr (if is_slave_pic_initializing p \<noteq> 0
                then p\<lparr>slave_pic_offset := slave_pic_data p, is_slave_pic_initializing := 0\<rparr> else p)
      else Inl Panic_exit)"

section \<open>Interval timer\<close>

abbreviation PIT_CHANNEL0_PORT :: u32 where "PIT_CHANNEL0_PORT \<equiv> 0x40"
abbreviation PIT_CONTROL_PORT :: u32 where "PIT_CONTROL_PORT \<equiv> 0x43"
abbreviation OSCILLATPR_CHIP_FREQUENCY :: u64 where "OSCILLATPR_CHIP_FREQUENCY \<equiv> 1193182"

definition c_div :: "u64 \<Rightarrow> u64 \<Rightarrow> u64 result" where
  "c_div a b = (if b = 0 then Inl Divide_error else Inr (a div b))"

definition pit_outb :: "u32 \<Rightarrow> u8 \<Rightarrow> pit8253_blob \<Rightarrow> pit8253_blob result" where
  "pit_outb port_id byte p =
     (if port_id = PIT_CONTROL_PORT then
        if byte = 0x36 then Inr (p\<lparr>initial_counter := 0, divisor := 0\<rparr>) else Inl Assertion_failed
      else if port_id = PIT_CHANNEL0_PORT then
        if initial_counter p = 0 then
          Inr (p\<lparr>divisor := ucast byte AND 0xff, initial_counter := initial_counter p + 1\<rparr>)
        else if initial_counter p = 1 then
          let p = p\<lparr>divisor := (divisor p OR push_bit 8 (ucast byte)) AND 0xffff,
                     initial_counter := initial_counter p + 1\<rparr>
          in bind_result (c_div OSCILLATPR_CHIP_FREQUENCY (divisor p)) (\<lambda>hz.
             bind_result (c_div 1000 hz) (\<lambda>ms. Inr (p\<lparr>threshold := ms\<rparr>)))
        else Inl Panic_exit
      else Inl Panic_exit)"

section \<open>Keyboard\<close>

abbreviation KEYBOARD_DATA_PORT :: u32 where "KEYBOARD_DATA_PORT \<equiv> 0x60"

definition keyboard_data_inb :: "u32 \<Rightarrow> ring \<Rightarrow> u8 result" where
  "keyboard_data_inb port_id kbd_ring =
     (if port_id \<noteq> KEYBOARD_DATA_PORT then Inl Assertion_failed
      else if \<not> ring_empty kbd_ring then ring_peek kbd_ring else Inr 0)"

section \<open>Serial line\<close>

abbreviation COM1_PORT_BASE :: u32 where "COM1_PORT_BASE \<equiv> 0x3f8"

definition device_serial_inb :: "u32 \<Rightarrow> u8 result" where
  "device_serial_inb port_id = (if port_id = COM1_PORT_BASE + 5 then Inr 0x20 else Inl Panic_exit)"

text \<open>
  The line the monitor prints: \<^verbatim>\<open>printk ("[vm:0x%x(vpid:%d)] %s", vm, vm->vpid,
  vm->serial_line_buffer)\<close>.  The literal characters of the format are written out and its conversions
  run the routines of \<open>printk\<close>; the string conversion reads the line buffer from memory.  The lock
  around \<open>printk\<close> is not taken here: one processor runs the monitor.
\<close>

definition serial_prefix :: "u64 \<Rightarrow> u64 \<Rightarrow> u8 list" where
  "serial_prefix vm_address vm_vpid =
     (let out = map of_char ''[vm:0x'';
          out = resolve_hex_qword vm_address True out;
          out = out @ map of_char ''(vpid:'';
          out = printk_decimal (ucast vm_vpid :: u32) out
      in out @ map of_char '')] '')"

definition print_serial_line :: "monitor \<Rightarrow> u8 list result" where
  "print_serial_line s =
     (case printk_string (kmem (host s)) (serial_line_buffer (vm s)) (serial_out s @ serial_prefix (vm_addr s) (vpid (vm s)))
      of None \<Rightarrow> Inl Not_returned | Some out \<Rightarrow> Inr out)"

definition device_serial_outb :: "u32 \<Rightarrow> u8 \<Rightarrow> monitor \<Rightarrow> monitor result" where
  "device_serial_outb port_id byte s =
     (if \<not> serial_line_iptr (vm s) < PAGE_SIZE_4K - 1 then Inl Assertion_failed else
      let s = s\<lparr>host := (host s)\<lparr>kmem := (kmem (host s))
                   (serial_line_buffer (vm s) + of_int (serial_line_iptr (vm s)) := byte)\<rparr>,
                vm := (vm s)\<lparr>serial_line_iptr := serial_line_iptr (vm s) + 1\<rparr>\<rparr>
      in if serial_line_iptr (vm s) = PAGE_SIZE_4K - 1 \<or> byte = of_char (CHR 0x0A) then
           bind_result (print_serial_line s) (\<lambda>out.
           Inr (s\<lparr>serial_out := out,
                  host := (host s)\<lparr>kmem := memset (kmem (host s)) (serial_line_buffer (vm s)) 0 PAGE_SIZE_4K\<rparr>,
                  vm := (vm s)\<lparr>serial_line_iptr := 0\<rparr>\<rparr>))
         else Inr s)"

section \<open>Video buffer\<close>

abbreviation VIDEO_BUFFER_PAGE_FRAME :: u64 where "VIDEO_BUFFER_PAGE_FRAME \<equiv> 0x1000b8000"
abbreviation VIDEO_BUFFER_BASE :: u64 where "VIDEO_BUFFER_BASE \<equiv> 0xb8000"
abbreviation VIDEO_BUFFER_ROW :: "'a::numeral" where "VIDEO_BUFFER_ROW \<equiv> 25"
abbreviation VIDEO_BUFFER_COL :: "'a::numeral" where "VIDEO_BUFFER_COL \<equiv> 80"

definition incremental_refresh_video :: "u32 \<Rightarrow> u32 \<Rightarrow> monitor \<Rightarrow> monitor" where
  "incremental_refresh_video offset sz s =
     s\<lparr>host := (host s)\<lparr>kmem := memcpy (kmem (host s)) (scast offset + VIDEO_BUFFER_BASE)
         (scast offset + video_buffer (regions (vm s))) sz\<rparr>\<rparr>"

definition full_refresh_video :: "monitor \<Rightarrow> monitor" where
  "full_refresh_video s =
     s\<lparr>host := (host s)\<lparr>kmem := memcpy (kmem (host s)) VIDEO_BUFFER_BASE (video_buffer (regions (vm s)))
         (VIDEO_BUFFER_ROW * VIDEO_BUFFER_COL * 2)\<rparr>\<rparr>"

definition video_buffer_mmio_read :: "u64 \<Rightarrow> u8 \<Rightarrow> monitor \<Rightarrow> u64 result" where
  "video_buffer_mmio_read addr access_size s =
     (let offset = addr - VIDEO_BUFFER_PAGE_FRAME in
      if \<not> offset + ucast access_size \<le> PAGE_SIZE_4K then Inl Assertion_failed
      else if access_size \<in> {1, 2, 4, 8}
      then Inr (from_le (load_bytes (kmem (host s)) (video_buffer (regions (vm s)) + offset) (unat access_size)))
      else Inl Assertion_failed)"

definition video_buffer_mmio_write :: "u64 \<Rightarrow> u8 \<Rightarrow> u64 \<Rightarrow> monitor \<Rightarrow> monitor result" where
  "video_buffer_mmio_write addr access_size val s =
     (let offset = addr - VIDEO_BUFFER_PAGE_FRAME in
      if \<not> offset + ucast access_size \<le> PAGE_SIZE_4K then Inl Assertion_failed
      else if access_size \<in> {1, 2, 4, 8}
      then Inr (incremental_refresh_video (ucast offset) (ucast access_size)
        (s\<lparr>host := (host s)\<lparr>kmem := store_bytes (kmem (host s)) (video_buffer (regions (vm s)) + offset)
             (to_le (unat access_size) val)\<rparr>\<rparr>))
      else Inl Assertion_failed)"

definition device_video_init :: "monitor \<Rightarrow> monitor result" where
  "device_video_init s =
     bind_result (setup_io_memory (ept_pml4_base (regions (vm s))) VIDEO_BUFFER_PAGE_FRAME (host s)) (\<lambda>k.
     bind_result (register_mmio_operation
       \<lparr>addr_low = VIDEO_BUFFER_PAGE_FRAME, addr_high = VIDEO_BUFFER_PAGE_FRAME + PAGE_SIZE_4K,
        mmio_read = Some Video_buffer_mmio_read, mmio_write = Some Video_buffer_mmio_write\<rparr> (mmio_ops s)) (\<lambda>ops.
     Inr (s\<lparr>host := k, mmio_ops := ops\<rparr>)))"

section \<open>Registration\<close>

fun register_each :: "portio_operation list \<Rightarrow> portio_operation list \<Rightarrow> portio_operation list result" where
  "register_each [] ops = Inr ops"
| "register_each (pio # pios) ops = bind_result (register_pio_operation pio ops) (register_each pios)"

definition vmx_device_serial_preinit :: "portio_operation list \<Rightarrow> portio_operation list result" where
  "vmx_device_serial_preinit =
     register_each (map (\<lambda>idx. \<lparr>portid = COM1_PORT_BASE + of_nat idx, call_inb = Some Device_serial_inb,
       call_outb = Some Device_serial_outb\<rparr>) [0..<6])"

definition vmx_chipset_8259pic_preinit :: "portio_operation list \<Rightarrow> portio_operation list result" where
  "vmx_chipset_8259pic_preinit =
     register_each (concat (map (\<lambda>idx.
       [\<lparr>portid = PIC_MASTER_COMMAND_PORT + of_nat idx, call_inb = Some Master_pic_inb, call_outb = Some Master_pic_outb\<rparr>,
        \<lparr>portid = PIC_SLAVE_COMMAND_PORT + of_nat idx, call_inb = Some Slave_pic_inb, call_outb = Some Slave_pic_outb\<rparr>])
       [0..<2]))"

definition vmx_chipset_8253pit_preinit :: "portio_operation list \<Rightarrow> portio_operation list result" where
  "vmx_chipset_8253pit_preinit =
     register_each (map (\<lambda>idx. \<lparr>portid = PIT_CHANNEL0_PORT + of_nat idx, call_inb = None,
       call_outb = Some Pit_outb\<rparr>) [0..<4])"

definition vmx_device_keyboard_preinit :: "portio_operation list \<Rightarrow> portio_operation list result" where
  "vmx_device_keyboard_preinit =
     register_each [\<lparr>portid = KEYBOARD_DATA_PORT, call_inb = Some Keyboard_data_inb, call_outb = None\<rparr>]"

text \<open>The device part of \<open>vm_monitor_init\<close>.\<close>

definition device_preinit :: "portio_operation list \<Rightarrow> portio_operation list result" where
  "device_preinit ops =
     bind_result (vmx_device_serial_preinit ops) (\<lambda>ops.
     bind_result (vmx_chipset_8259pic_preinit ops) (\<lambda>ops.
     bind_result (vmx_chipset_8253pit_preinit ops) (\<lambda>ops.
     vmx_device_keyboard_preinit ops)))"

section \<open>The table of ports\<close>

lemma register_each_eq: "register_each pios ops = ports.enter_all pios ops"
  by (induction pios arbitrary: ops) (auto simp: bind_result_def split: sum.splits)

lemma register_each_append:
  "register_each (xs @ ys) ops = bind_result (register_each xs ops) (register_each ys)"
  by (induction xs arbitrary: ops) (auto simp: bind_result_def split: sum.splits)

lemma ports_all_fit:
  "length ops + length pios \<le> MAX_PORTS_SUPPORTED \<Longrightarrow> \<forall>x \<in> set pios. pio_key (portid x) \<Longrightarrow> ports.all_fit pios ops"
proof (induction pios arbitrary: ops)
  case (Cons x xs)
  have "ports.all_fit xs ops'" if "register_pio_operation x ops = Inr ops'" for ops'
    by (rule Cons.IH) (use register_length [OF that] Cons.prems in auto)
  moreover have "pio_fits x ops" using Cons.prems by (simp add: pio_fits_def pio_key_def)
  ultimately show ?case by simp
qed simp

definition device_table :: "u32 \<Rightarrow> portio_operation option" where
  "device_table k =
     (if k \<in> {0x3f8, 0x3f9, 0x3fa, 0x3fb, 0x3fc, 0x3fd} then Some \<lparr>portid = k, call_inb = Some Device_serial_inb, call_outb = Some Device_serial_outb\<rparr>
      else if k \<in> {0x20, 0x21} then Some \<lparr>portid = k, call_inb = Some Master_pic_inb, call_outb = Some Master_pic_outb\<rparr>
      else if k \<in> {0xa0, 0xa1} then Some \<lparr>portid = k, call_inb = Some Slave_pic_inb, call_outb = Some Slave_pic_outb\<rparr>
      else if k \<in> {0x40, 0x41, 0x42, 0x43} then Some \<lparr>portid = k, call_inb = None, call_outb = Some Pit_outb\<rparr>
      else if k = 0x60 then Some \<lparr>portid = k, call_inb = Some Keyboard_data_inb, call_outb = None\<rparr>
      else None)"

lemma device_ports_law:
  "\<exists>ops. device_preinit [] = Inr ops \<and> pio_inv ops \<and>
     (\<forall>port :: u16. pio_lookup (ucast port) ops = Inr (device_table (ucast port)))"
proof -
  let ?s = "map (\<lambda>idx. \<lparr>portid = COM1_PORT_BASE + of_nat idx, call_inb = Some Device_serial_inb,
       call_outb = Some Device_serial_outb\<rparr>) [0..<6]"
  let ?p = "concat (map (\<lambda>idx.
       [\<lparr>portid = PIC_MASTER_COMMAND_PORT + of_nat idx, call_inb = Some Master_pic_inb, call_outb = Some Master_pic_outb\<rparr>,
        \<lparr>portid = PIC_SLAVE_COMMAND_PORT + of_nat idx, call_inb = Some Slave_pic_inb, call_outb = Some Slave_pic_outb\<rparr>])
       [0..<2])"
  let ?t = "map (\<lambda>idx. \<lparr>portid = PIT_CHANNEL0_PORT + of_nat idx, call_inb = None, call_outb = Some Pit_outb\<rparr>) [0..<4]"
  let ?k = "[\<lparr>portid = KEYBOARD_DATA_PORT, call_inb = Some Keyboard_data_inb, call_outb = None\<rparr>]"
  let ?all = "?s @ ?p @ ?t @ ?k"
  have pre: "device_preinit [] = ports.enter_all ?all []"
    unfolding register_each_eq [symmetric] register_each_append device_preinit_def vmx_device_serial_preinit_def
      vmx_chipset_8259pic_preinit_def vmx_chipset_8253pit_preinit_def vmx_device_keyboard_preinit_def
    by (simp only: bind_result_def split: sum.splits)
  have inv: "pio_inv []" by (simp add: pio_inv_def)
  have "ports.all_fit ?all []" by (rule ports_all_fit) (simp_all add: upt_rec pio_key_def)
  from ports.enter_all_law [OF inv this] obtain ops where
    ops: "ports.enter_all ?all [] = Inr ops" "pio_inv ops"
      "\<And>k. pio_key k \<Longrightarrow> pio_lookup k ops =
        (case find (\<lambda>x. pio_covers x k) (rev ?all) of Some x \<Rightarrow> Inr (Some x) | None \<Rightarrow> pio_lookup k [])" by blast
  have none: "pio_lookup k [] = Inr None" for k
    by (simp add: pio_lookup_def search_portio_callback_def SEARCH_def search_loop.simps)
  have "find (\<lambda>x. pio_covers x k) (rev ?all) = device_table k" for k
    by (simp add: upt_rec pio_covers_def device_table_def)
  then have "pio_lookup k ops = Inr (device_table k)" if "pio_key k" for k
    using ops(3) [OF that] none by (simp split: option.splits)
  moreover have "pio_key (ucast port)" for port :: u16
  proof -
    have "unat port < 65536" using unsigned_less [of port] by simp
    then show ?thesis by (simp add: pio_key_def unsigned_ucast_eq take_bit_nat_eq_self)
  qed
  ultimately show ?thesis using pre ops(1,2) by auto
qed

text \<open>
  C31 (port table). Initialising the devices registers their ports without failing an assertion, and
  afterwards the binary search finds for every port number exactly the device that owns it: serial
  line, both interrupt controllers, timer and keyboard, and nothing for any other port.
\<close>

theorem device_ports:
  "\<exists>ops. device_preinit [] = Inr ops \<and> pio_inv ops \<and>
     (\<forall>port :: u16. pio_lookup (ucast port) ops = Inr (device_table (ucast port)))"
  by (rule device_ports_law)

section \<open>Programming the timer\<close>

definition pit_program :: "u8 \<Rightarrow> u8 \<Rightarrow> pit8253_blob \<Rightarrow> pit8253_blob result" where
  "pit_program lo hi p =
     bind_result (pit_outb PIT_CONTROL_PORT 0x36 p) (\<lambda>p.
     bind_result (pit_outb PIT_CHANNEL0_PORT lo p) (\<lambda>p.
     pit_outb PIT_CHANNEL0_PORT hi p))"

lemma divisor_bytes:
  fixes lo hi :: u8
  shows "((ucast lo AND 0xff) OR push_bit 8 (ucast hi)) AND 0xffff = (of_nat (unat lo + 256 * unat hi) :: u64)"
proof -
  have m: "(0xff :: u64) = mask 8" "(0xffff :: u64) = mask 16" by (simp_all add: mask_eq_exp_minus_1)
  have "((ucast lo AND 0xff) OR push_bit 8 (ucast hi)) AND 0xffff = (ucast lo OR push_bit 8 (ucast hi) :: u64)"
    unfolding m by (rule bit_word_eqI) (auto simp: bit_simps dest: bit_imp_le_length)
  also have "\<dots> = ucast lo + push_bit 8 (ucast hi)"
    by (rule disjunctive_add [symmetric]) (auto simp: bit_simps dest: bit_imp_le_length)
  also have "\<dots> = of_nat (unat lo + 256 * unat hi)"
    by (simp add: push_bit_eq_mult mult.commute)
  finally show ?thesis .
qed

lemma c_div_of_nat:
  assumes "a < 18446744073709551616" "b < 18446744073709551616"
  shows "c_div (of_nat a) (of_nat b) = (if b = 0 then Inl Divide_error else Inr (of_nat (a div b)))"
proof -
  have "(of_nat b :: u64) = 0 \<longleftrightarrow> b = 0"
    using assms(2) by (auto simp: u64_eq_iff unat_of_nat_u64)
  moreover have "(of_nat a :: u64) div of_nat b = of_nat (a div b)"
  proof -
    have "a div b < 18446744073709551616" using assms(1) by (meson div_le_dividend le_less_trans)
    then show ?thesis using assms by (simp add: u64_eq_iff unat_div unat_of_nat_u64)
  qed
  ultimately show ?thesis by (simp add: c_div_def)
qed

text \<open>
  The three writes a driver uses to program the timer, the mode byte and the low and high
  byte of the divisor, leave the timer with that divisor and with a period in milliseconds that is the
  rounded-down quotient of 1000 by the frequency, at most 55.  The divisor 0, which the hardware takes
  as 65536, makes the monitor divide by zero instead.
\<close>

lemma pit_programming:
  "pit_program lo hi p =
     (if unat lo + 256 * unat hi = 0 then Inl Divide_error
      else Inr (p\<lparr>initial_counter := 2, divisor := of_nat (unat lo + 256 * unat hi),
                  threshold := of_nat (1000 div (1193182 div (unat lo + 256 * unat hi)))\<rparr>)) \<and>
   1000 div (1193182 div (unat lo + 256 * unat hi)) \<le> 55"
proof -
  let ?d = "unat lo + 256 * unat hi"
  have lt: "unat lo < 256" "unat hi < 256" using unsigned_less [of lo] unsigned_less [of hi] by simp_all
  then have d: "?d \<le> 65535" by linarith
  have q: "18 \<le> 1193182 div ?d" if "?d \<noteq> 0" using that d by (simp add: less_eq_div_iff_mult_less_eq)
  have "1000 div (1193182 div ?d) \<le> 55"
  proof (cases "?d = 0")
    case False
    then have "1000 div (1193182 div ?d) \<le> 1000 div 18" by (intro div_le_mono2 q) simp
    then show ?thesis by simp
  qed simp
  moreover have "c_div OSCILLATPR_CHIP_FREQUENCY (of_nat ?d) = (if ?d = 0 then Inl Divide_error else Inr (of_nat (1193182 div ?d)))"
    using c_div_of_nat [of 1193182 ?d] d by simp
  moreover have "c_div 1000 (of_nat (1193182 div ?d)) = Inr (of_nat (1000 div (1193182 div ?d)))" if "?d \<noteq> 0"
  proof -
    have "1193182 div ?d < 18446744073709551616" by (rule le_less_trans [OF div_le_dividend]) simp
    then show ?thesis using c_div_of_nat [of 1000 "1193182 div ?d"] q [OF that] by simp
  qed
  ultimately show ?thesis
    using divisor_bytes [of lo hi]
    by (simp add: pit_program_def pit_outb_def Let_def)
qed

section \<open>The serial line is line buffered\<close>

fun serial_run :: "u8 list \<Rightarrow> monitor \<Rightarrow> monitor result" where
  "serial_run [] s = Inr s"
| "serial_run (b # bs) s = bind_result (device_serial_outb COM1_PORT_BASE b s) (serial_run bs)"

text \<open>
  What a line-buffered device prints: pending bytes are held until a newline or until 4095 of them
  have gathered, then the prefix and the line, up to its first NUL, go out.
\<close>

fun line_buffering :: "u8 list \<Rightarrow> u8 list \<Rightarrow> u8 list \<Rightarrow> u8 list \<times> u8 list" where
  "line_buffering pre pend [] = ([], pend)"
| "line_buffering pre pend (b # bs) =
     (let line = pend @ [b] in
      if b = of_char (CHR 0x0A) \<or> length line = 4095
      then (case line_buffering pre [] bs of (out, rest) \<Rightarrow> (pre @ takeWhile (\<lambda>x. x \<noteq> 0) line @ out, rest))
      else line_buffering pre line bs)"

definition holds_line :: "mem \<Rightarrow> u64 \<Rightarrow> u8 list \<Rightarrow> bool" where
  "holds_line m a line \<longleftrightarrow> (\<forall>i < 4096. m (a + of_nat i) = (if i < length line then line ! i else 0))"

definition line_buffered :: "monitor \<Rightarrow> u8 list \<Rightarrow> bool" where
  "line_buffered s pend \<longleftrightarrow> serial_line_iptr (vm s) = int (length pend) \<and> length pend < 4095 \<and>
     holds_line (kmem (host s)) (serial_line_buffer (vm s)) pend"

lemma holds_line_snoc:
  assumes "holds_line m a line" "length line < 4096"
  shows "holds_line (m(a + of_nat (length line) := b)) a (line @ [b])"
proof -
  have "a + of_nat i = a + of_nat (length line) \<longleftrightarrow> i = length line" if "i < 4096" for i
    using that assms(2) unfolding add_left_cancel by (simp add: u64_eq_iff unat_of_nat_u64)
  then show ?thesis using assms(1) by (auto simp: holds_line_def nth_append)
qed

lemma holds_line_c_string:
  assumes "holds_line m a line" "length line < 4096"
  shows "c_string m a (takeWhile (\<lambda>x. x \<noteq> 0) line)"
proof -
  let ?t = "takeWhile (\<lambda>x. x \<noteq> 0) line"
  have le: "length ?t \<le> length line" by (rule length_takeWhile_le)
  have "load_bytes m a (length ?t) = ?t"
    by (rule nth_equalityI) (use assms le in \<open>auto simp: load_bytes_def holds_line_def takeWhile_nth\<close>)
  moreover have "m (a + of_nat (length ?t)) = 0"
    using assms le nth_length_takeWhile [of "\<lambda>x. x \<noteq> 0" line] by (auto simp: holds_line_def)
  moreover have "0 \<notin> set ?t" by (auto dest: set_takeWhileD)
  ultimately show ?thesis by (simp add: c_string_def)
qed

lemma holds_line_clear: "holds_line (memset m a 0 PAGE_SIZE_4K) a []"
  by (auto simp: holds_line_def memset_def word_less_nat_alt unat_of_nat_u64)

definition outside_line :: "monitor \<Rightarrow> monitor \<Rightarrow> bool" where
  "outside_line s s' \<longleftrightarrow> serial_line_buffer (vm s') = serial_line_buffer (vm s) \<and> vm_addr s' = vm_addr s \<and>
     vpid (vm s') = vpid (vm s) \<and>
     (\<forall>x. \<not> x - serial_line_buffer (vm s) < 4096 \<longrightarrow> kmem (host s') x = kmem (host s) x)"

lemma serial_step:
  assumes "line_buffered s pend"
  shows "\<exists>s'. device_serial_outb port b s = Inr s' \<and> outside_line s s' \<and>
    (if b = of_char (CHR 0x0A) \<or> length pend = 4094
     then line_buffered s' [] \<and>
       serial_out s' = serial_out s @ serial_prefix (vm_addr s) (vpid (vm s)) @ takeWhile (\<lambda>x. x \<noteq> 0) (pend @ [b])
     else line_buffered s' (pend @ [b]) \<and> serial_out s' = serial_out s)"
proof -
  let ?a = "serial_line_buffer (vm s)"
  let ?m = "(kmem (host s))(?a + of_nat (length pend) := b)"
  let ?s = "s\<lparr>host := (host s)\<lparr>kmem := ?m\<rparr>, vm := (vm s)\<lparr>serial_line_iptr := int (length pend) + 1\<rparr>\<rparr>"
  have p: "serial_line_iptr (vm s) = int (length pend)" "length pend < 4095"
    using assms by (simp_all add: line_buffered_def)
  have line: "holds_line ?m ?a (pend @ [b])"
    by (rule holds_line_snoc) (use assms in \<open>auto simp: line_buffered_def\<close>)
  have "of_nat (length pend) < (4096 :: u64)" using p(2) by (simp add: word_less_nat_alt unat_of_nat_u64)
  then have out: "outside_line s ?s" by (auto simp: outside_line_def)
  have flush: "print_serial_line ?s =
      Inr (serial_out s @ serial_prefix (vm_addr s) (vpid (vm s)) @ takeWhile (\<lambda>x. x \<noteq> 0) (pend @ [b]))"
    using printk_string_eq [OF holds_line_c_string [OF line]] p(2) by (simp add: print_serial_line_def)
  show ?thesis
  proof (cases "b = of_char (CHR 0x0A) \<or> length pend = 4094")
    case True
    let ?s' = "?s\<lparr>serial_out := serial_out s @ serial_prefix (vm_addr s) (vpid (vm s)) @ takeWhile (\<lambda>x. x \<noteq> 0) (pend @ [b]),
      host := (host s)\<lparr>kmem := memset ?m ?a 0 PAGE_SIZE_4K\<rparr>, vm := (vm s)\<lparr>serial_line_iptr := 0\<rparr>\<rparr>"
    have "device_serial_outb port b s = Inr ?s'"
      using True p flush by (auto simp: device_serial_outb_def Let_def)
    moreover have "outside_line s ?s'" using out by (auto simp: outside_line_def memset_def)
    moreover have "line_buffered ?s' []" using holds_line_clear by (simp add: line_buffered_def)
    ultimately show ?thesis using True by auto
  next
    case False
    have "device_serial_outb port b s = Inr ?s" using False p by (auto simp: device_serial_outb_def Let_def)
    moreover have "line_buffered ?s (pend @ [b])" using line False p(2) by (simp add: line_buffered_def)
    ultimately show ?thesis using False out by auto
  qed
qed

text \<open>
  C30 (serial line). The emulated serial port refines a line-buffered device: for every sequence of
  bytes the guest writes, the monitor accepts all of them, prints exactly the completed lines, each
  with the prefix naming the virtual machine, keeps the unfinished line in its one-page buffer, and
  touches no other memory.
\<close>

theorem serial_line_refines:
  assumes "line_buffered s pend"
  shows "\<exists>s'. serial_run bytes s = Inr s' \<and> outside_line s s' \<and>
    (case line_buffering (serial_prefix (vm_addr s) (vpid (vm s))) pend bytes of
      (out, rest) \<Rightarrow> line_buffered s' rest \<and> serial_out s' = serial_out s @ out)"
  using assms
proof (induction bytes arbitrary: s pend)
  case Nil
  then show ?case by (simp add: outside_line_def)
next
  case (Cons b bs)
  from serial_step [OF Cons.prems] obtain s1 where
    s1: "device_serial_outb COM1_PORT_BASE b s = Inr s1" "outside_line s s1"
      "if b = of_char (CHR 0x0A) \<or> length pend = 4094
       then line_buffered s1 [] \<and>
         serial_out s1 = serial_out s @ serial_prefix (vm_addr s) (vpid (vm s)) @ takeWhile (\<lambda>x. x \<noteq> 0) (pend @ [b])
       else line_buffered s1 (pend @ [b]) \<and> serial_out s1 = serial_out s" by blast
  have trans: "outside_line s s2" if "outside_line s1 s2" for s2
    using s1(2) that by (simp add: outside_line_def)
  have pre: "serial_prefix (vm_addr s1) (vpid (vm s1)) = serial_prefix (vm_addr s) (vpid (vm s))"
    using s1(2) by (simp add: outside_line_def)
  let ?pre = "serial_prefix (vm_addr s) (vpid (vm s))"
  let ?nl = "b = of_char (CHR 0x0A) \<or> length pend = 4094"
  let ?rest = "if ?nl then [] else pend @ [b]"
  obtain out rest where lb: "line_buffering ?pre ?rest bs = (out, rest)" by fastforce
  have "line_buffered s1 ?rest" using s1(3) by simp
  from Cons.IH [OF this] obtain s2 where s2: "serial_run bs s1 = Inr s2" "outside_line s1 s2"
    "line_buffered s2 rest" "serial_out s2 = serial_out s1 @ out" unfolding pre lb by auto
  have "line_buffering ?pre pend (b # bs) =
      (if ?nl then (?pre @ takeWhile (\<lambda>x. x \<noteq> 0) (pend @ [b]) @ out, rest) else (out, rest))"
    using lb by (auto simp: Let_def)
  moreover have "serial_run (b # bs) s = Inr s2" using s1(1) s2(1) by simp
  moreover have "serial_out s1 = (if ?nl then serial_out s @ ?pre @ takeWhile (\<lambda>x. x \<noteq> 0) (pend @ [b]) else serial_out s)"
    using s1(3) by simp
  ultimately show ?case using s2(3,4) trans [OF s2(2)] by (intro exI [of _ s2]) simp
qed

section \<open>The screen mirrors the video buffer\<close>

lemma window_offset:
  assumes "j < 4096" "off < 4096" "n \<le> 4096"
  shows "unat (of_nat j - of_nat off :: u64) < n \<longleftrightarrow> off \<le> j \<and> j < off + n"
    "off \<le> j \<Longrightarrow> unat (of_nat j - of_nat off :: u64) = j - off"
  using assms by (auto simp: unat_diff_cases unat_of_nat_u64)

lemma page_offset_eq:
  assumes "aligned 12 a" "aligned 12 b" "j < 4096" "k < 4096" "pfn a \<noteq> pfn b"
  shows "a + of_nat j \<noteq> b + of_nat k"
proof -
  have "pfn (c + of_nat i) = pfn c" if "aligned 12 c" "i < 4096" for c i
    using in_page_iff [OF that(1), of "c + of_nat i"] that(2) by (simp add: word_less_nat_alt unat_of_nat_u64)
  with assms show ?thesis by metis
qed

lemma store_bytes_window:
  assumes "j < 4096" "off < 4096" "length bs \<le> 4096"
  shows "store_bytes m (a + of_nat off) bs (a + of_nat j) =
    (if off \<le> j \<and> j < off + length bs then bs ! (j - off) else m (a + of_nat j))"
proof -
  have "a + of_nat j - (a + of_nat off) = (of_nat j - of_nat off :: u64)" by simp
  then show ?thesis using window_offset [OF assms] by (simp add: store_bytes_def)
qed

lemma store_bytes_other_page:
  assumes "aligned 12 a" "aligned 12 b" "pfn a \<noteq> pfn b" "off + length bs \<le> 4096" "j < 4096"
  shows "store_bytes m (a + of_nat off) bs (b + of_nat j) = m (b + of_nat j)"
proof -
  have "\<not> unat (b + of_nat j - (a + of_nat off)) < length bs"
  proof
    let ?i = "unat (b + of_nat j - (a + of_nat off))"
    assume lt: "?i < length bs"
    have "b + of_nat j = a + of_nat (off + ?i)" by (simp add: add.assoc [symmetric])
    moreover have "off + ?i < 4096" using lt assms(4) by simp
    ultimately show False using page_offset_eq [OF assms(1,2) _ assms(5,3)] by metis
  qed
  then show ?thesis by (simp add: store_bytes_def)
qed

lemma memcpy_pages:
  assumes ab: "aligned 12 a" "aligned 12 b" "pfn a \<noteq> pfn b" and w: "off + n \<le> 4096" "n < 4096"
  shows "memcpy m (a + of_nat off) (b + of_nat off) (of_nat n) x =
    (if unat (x - (a + of_nat off)) < n then m (b + of_nat off + (x - (a + of_nat off))) else m x)"
proof -
  have n: "sint (of_nat n :: u32) = int n" using sint_of_nat_u32 [of n] w(2) by simp
  have "memcpy_loop 0 m (a + of_nat off) (b + of_nat off) (int n) x =
      (if 0 \<le> uint (x - (a + of_nat off)) \<and> uint (x - (a + of_nat off)) < int n
       then m (b + of_nat off + (x - (a + of_nat off))) else m x)"
  proof (rule memcpy_loop_disjoint)
    fix i j assume ij: "0 \<le> i" "i < int n" "0 \<le> j" "j < int n"
    have "a + of_nat (off + nat i) \<noteq> b + of_nat (off + nat j)"
      by (rule page_offset_eq [OF ab(1,2) _ _ ab(3)]) (use ij w in linarith)+
    then show "a + of_nat off + of_int i \<noteq> b + of_nat off + of_int j" using ij by (simp add: add.assoc)
  qed (use w in simp_all)
  moreover have "uint y < int n \<longleftrightarrow> unat y < n" for y :: u64 by (simp only: uint_nat of_nat_less_iff)
  ultimately show ?thesis by (simp add: memcpy_def n)
qed

definition synced :: "monitor \<Rightarrow> bool" where
  "synced s \<longleftrightarrow> (\<forall>k < 4096. kmem (host s) (VIDEO_BUFFER_BASE + of_nat k) =
     kmem (host s) (video_buffer (regions (vm s)) + of_nat k))"

definition video_ok :: "monitor \<Rightarrow> bool" where
  "video_ok s \<longleftrightarrow> aligned 12 (video_buffer (regions (vm s))) \<and> pfn VIDEO_BUFFER_BASE \<noteq> pfn (video_buffer (regions (vm s)))"

lemma access_ok:
  assumes n: "n \<in> {1, 2, 4, 8}" "off + n \<le> 4096"
  shows "of_nat off + ucast (of_nat n :: u8) \<le> (PAGE_SIZE_4K :: u64)" "of_nat n \<in> {1, 2, 4, 8 :: u8}"
    "unat (of_nat n :: u8) = n" "ucast (of_nat n :: u8) = (of_nat n :: u32)"
proof -
  have "unat (of_nat off + of_nat n :: u64) = off + n" using n(2) by (simp add: unat_of_nat_u64 flip: of_nat_add)
  then have "of_nat off + of_nat n \<le> (PAGE_SIZE_4K :: u64)" using n(2) by (simp add: word_le_nat_alt)
  then show "of_nat off + ucast (of_nat n :: u8) \<le> (PAGE_SIZE_4K :: u64)" using n(1) by auto
qed (use n(1) in auto)

lemma video_write_memory:
  assumes ok: "video_ok s" and n: "n \<in> {1, 2, 4, 8}" "off + n \<le> 4096"
  defines "a \<equiv> VIDEO_BUFFER_PAGE_FRAME + of_nat off" and "b \<equiv> video_buffer (regions (vm s))"
  obtains m' where "video_buffer_mmio_write a (of_nat n) val s = Inr (s\<lparr>host := (host s)\<lparr>kmem := m'\<rparr>\<rparr>)"
    "\<And>k. k < 4096 \<Longrightarrow> m' (b + of_nat k) =
      (if off \<le> k \<and> k < off + n then to_le n val ! (k - off) else kmem (host s) (b + of_nat k))"
    "\<And>k. k < 4096 \<Longrightarrow> m' (VIDEO_BUFFER_BASE + of_nat k) =
      (if off \<le> k \<and> k < off + n then to_le n val ! (k - off) else kmem (host s) (VIDEO_BUFFER_BASE + of_nat k))"
    "\<And>x. pfn x \<noteq> pfn b \<Longrightarrow> pfn x \<noteq> pfn VIDEO_BUFFER_BASE \<Longrightarrow> m' x = kmem (host s) x"
proof
  let ?v = VIDEO_BUFFER_BASE
  have al: "aligned 12 ?v" "aligned 12 b" "pfn ?v \<noteq> pfn b"
    using ok by (simp_all add: video_ok_def b_def aligned_def)
  have w: "n < 4096" "off < 4096" "n \<le> 4096" "length (to_le n val) \<le> 4096" using n by auto
  define m1 where "m1 = store_bytes (kmem (host s)) (b + of_nat off) (to_le n val)"
  define m2 where "m2 = memcpy m1 (?v + of_nat off) (b + of_nat off) (of_nat n)"
  have off: "a - VIDEO_BUFFER_PAGE_FRAME = of_nat off" by (simp add: a_def)
  have sc: "scast (ucast (of_nat off :: u64) :: u32) = (of_nat off :: u64)"
  proof -
    have "(ucast (of_nat off :: u64) :: u32) = of_nat off" using w(2) by (simp add: unsigned_of_nat take_bit_nat_eq_self)
    moreover have "scast (of_nat off :: u32) = (of_int (sint (of_nat off :: u32)) :: u64)" by simp
    ultimately show ?thesis using sint_of_nat_u32 [of off] w(2) by simp
  qed
  note chk = access_ok [OF n]
  show "video_buffer_mmio_write a (of_nat n) val s = Inr (s\<lparr>host := (host s)\<lparr>kmem := m2\<rparr>\<rparr>)"
    using chk by (simp add: video_buffer_mmio_write_def Let_def off incremental_refresh_video_def sc m2_def m1_def b_def add.commute)
  have m1b: "m1 (b + of_nat k) = (if off \<le> k \<and> k < off + n then to_le n val ! (k - off) else kmem (host s) (b + of_nat k))"
    if "k < 4096" for k
    unfolding m1_def using store_bytes_window [OF that w(2,4)] by simp
  have m1v: "m1 (?v + of_nat k) = kmem (host s) (?v + of_nat k)" if "k < 4096" for k
    unfolding m1_def by (rule store_bytes_other_page [OF al(2,1) al(3) [symmetric] _ that]) (use n(2) in simp)
  note m2x = memcpy_pages [OF al n(2) w(1), of m1, folded m2_def]
  show "m2 (b + of_nat k) = (if off \<le> k \<and> k < off + n then to_le n val ! (k - off) else kmem (host s) (b + of_nat k))"
    if k: "k < 4096" for k
  proof -
    have "\<not> unat (b + of_nat k - (?v + of_nat off)) < n"
    proof
      let ?i = "unat (b + of_nat k - (?v + of_nat off))"
      assume lt: "?i < n"
      have "b + of_nat k = ?v + of_nat (off + ?i)" by (simp add: add.assoc [symmetric])
      moreover have "off + ?i < 4096" using lt n(2) by simp
      ultimately show False using page_offset_eq [OF al(1,2) _ k al(3)] by metis
    qed
    then have "m2 (b + of_nat k) = m1 (b + of_nat k)" by (simp only: m2x if_False)
    with m1b [OF k] show ?thesis by simp
  qed
  show "m2 (?v + of_nat k) = (if off \<le> k \<and> k < off + n then to_le n val ! (k - off) else kmem (host s) (?v + of_nat k))"
    if k: "k < 4096" for k
  proof -
    have d: "?v + of_nat k - (?v + of_nat off) = (of_nat k - of_nat off :: u64)" by simp
    have "b + of_nat off + (of_nat k - of_nat off) = b + of_nat k" by simp
    then have "m2 (?v + of_nat k) = (if off \<le> k \<and> k < off + n then m1 (b + of_nat k) else m1 (?v + of_nat k))"
      unfolding m2x d window_offset(1) [OF k w(2,3)] by simp
    with m1b [OF k] m1v [OF k] show ?thesis by simp
  qed
  show "m2 x = kmem (host s) x" if x: "pfn x \<noteq> pfn b" "pfn x \<noteq> pfn ?v" for x
  proof -
    have far: "\<not> unat (x - (c + of_nat off)) < n" if c: "aligned 12 c" "pfn x \<noteq> pfn c" for c
    proof
      let ?i = "unat (x - (c + of_nat off))"
      assume lt: "?i < n"
      have "x = c + of_nat (off + ?i)" by (simp add: add.assoc [symmetric])
      moreover have "c + of_nat (off + ?i) - c < 4096"
        using lt n(2) by (simp add: word_less_nat_alt unat_of_nat_u64 del: of_nat_add)
      ultimately show False using in_page_iff [OF c(1), of x] c(2) by simp
    qed
    have "m2 x = m1 x" using far [OF al(1) x(2)] by (simp only: m2x if_False)
    also have "\<dots> = kmem (host s) x" using far [OF al(2) x(1)] by (simp add: m1_def store_bytes_def)
    finally show ?thesis .
  qed
qed

lemma from_le_to_le_take: "from_le (to_le n w) = take_bit (8 * n) w" for w :: u64
  by (rule bit_word_eqI) (auto simp: bit_from_le to_le_def bit_simps less_mult_imp_div_less mult.commute
      div_less_iff_less_mult)

lemma video_write_coherent_law:
  assumes "video_ok s" "synced s" "n \<in> {1, 2, 4, 8}" "off + n \<le> 4096"
  shows "\<exists>s'. video_buffer_mmio_write (VIDEO_BUFFER_PAGE_FRAME + of_nat off) (of_nat n) val s = Inr s' \<and>
    synced s' \<and> video_ok s' \<and>
    video_buffer_mmio_read (VIDEO_BUFFER_PAGE_FRAME + of_nat off) (of_nat n) s' = Inr (take_bit (8 * n) val) \<and>
    (\<forall>x. pfn x \<noteq> pfn (video_buffer (regions (vm s))) \<longrightarrow> pfn x \<noteq> pfn VIDEO_BUFFER_BASE \<longrightarrow>
      kmem (host s') x = kmem (host s) x)"
proof -
  let ?b = "video_buffer (regions (vm s))"
  from video_write_memory [OF assms(1,3,4), where val = val] obtain m' where
    m': "video_buffer_mmio_write (VIDEO_BUFFER_PAGE_FRAME + of_nat off) (of_nat n) val s = Inr (s\<lparr>host := (host s)\<lparr>kmem := m'\<rparr>\<rparr>)"
      "\<And>k. k < 4096 \<Longrightarrow> m' (?b + of_nat k) =
        (if off \<le> k \<and> k < off + n then to_le n val ! (k - off) else kmem (host s) (?b + of_nat k))"
      "\<And>k. k < 4096 \<Longrightarrow> m' (VIDEO_BUFFER_BASE + of_nat k) =
        (if off \<le> k \<and> k < off + n then to_le n val ! (k - off) else kmem (host s) (VIDEO_BUFFER_BASE + of_nat k))"
      "\<And>x. pfn x \<noteq> pfn ?b \<Longrightarrow> pfn x \<noteq> pfn VIDEO_BUFFER_BASE \<Longrightarrow> m' x = kmem (host s) x" by blast
  let ?s' = "s\<lparr>host := (host s)\<lparr>kmem := m'\<rparr>\<rparr>"
  have "synced ?s'" using assms(2) by (auto simp: synced_def m'(2,3))
  moreover have "load_bytes m' (?b + of_nat off) n = to_le n val"
  proof (rule nth_equalityI)
    fix i assume i: "i < length (load_bytes m' (?b + of_nat off) n)"
    then have "m' (?b + of_nat (off + i)) = to_le n val ! i"
      using m'(2) [of "off + i"] assms(4) by (simp add: load_bytes_def)
    with i show "load_bytes m' (?b + of_nat off) n ! i = to_le n val ! i" by (simp add: load_bytes_def add.assoc)
  qed (simp add: load_bytes_def)
  then have "video_buffer_mmio_read (VIDEO_BUFFER_PAGE_FRAME + of_nat off) (of_nat n) ?s' = Inr (take_bit (8 * n) val)"
    using access_ok [OF assms(3,4)] by (simp add: video_buffer_mmio_read_def Let_def from_le_to_le_take)
  moreover have "video_ok ?s'" using assms(1) by (simp add: video_ok_def)
  ultimately show ?thesis using m'(1,4) by auto
qed

text \<open>
  A write of 1, 2, 4 or 8 bytes by the guest into its video page is accepted, can be
  read back, and keeps the invariant that the host's screen memory shows the guest's video page byte
  for byte, although only the written bytes are copied.  No memory outside those two pages changes.
\<close>

lemma video_write_coherent:
  assumes "video_ok s" "synced s" "n \<in> {1, 2, 4, 8}" "off + n \<le> 4096"
  shows "\<exists>s'. video_buffer_mmio_write (VIDEO_BUFFER_PAGE_FRAME + of_nat off) (of_nat n) val s = Inr s' \<and>
    synced s' \<and> video_ok s' \<and>
    video_buffer_mmio_read (VIDEO_BUFFER_PAGE_FRAME + of_nat off) (of_nat n) s' = Inr (take_bit (8 * n) val) \<and>
    (\<forall>x. pfn x \<noteq> pfn (video_buffer (regions (vm s))) \<longrightarrow> pfn x \<noteq> pfn VIDEO_BUFFER_BASE \<longrightarrow>
      kmem (host s') x = kmem (host s) x)"
  using assms by (rule video_write_coherent_law)

theorem serial_line_refines_witness:
  "\<exists>s'. serial_run (map of_char (''hi'' @ [CHR 0x0A] @ ''x'')) sample_monitor = Inr s' \<and>
     serial_out s' = map of_char (''[vm:0x200b000(vpid:1)] hi'' @ [CHR 0x0A]) \<and> line_buffered s' [of_char (CHR ''x'')]"
proof -
  have "line_buffered sample_monitor []"
    by (simp add: line_buffered_def holds_line_def sample_monitor_def sample_kstate_def)
  from serial_line_refines [OF this, of "map of_char (''hi'' @ [CHR 0x0A] @ ''x'')"] obtain s' where
    s': "serial_run (map of_char (''hi'' @ [CHR 0x0A] @ ''x'')) sample_monitor = Inr s'"
      "case line_buffering (serial_prefix (vm_addr sample_monitor) (vpid (vm sample_monitor))) []
         (map of_char (''hi'' @ [CHR 0x0A] @ ''x'')) of
       (out, rest) \<Rightarrow> line_buffered s' rest \<and> serial_out s' = serial_out sample_monitor @ out"
    by (elim exE conjE)
  have "serial_prefix (vm_addr sample_monitor) (vpid (vm sample_monitor)) = map of_char ''[vm:0x200b000(vpid:1)] ''"
    "serial_out sample_monitor = []"
    by (simp_all add: sample_monitor_def serial_prefix_def Let_def printk_decimal_def resolve_eq render_hex_def render_dec_def
        hex_digits_def digits.simps)
  with s'(2) have "line_buffered s' [of_char (CHR ''x'')] \<and>
    serial_out s' = map of_char (''[vm:0x200b000(vpid:1)] hi'' @ [CHR 0x0A])" by simp
  with s'(1) show ?thesis by blast
qed

theorem video_write_coherent_witness:
  "\<exists>s'. video_buffer_mmio_write (VIDEO_BUFFER_PAGE_FRAME + of_nat 160) (of_nat 2) 0x0741 sample_monitor = Inr s' \<and>
     video_buffer_mmio_read (VIDEO_BUFFER_PAGE_FRAME + of_nat 160) (of_nat 2) s' = Inr 0x0741 \<and> synced s'"
proof -
  have "video_ok sample_monitor" "synced sample_monitor"
    by (simp_all add: video_ok_def synced_def sample_monitor_def sample_kstate_def aligned_iff_dvd pfn_def)
  from video_write_coherent [OF this, of 2 160 "0x0741"] show ?thesis by auto
qed

end
