(* ===== verification/Vmx_Event.thy ===== *)
theory Vmx_Event
  imports Devices
begin

text \<open>
  Delivery of interrupts to the guest: \<open>vm_monitor/vmx_event.c\<close>, which keeps a request per interrupt
  line and injects them one at a time when the guest can take them, and \<open>vmx_schedule.c\<close>, which turns
  interrupts of the host into requests.  What the host reads from hardware, the time stamp counter and
  the keyboard port, is an input; \<^verbatim>\<open>stack_junk\<close> is the value of the uninitialised variable
  that receives the scan code.
\<close>

section \<open>Requests and injection\<close>

definition raise_interrupt_raw :: "int \<Rightarrow> monitor \<Rightarrow> monitor result" where
  "raise_interrupt_raw vector s =
     (if 0 \<le> vector \<and> vector < 15
      then Inr (s\<lparr>interrupt_request_bitmap := (interrupt_request_bitmap s)[nat vector := 1]\<rparr>)
      else Inl Assertion_failed)"

text \<open>
  For a line of the first controller that is not masked there, the code goes on to test the second
  controller's mask with a negative shift count.  The processor takes the count modulo 32, which is
  what the model does; the result is a bit above the eight of the mask.
\<close>

definition is_interrupt_pin_masked :: "int \<Rightarrow> monitor \<Rightarrow> bool result" where
  "is_interrupt_pin_masked vector s =
     (if 0 \<le> vector \<and> vector < 15
      then Inr (vector \<le> 7 \<and> ucast (master_pic_data (pic (vm s))) AND push_bit (nat vector) 1 \<noteq> (0 :: u32) \<or>
             ucast (slave_pic_data (pic (vm s))) AND push_bit (nat ((vector - 8) mod 32)) 1 \<noteq> (0 :: u32))
      else Inl Assertion_failed)"

definition enable_interrupt_window :: "monitor \<Rightarrow> monitor" where
  "enable_interrupt_window s =
     vmwrite CTLS_PRI_PROC_BASED_VM_EXECUTION (vmx_read CTLS_PRI_PROC_BASED_VM_EXECUTION s OR 4) s"

definition disable_interrupt_window :: "monitor \<Rightarrow> monitor" where
  "disable_interrupt_window s =
     vmwrite CTLS_PRI_PROC_BASED_VM_EXECUTION (vmx_read CTLS_PRI_PROC_BASED_VM_EXECUTION s AND NOT 4) s"

definition raise_interrupt :: "int \<Rightarrow> monitor \<Rightarrow> monitor result" where
  "raise_interrupt vector s =
     bind_result (is_interrupt_pin_masked vector s) (\<lambda>masked.
     if masked then Inr s else
     bind_result (raise_interrupt_raw vector s) (\<lambda>s. Inr (enable_interrupt_window s)))"

definition is_injectable :: "monitor \<Rightarrow> bool" where
  "is_injectable s \<longleftrightarrow> vmx_read GUEST_RFLAG s AND 0x200 \<noteq> 0"

definition inject_external_event :: "int \<Rightarrow> monitor \<Rightarrow> monitor result" where
  "inject_external_event vector s =
     (if vmx_read GUEST_RFLAG s AND 0x200 \<noteq> 0
      then Inr (vmwrite VMENTRY_INTRRUPTION_INFO ((of_int vector AND 0xff) OR 0xffffffff80000000) s)
      else Inl Assertion_failed)"

definition set_pic :: "(pic8259_blob \<Rightarrow> pic8259_blob) \<Rightarrow> monitor \<Rightarrow> monitor" where
  "set_pic f s = s\<lparr>vm := (vm s)\<lparr>pic := f (pic (vm s))\<rparr>\<rparr>"

text \<open>The bookkeeping for the interrupt delivered last.\<close>

definition retire_delivered :: "monitor \<Rightarrow> monitor result" where
  "retire_delivered s =
     (let v = interrupt_delivery_vector (pic (vm s)) in
      if v \<noteq> PIC_INVALID_VECTOR then
        if \<not> v < 15 then Inl Assertion_failed
        else if v = 1 then
          bind_result (ring_dequeue (kbd (vm s)) 0) (\<lambda>(n, dummy, kbd_ring).
          let s = s\<lparr>vm := (vm s)\<lparr>kbd := kbd_ring\<rparr>\<rparr> in
          if ring_empty kbd_ring then
            Inr (set_pic (interrupt_delivery_vector_update (\<lambda>_. PIC_INVALID_VECTOR))
              (s\<lparr>interrupt_request_bitmap := (interrupt_request_bitmap s)[1 := 0]\<rparr>))
          else Inr s)
        else
          Inr (set_pic (interrupt_delivery_vector_update (\<lambda>_. PIC_INVALID_VECTOR))
            (s\<lparr>interrupt_request_bitmap := (interrupt_request_bitmap s)[unat v := 0]\<rparr>))
      else Inr s)"

function request_loop :: "nat \<Rightarrow> u8 list \<Rightarrow> nat" where
  "request_loop idx bm = (if idx < 15 then if bm ! idx \<noteq> 0 then idx else request_loop (idx + 1) bm else idx)"
  by pat_completeness auto
termination by (relation "measure (\<lambda>(idx, bm). 15 - idx)") simp_all

declare request_loop.simps [simp del]

definition deliver_next :: "monitor \<Rightarrow> monitor result" where
  "deliver_next s =
     (let idx = request_loop 0 (interrupt_request_bitmap s) in
      if idx < 15 then
        bind_result (inject_external_event (int (unat (master_pic_offset (pic (vm s)))) + int idx) s) (\<lambda>s.
        Inr (set_pic (\<lambda>p. p\<lparr>interrupt_delivery_vector := of_nat idx, interrupt_delivery_pending := 1\<rparr>) s))
      else Inr s)"

definition interrupt_window_exit_sub_handler :: "monitor \<Rightarrow> monitor result" where
  "interrupt_window_exit_sub_handler s =
     (if \<not> is_injectable s then Inl Assertion_failed else
      bind_result
        (if interrupt_delivery_pending (pic (vm s)) = 0 then bind_result (retire_delivered s) deliver_next else Inr s)
        (\<lambda>s. Inr (if interrupt_delivery_pending (pic (vm s)) = 0 then disable_interrupt_window s else s)))"

definition vmx_event_preinit :: "monitor \<Rightarrow> monitor" where
  "vmx_event_preinit s = s\<lparr>interrupt_request_bitmap := replicate 15 0\<rparr>"

section \<open>Interrupts of the host\<close>

record host_input =
  tsc_now :: u64
  kbd_port :: u8
  stack_junk :: u8

abbreviation CPU_FREQUENCY :: u64 where "CPU_FREQUENCY \<equiv> 2494254000"

definition set_pit :: "(pit8253_blob \<Rightarrow> pit8253_blob) \<Rightarrow> monitor \<Rightarrow> monitor" where
  "set_pit f s = s\<lparr>vm := (vm s)\<lparr>pit := f (pit (vm s))\<rparr>\<rparr>"

definition timer_tick :: "u64 \<Rightarrow> monitor \<Rightarrow> monitor result" where
  "timer_tick curr_tsc s =
     (if last_tsc (pit (vm s)) = 0 then Inr (set_pit (last_tsc_update (\<lambda>_. curr_tsc)) s)
      else
        let diff_mseconds = ((curr_tsc - last_tsc (pit (vm s))) * 1000) div CPU_FREQUENCY in
        bind_result (if diff_mseconds \<ge> threshold (pit (vm s)) then raise_interrupt 0 s else Inr s) (\<lambda>s.
        Inr (set_pit (last_tsc_update (\<lambda>_. curr_tsc)) s)))"

definition try_retrieve_scancode :: "host_input \<Rightarrow> u8 \<Rightarrow> u8" where
  "try_retrieve_scancode i scancode = (if kbd_port i = 0 then scancode else kbd_port i)"

definition keyboard_tick :: "host_input \<Rightarrow> monitor \<Rightarrow> monitor result" where
  "keyboard_tick i s =
     bind_result (ring_enqueue (kbd (vm s)) (try_retrieve_scancode i (stack_junk i))) (\<lambda>(n, kbd_ring).
     raise_interrupt 1 (s\<lparr>vm := (vm s)\<lparr>kbd := kbd_ring\<rparr>\<rparr>))"

definition external_interrupt_sub_handler :: "u16 \<Rightarrow> host_input \<Rightarrow> monitor \<Rightarrow> monitor result" where
  "external_interrupt_sub_handler vector i s =
     (if vector = 0x20 then timer_tick (tsc_now i) s
      else if vector = 0x21 then keyboard_tick i s
      else Inl Panic_exit)"

definition external_interrupt_exit_sub_handler :: "host_input \<Rightarrow> monitor \<Rightarrow> monitor result" where
  "external_interrupt_exit_sub_handler i s =
     (let interrupt_info = vmx_read VMEXIT_INTERRUPT_INFORMATION s in
      if \<not> bit interrupt_info 31 then Inl Assertion_failed
      else if bf_get 8 3 interrupt_info = 0 then
        bind_result (external_interrupt_sub_handler (ucast (interrupt_info AND 0xff)) i s) (\<lambda>s.
        Inr (s\<lparr>eoi_count := eoi_count s + 1\<rparr>))
      else Inl Panic_exit)"

section \<open>The invariant of delivery\<close>

text \<open>
  The interrupt window is open whenever a request is outstanding or a delivered interrupt awaits its
  acknowledgement: no request is ever left without the exit that will deliver it.
\<close>

definition window_open :: "monitor \<Rightarrow> bool" where
  "window_open s \<longleftrightarrow> bit (vmx_read CTLS_PRI_PROC_BASED_VM_EXECUTION s) 2"

definition requested :: "monitor \<Rightarrow> nat \<Rightarrow> bool" where
  "requested s i \<longleftrightarrow> i < 15 \<and> interrupt_request_bitmap s ! i \<noteq> 0"

definition event_fields :: "monitor \<Rightarrow> bool" where
  "event_fields s \<longleftrightarrow> vmcs_supported s CTLS_PRI_PROC_BASED_VM_EXECUTION \<and> vmcs_supported s VMENTRY_INTRRUPTION_INFO"

definition event_inv :: "monitor \<Rightarrow> bool" where
  "event_inv s \<longleftrightarrow> length (interrupt_request_bitmap s) = 15 \<and> ring_ok (kbd (vm s)) \<and>
     (interrupt_delivery_vector (pic (vm s)) < 15 \<or> interrupt_delivery_vector (pic (vm s)) = PIC_INVALID_VECTOR) \<and>
     ((\<exists>i. requested s i) \<or> interrupt_delivery_pending (pic (vm s)) \<noteq> 0 \<longrightarrow> window_open s)"

lemma vmx_read_vmwrite_same:
  "vmcs_supported s e \<Longrightarrow> bf_get 10 2 e \<noteq> 1 \<Longrightarrow> \<not> bit e 0 \<Longrightarrow>
   vmx_read e (vmwrite e v s) = take_bit (field_width e) v"
  by (simp add: vmx_read_def vmwrite_full)

lemma vmx_read_vmwrite_other:
  "e' \<noteq> e \<Longrightarrow> \<not> bit e 0 \<Longrightarrow> \<not> bit e' 0 \<Longrightarrow> vmx_read e' (vmwrite e v s) = vmx_read e' s"
  by (simp add: vmx_read_def vmwrite_def vmx_write_def)

lemma vmx_read_update [simp]:
  "vmx_read e (s\<lparr>vm := v\<rparr>) = vmx_read e s" "vmx_read e (s\<lparr>interrupt_request_bitmap := b\<rparr>) = vmx_read e s"
  "vmx_read e (s\<lparr>eoi_count := n\<rparr>) = vmx_read e s" "vmx_read e (s\<lparr>host := k\<rparr>) = vmx_read e s"
  "vmx_read e (set_pic f s) = vmx_read e s" "vmx_read e (set_pit g s) = vmx_read e s"
  by (simp_all add: vmx_read_def set_pic_def set_pit_def)

lemma window_enable: "event_fields s \<Longrightarrow> window_open (enable_interrupt_window s)"
  by (simp add: window_open_def enable_interrupt_window_def event_fields_def vmx_read_vmwrite_same bf_get_def field_width_def
      bit_take_bit_iff bit_or_iff)

lemma window_disable: "event_fields s \<Longrightarrow> \<not> window_open (disable_interrupt_window s)"
  by (simp add: window_open_def disable_interrupt_window_def event_fields_def vmx_read_vmwrite_same bf_get_def field_width_def
      bit_take_bit_iff bit_and_iff bit_not_iff)

lemma window_simps [simp]:
  "window_open (s\<lparr>vm := v\<rparr>) = window_open s" "window_open (s\<lparr>interrupt_request_bitmap := b\<rparr>) = window_open s"
  "window_open (set_pic f s) = window_open s" "window_open (set_pit g s) = window_open s"
  by (simp_all add: window_open_def)

lemma event_simps [simp]:
  "interrupt_request_bitmap (set_pic f s) = interrupt_request_bitmap s" "pic (vm (set_pic f s)) = f (pic (vm s))"
  "kbd (vm (set_pic f s)) = kbd (vm s)" "pit (vm (set_pic f s)) = pit (vm s)" "vmcs_supported (set_pic f s) = vmcs_supported s"
  "interrupt_request_bitmap (set_pit g s) = interrupt_request_bitmap s" "pic (vm (set_pit g s)) = pic (vm s)"
  "kbd (vm (set_pit g s)) = kbd (vm s)" "pit (vm (set_pit g s)) = g (pit (vm s))" "vmcs_supported (set_pit g s) = vmcs_supported s"
  "interrupt_request_bitmap (enable_interrupt_window s) = interrupt_request_bitmap s" "vm (enable_interrupt_window s) = vm s"
  "vmcs_supported (enable_interrupt_window s) = vmcs_supported s"
  "interrupt_request_bitmap (disable_interrupt_window s) = interrupt_request_bitmap s" "vm (disable_interrupt_window s) = vm s"
  "vmcs_supported (disable_interrupt_window s) = vmcs_supported s"
  by (simp_all add: set_pic_def set_pit_def enable_interrupt_window_def disable_interrupt_window_def)

lemma pin_bit: "(ucast (m :: u8) AND 2 ^ n = (0 :: u32)) = (\<not> (n < 8 \<and> bit m n))"
  by (auto simp: and_exp_eq_0_iff_not_bit bit_ucast_iff dest: bit_imp_le_length)

definition pin_masked :: "pic8259_blob \<Rightarrow> nat \<Rightarrow> bool" where
  "pin_masked p i = (if i < 8 then bit (master_pic_data p) i else bit (slave_pic_data p) (i - 8))"

lemma pin_masked_eq:
  assumes "i < 15" shows "is_interrupt_pin_masked (int i) s = Inr (pin_masked (pic (vm s)) i)"
proof (cases "i < 8")
  case True
  have "(int i - 8) mod 32 = (int i - 8 + 32) mod 32" by (rule mod_add_self2 [symmetric])
  with True have "8 \<le> nat ((int i - 8) mod 32)" by simp
  then show ?thesis using True assms by (simp add: is_interrupt_pin_masked_def pin_bit pin_masked_def)
next
  case False
  then have "nat ((int i - 8) mod 32) = i - 8" "i - 8 < 8" using assms by simp_all
  then show ?thesis using False assms by (simp add: is_interrupt_pin_masked_def pin_bit pin_masked_def)
qed

lemma raise_interrupt_eq:
  assumes "i < 15"
  shows "raise_interrupt (int i) s =
    Inr (if pin_masked (pic (vm s)) i then s
         else enable_interrupt_window (s\<lparr>interrupt_request_bitmap := (interrupt_request_bitmap s)[i := 1]\<rparr>))"
  using assms by (simp add: raise_interrupt_def pin_masked_eq raise_interrupt_raw_def)

lemma event_inv_raise:
  assumes "event_inv s" "event_fields s"
  shows "event_inv (enable_interrupt_window (s\<lparr>interrupt_request_bitmap := (interrupt_request_bitmap s)[i := 1]\<rparr>))"
  using assms window_enable [of "s\<lparr>interrupt_request_bitmap := (interrupt_request_bitmap s)[i := 1]\<rparr>"]
  by (simp add: event_inv_def event_fields_def)

lemma request_loop_spec:
  "length bm = 15 \<Longrightarrow> i \<le> 15 \<Longrightarrow>
   i \<le> request_loop i bm \<and> request_loop i bm \<le> 15 \<and> (\<forall>j. i \<le> j \<longrightarrow> j < request_loop i bm \<longrightarrow> bm ! j = 0) \<and>
   (request_loop i bm < 15 \<longrightarrow> bm ! request_loop i bm \<noteq> 0)"
proof (induction i bm rule: request_loop.induct)
  case (1 i bm)
  show ?case
  proof (cases "i < 15 \<and> bm ! i = 0")
    case True
    then have eq: "request_loop i bm = request_loop (i + 1) bm" by (subst request_loop.simps) simp
    have "(i + 1 \<le> request_loop (i + 1) bm \<and> request_loop (i + 1) bm \<le> 15 \<and>
        (\<forall>j. i + 1 \<le> j \<longrightarrow> j < request_loop (i + 1) bm \<longrightarrow> bm ! j = 0) \<and>
        (request_loop (i + 1) bm < 15 \<longrightarrow> bm ! request_loop (i + 1) bm \<noteq> 0))"
      by (rule 1(1)) (use True 1(2) in auto)
    moreover have "i = j \<or> i + 1 \<le> j" if "i \<le> j" for j using that by linarith
    ultimately show ?thesis unfolding eq using True by (metis Suc_eq_plus1 Suc_leD)
  next
    case False
    then have "request_loop i bm = i" by (subst request_loop.simps) auto
    with False 1(3) show ?thesis by auto
  qed
qed

text \<open>What the interrupt delivered last still holds: its request bit, or the oldest scan code.\<close>

definition outstanding :: "monitor \<Rightarrow> u8 list" where
  "outstanding s =
     (let v = interrupt_delivery_vector (pic (vm s)) in
      if v = PIC_INVALID_VECTOR then interrupt_request_bitmap s
      else if v = 1 \<and> tl (ring_list (kbd (vm s))) \<noteq> [] then interrupt_request_bitmap s
      else (interrupt_request_bitmap s)[unat v := 0])"

definition retires :: "monitor \<Rightarrow> monitor \<Rightarrow> bool" where
  "retires s s1 \<longleftrightarrow> vmcs_supported s1 = vmcs_supported s \<and> interrupt_request_bitmap s1 = outstanding s \<and>
     ring_ok (kbd (vm s1)) \<and> master_pic_offset (pic (vm s1)) = master_pic_offset (pic (vm s)) \<and>
     ring_list (kbd (vm s1)) =
       (if interrupt_delivery_vector (pic (vm s)) = 1 then tl (ring_list (kbd (vm s))) else ring_list (kbd (vm s))) \<and>
     (interrupt_delivery_vector (pic (vm s1)) < 15 \<or> interrupt_delivery_vector (pic (vm s1)) = PIC_INVALID_VECTOR)"

lemma retire_law:
  assumes "event_inv s"
  shows "\<exists>s1. retire_delivered s = Inr s1 \<and> retires s s1 \<and> vmcs s1 = vmcs s \<and>
    interrupt_delivery_pending (pic (vm s1)) = interrupt_delivery_pending (pic (vm s))"
proof -
  let ?v = "interrupt_delivery_vector (pic (vm s))"
  have inv: "ring_ok (kbd (vm s))" "?v < 15 \<or> ?v = PIC_INVALID_VECTOR"
    using assms by (auto simp: event_inv_def)
  consider "?v = PIC_INVALID_VECTOR" | "?v \<noteq> PIC_INVALID_VECTOR" "?v = 1" | "?v \<noteq> PIC_INVALID_VECTOR" "?v \<noteq> 1" by blast
  then show ?thesis
  proof cases
    case 1
    with inv show ?thesis by (intro exI [of _ s]) (simp add: retire_delivered_def retires_def outstanding_def)
  next
    case 2
    from ring_dequeue_law [OF inv(1), of 0] obtain q where q: "ring_dequeue (kbd (vm s)) 0 =
        Inr (if ring_list (kbd (vm s)) = [] then 0 else 1, if ring_list (kbd (vm s)) = [] then 0 else hd (ring_list (kbd (vm s))), q)"
      "ring_ok q" "ring_list q = tl (ring_list (kbd (vm s)))" by blast
    let ?s = "s\<lparr>vm := (vm s)\<lparr>kbd := q\<rparr>\<rparr>"
    let ?t = "set_pic (interrupt_delivery_vector_update (\<lambda>_. PIC_INVALID_VECTOR))
              (?s\<lparr>interrupt_request_bitmap := (interrupt_request_bitmap s)[1 := 0]\<rparr>)"
    have e: "ring_empty q \<longleftrightarrow> ring_list q = []"
      using ring_empty_iff [OF q(2)] by (metis length_0_conv length_ring_list)
    show ?thesis
      by (rule exI [of _ "if ring_list q = [] then ?t else ?s"])
        (use 2 inv q e in \<open>simp add: retire_delivered_def retires_def outstanding_def set_pic_def\<close>)
  next
    case 3
    show ?thesis
      by (rule exI [of _ "set_pic (interrupt_delivery_vector_update (\<lambda>_. PIC_INVALID_VECTOR))
            (s\<lparr>interrupt_request_bitmap := (interrupt_request_bitmap s)[unat ?v := 0]\<rparr>)"])
        (use 3 inv in \<open>simp add: retire_delivered_def retires_def outstanding_def set_pic_def\<close>)
  qed
qed

lemma outstanding_length [simp]: "length (outstanding s) = length (interrupt_request_bitmap s)"
  by (simp add: outstanding_def Let_def)

lemma injectable_cong:
  assumes "vmcs s1 GUEST_RFLAG = vmcs s GUEST_RFLAG" "vmcs_supported s1 = vmcs_supported s"
  shows "is_injectable s1 = is_injectable s"
  unfolding is_injectable_def vmx_read_def assms by simp

lemma window_cong:
  assumes "vmcs s1 CTLS_PRI_PROC_BASED_VM_EXECUTION = vmcs s CTLS_PRI_PROC_BASED_VM_EXECUTION" "vmcs_supported s1 = vmcs_supported s"
  shows "window_open s1 = window_open s"
  unfolding window_open_def vmx_read_def assms by simp

definition interruption_info :: "u8 \<Rightarrow> u64" where
  "interruption_info vector = 0x80000000 OR ucast vector"

lemma interruption_info_eq:
  "(take_bit 32 ((of_int k AND 0xff) OR 0xffffffff80000000) :: u64) = interruption_info (of_int k)"
proof -
  have "(of_int k :: u64) AND 0xff = ucast (of_int k :: u8)"
    using take_bit_eq_mask [of 8 "of_int k :: u64"] by (simp add: unsigned_of_int take_bit_of_int mask_eq_exp_minus_1)
  moreover have "take_bit 32 (ucast (w :: u8)) = (ucast w :: u64)" for w
    by (rule bit_word_eqI) (auto simp: bit_take_bit_iff bit_ucast_iff dest: bit_imp_le_length)
  ultimately show ?thesis by (simp add: take_bit_or interruption_info_def or.commute)
qed

lemma inject_eq:
  assumes "event_fields s" "is_injectable s"
  shows "inject_external_event (uint o8 + int idx) s =
    Inr (s\<lparr>vmcs := (vmcs s)(VMENTRY_INTRRUPTION_INFO := interruption_info (o8 + of_nat idx))\<rparr>)"
proof -
  have "(of_int (uint o8 + int idx) :: u8) = o8 + of_nat idx" by simp
  then show ?thesis using assms interruption_info_eq [of "uint o8 + int idx"]
    by (simp add: inject_external_event_def is_injectable_def event_fields_def vmwrite_full bf_get_def field_width_def)
qed

text \<open>
  The effect of the window exit, on each of its three branches.
\<close>

lemma window_law_pending:
  assumes "is_injectable s" "interrupt_delivery_pending (pic (vm s)) \<noteq> 0"
  shows "interrupt_window_exit_sub_handler s = Inr s"
  using assms by (simp add: interrupt_window_exit_sub_handler_def)

definition delivers :: "monitor \<Rightarrow> monitor \<Rightarrow> bool" where
  "delivers s s' \<longleftrightarrow> retires s s' \<and>
     (let idx = request_loop 0 (outstanding s) in
      vmcs s' = (vmcs s)(VMENTRY_INTRRUPTION_INFO := interruption_info (master_pic_offset (pic (vm s)) + of_nat idx)) \<and>
      interrupt_delivery_vector (pic (vm s')) = of_nat idx) \<and>
     interrupt_delivery_pending (pic (vm s')) = 1"

definition closes :: "monitor \<Rightarrow> monitor \<Rightarrow> bool" where
  "closes s s' \<longleftrightarrow> retires s s' \<and> interrupt_delivery_pending (pic (vm s')) = 0 \<and> \<not> window_open s' \<and>
     (\<forall>e. e \<noteq> CTLS_PRI_PROC_BASED_VM_EXECUTION \<longrightarrow> vmcs s' e = vmcs s e)"

lemma window_law:
  assumes "event_inv s" "event_fields s" "is_injectable s" "interrupt_delivery_pending (pic (vm s)) = 0"
  shows "\<exists>s'. interrupt_window_exit_sub_handler s = Inr s' \<and>
    (if request_loop 0 (outstanding s) < 15 then delivers s s' else closes s s')"
proof -
  from retire_law [OF assms(1)] obtain s1 where r: "retire_delivered s = Inr s1" "retires s s1" "vmcs s1 = vmcs s"
    "interrupt_delivery_pending (pic (vm s1)) = 0" using assms(4) by auto
  have r2: "vmcs_supported s1 = vmcs_supported s" "interrupt_request_bitmap s1 = outstanding s"
    "master_pic_offset (pic (vm s1)) = master_pic_offset (pic (vm s))" using r(2) by (simp_all add: retires_def)
  have f: "event_fields s1" "is_injectable s1"
    using assms(2,3) r2(1) injectable_cong [OF _ r2(1)] r(3) by (simp_all add: event_fields_def)
  let ?i = "request_loop 0 (outstanding s)"
  show ?thesis
  proof (cases "?i < 15")
    case True
    let ?s = "set_pic (\<lambda>p. p\<lparr>interrupt_delivery_vector := of_nat ?i, interrupt_delivery_pending := 1\<rparr>)
      (s1\<lparr>vmcs := (vmcs s)(VMENTRY_INTRRUPTION_INFO := interruption_info (master_pic_offset (pic (vm s)) + of_nat ?i))\<rparr>)"
    have "deliver_next s1 = Inr ?s" using True by (simp add: deliver_next_def Let_def r r2 inject_eq [OF f])
    with assms(3,4) r(1) have h: "interrupt_window_exit_sub_handler s = Inr ?s"
      by (simp add: interrupt_window_exit_sub_handler_def)
    have "(of_nat ?i :: u8) < 15" using True by (simp add: word_less_nat_alt unat_of_nat)
    then have "delivers s ?s" using r(2) by (simp add: delivers_def retires_def Let_def set_pic_def)
    with h True show ?thesis by auto
  next
    case False
    have "interrupt_window_exit_sub_handler s = Inr (disable_interrupt_window s1)"
      using assms(3,4) r(1,4) False by (simp add: interrupt_window_exit_sub_handler_def deliver_next_def r2(2))
    moreover have "closes s (disable_interrupt_window s1)"
      using r window_disable [OF f(1)]
      by (simp add: closes_def retires_def) (simp add: disable_interrupt_window_def vmwrite_def vmx_write_def)
    ultimately show ?thesis using False by auto
  qed
qed

lemma outstanding_requested: "outstanding s ! i \<noteq> 0 \<Longrightarrow> i < length (interrupt_request_bitmap s) \<Longrightarrow> interrupt_request_bitmap s ! i \<noteq> 0"
  by (cases "i = unat (interrupt_delivery_vector (pic (vm s)))") (auto simp: outstanding_def Let_def split: if_splits)

lemma no_requests: "length bm = 15 \<Longrightarrow> \<not> request_loop 0 bm < 15 \<Longrightarrow> i < 15 \<Longrightarrow> bm ! i = 0"
  using request_loop_spec [of bm 0] by auto

lemma delivers_inv:
  assumes inv: "event_inv s" "event_fields s" and i: "request_loop 0 (outstanding s) < 15" and d: "delivers s s'"
  shows "event_inv s' \<and> event_fields s'"
proof -
  have len: "length (outstanding s) = 15" using inv(1) by (simp add: event_inv_def)
  have r: "vmcs_supported s' = vmcs_supported s" "interrupt_request_bitmap s' = outstanding s"
    "vmcs s' CTLS_PRI_PROC_BASED_VM_EXECUTION = vmcs s CTLS_PRI_PROC_BASED_VM_EXECUTION"
    using d by (simp_all add: delivers_def retires_def Let_def)
  have "requested s (request_loop 0 (outstanding s))"
    using i request_loop_spec [OF len, of 0] outstanding_requested len by (simp add: requested_def)
  then have "window_open s'" using inv(1) window_cong [OF r(3,1)] by (auto simp: event_inv_def)
  then show ?thesis
    using inv(2) d len by (simp add: event_inv_def event_fields_def delivers_def retires_def)
qed

lemma closes_inv:
  assumes inv: "event_inv s" "event_fields s" and i: "\<not> request_loop 0 (outstanding s) < 15" and d: "closes s s'"
  shows "event_inv s' \<and> event_fields s'"
proof -
  have len: "length (outstanding s) = 15" using inv(1) by (simp add: event_inv_def)
  have "\<not> requested s' j" for j
    using no_requests [OF len i, of j] d by (simp add: requested_def closes_def retires_def)
  then show ?thesis
    using inv(2) d len by (simp add: event_inv_def event_fields_def closes_def retires_def)
qed

text \<open>The three outcomes of a window exit.\<close>

lemma window_cases:
  assumes inv: "event_inv s" "event_fields s" and h: "interrupt_window_exit_sub_handler s = Inr s'"
  obtains "interrupt_delivery_pending (pic (vm s)) \<noteq> 0" "s' = s"
  | "interrupt_delivery_pending (pic (vm s)) = 0" "request_loop 0 (outstanding s) < 15" "delivers s s'"
  | "interrupt_delivery_pending (pic (vm s)) = 0" "\<not> request_loop 0 (outstanding s) < 15" "closes s s'"
proof -
  have inj: "is_injectable s" using h by (auto simp: interrupt_window_exit_sub_handler_def split: if_splits)
  show ?thesis
  proof (cases "interrupt_delivery_pending (pic (vm s)) = 0")
    case False
    with window_law_pending [OF inj False] h that(1) show ?thesis by simp
  next
    case True
    with window_law [OF inv inj True] h that(2,3) show ?thesis by (auto split: if_splits)
  qed
qed

section \<open>Runs of the machine\<close>

text \<open>
  A run is a sequence of exits.  Each one is handled, the processor enters the guest again, where it
  delivers the interrupt whose information field is valid and clears the valid bit, and the guest runs
  until the next exit.  The guest can change its own part of the control structure only.
\<close>

datatype mon_event =
    Host_interrupt u16 host_input
  | Window_exit
  | Master_out u32 u8
  | Slave_out u32 u8
  | Pit_out u32 u8

fun mon_step :: "mon_event \<Rightarrow> monitor \<Rightarrow> monitor result" where
  "mon_step (Host_interrupt vector i) s = external_interrupt_sub_handler vector i s"
| "mon_step Window_exit s = interrupt_window_exit_sub_handler s"
| "mon_step (Master_out port byte) s = bind_result (master_pic_outb port byte (pic (vm s))) (\<lambda>p. Inr (set_pic (\<lambda>_. p) s))"
| "mon_step (Slave_out port byte) s = bind_result (slave_pic_outb port byte (pic (vm s))) (\<lambda>p. Inr (set_pic (\<lambda>_. p) s))"
| "mon_step (Pit_out port byte) s = bind_result (pit_outb port byte (pit (vm s))) (\<lambda>p. Inr (set_pit (\<lambda>_. p) s))"

fun acknowledges :: "mon_event \<Rightarrow> bool" where
  "acknowledges (Master_out port byte) = (port = PIC_MASTER_COMMAND_PORT \<and> byte = PIC_EOI)"
| "acknowledges (Slave_out port byte) = (port = PIC_SLAVE_COMMAND_PORT \<and> byte = PIC_EOI)"
| "acknowledges _ = False"

definition vm_entry :: "monitor \<Rightarrow> u8 option \<times> monitor" where
  "vm_entry s =
     (let info = vmcs s VMENTRY_INTRRUPTION_INFO in
      if bit info 31
      then (Some (ucast info), s\<lparr>vmcs := (vmcs s)(VMENTRY_INTRRUPTION_INFO := info AND NOT 0x80000000)\<rparr>)
      else (None, s))"

definition guest_runs :: "monitor \<Rightarrow> monitor \<Rightarrow> bool" where
  "guest_runs s s' \<longleftrightarrow> s' = s\<lparr>vmcs := vmcs s'\<rparr> \<and>
     (\<forall>e \<in> {CTLS_PRI_PROC_BASED_VM_EXECUTION, VMENTRY_INTRRUPTION_INFO}. vmcs s' e = vmcs s e)"

inductive mon_run :: "monitor \<Rightarrow> (mon_event \<times> u8 option) list \<Rightarrow> monitor \<Rightarrow> bool" where
  stop: "mon_run s [] s"
| handled: "mon_step e s = Inr s1 \<Longrightarrow> vm_entry s1 = (d, s2) \<Longrightarrow> guest_runs s2 s3 \<Longrightarrow> mon_run s3 tr s' \<Longrightarrow>
    mon_run s ((e, d) # tr) s'"

inductive_cases mon_run_cases: "mon_run s ((e, d) # tr) s'"

definition quiet :: "monitor \<Rightarrow> bool" where
  "quiet s \<longleftrightarrow> event_inv s \<and> event_fields s \<and> \<not> bit (vmcs s VMENTRY_INTRRUPTION_INFO) 31"

lemma enable_vmentry [simp]:
  "vmcs (enable_interrupt_window s) VMENTRY_INTRRUPTION_INFO = vmcs s VMENTRY_INTRRUPTION_INFO"
  by (simp add: enable_interrupt_window_def vmwrite_def vmx_write_def)

lemma event_inv_cong:
  assumes "event_inv s" "interrupt_request_bitmap s' = interrupt_request_bitmap s" "ring_ok (kbd (vm s'))"
    "interrupt_delivery_vector (pic (vm s')) = interrupt_delivery_vector (pic (vm s))"
    "interrupt_delivery_pending (pic (vm s')) \<noteq> 0 \<longrightarrow> interrupt_delivery_pending (pic (vm s)) \<noteq> 0"
    "window_open s' = window_open s"
  shows "event_inv s'"
  using assms by (auto simp: event_inv_def requested_def)

lemma raise_step:
  assumes "event_inv s" "event_fields s" "i < 15" "raise_interrupt (int i) s = Inr s1"
  shows "event_inv s1" "event_fields s1" "vm s1 = vm s"
    "vmcs s1 VMENTRY_INTRRUPTION_INFO = vmcs s VMENTRY_INTRRUPTION_INFO"
  using assms event_inv_raise [OF assms(1,2), of i]
  by (auto simp: raise_interrupt_eq event_fields_def split: if_splits)

lemma set_pit_simps [simp]:
  "event_inv (set_pit f s) = event_inv s" "event_fields (set_pit f s) = event_fields s" "vmcs (set_pit f s) = vmcs s"
  "event_fields (set_pic g s) = event_fields s" "vmcs (set_pic g s) = vmcs s"
  "event_fields (s\<lparr>vm := v\<rparr>) = event_fields s" "is_injectable (set_pic g s) = is_injectable s"
  by (simp_all add: event_inv_def requested_def event_fields_def is_injectable_def) (simp_all add: set_pit_def set_pic_def)

lemma timer_step:
  assumes "event_inv s" "event_fields s" "timer_tick t s = Inr s1"
  shows "event_inv s1 \<and> event_fields s1 \<and> pic (vm s1) = pic (vm s) \<and>
    vmcs s1 VMENTRY_INTRRUPTION_INFO = vmcs s VMENTRY_INTRRUPTION_INFO"
proof -
  have "raise_interrupt (int 0) s = Inr s2 \<Longrightarrow> event_inv s2 \<and> event_fields s2 \<and> vm s2 = vm s \<and>
      vmcs s2 VMENTRY_INTRRUPTION_INFO = vmcs s VMENTRY_INTRRUPTION_INFO" for s2
    using raise_step [OF assms(1,2), of 0] by simp
  then show ?thesis using assms
    by (auto simp: timer_tick_def Let_def bind_result_eq_Inr split: if_splits)
qed

lemma keyboard_step:
  assumes "event_inv s" "event_fields s" "keyboard_tick i s = Inr s1"
  shows "event_inv s1 \<and> event_fields s1 \<and> pic (vm s1) = pic (vm s) \<and>
    vmcs s1 VMENTRY_INTRRUPTION_INFO = vmcs s VMENTRY_INTRRUPTION_INFO"
proof -
  have "ring_ok (kbd (vm s))" using assms(1) by (simp add: event_inv_def)
  from ring_enqueue_law [OF this, of "try_retrieve_scancode i (stack_junk i)"] obtain n q where
    q: "ring_enqueue (kbd (vm s)) (try_retrieve_scancode i (stack_junk i)) = Inr (n, q)" "ring_ok q" by blast
  let ?s = "s\<lparr>vm := (vm s)\<lparr>kbd := q\<rparr>\<rparr>"
  have "event_inv ?s" by (rule event_inv_cong [OF assms(1)]) (simp_all add: q)
  moreover have "event_fields ?s" using assms(2) by simp
  moreover have "raise_interrupt (int 1) ?s = Inr s1" using assms(3) by (simp add: keyboard_tick_def q)
  ultimately have "event_inv s1" "event_fields s1" "vm s1 = vm ?s"
    "vmcs s1 VMENTRY_INTRRUPTION_INFO = vmcs ?s VMENTRY_INTRRUPTION_INFO"
    by (auto dest: raise_step [where i = 1])
  then show ?thesis by simp
qed

lemma pic_out_effect:
  "master_pic_outb port byte p = Inr p' \<Longrightarrow> interrupt_delivery_vector p' = interrupt_delivery_vector p \<and>
     interrupt_delivery_pending p' = (if acknowledges (Master_out port byte) then 0 else interrupt_delivery_pending p)"
  "slave_pic_outb port byte p = Inr p' \<Longrightarrow> interrupt_delivery_vector p' = interrupt_delivery_vector p \<and>
     interrupt_delivery_pending p' = (if acknowledges (Slave_out port byte) then 0 else interrupt_delivery_pending p)"
  by (auto simp: master_pic_outb_def slave_pic_outb_def Let_def split: if_splits)

lemma set_pic_inv:
  assumes "event_inv s" "interrupt_delivery_vector p = interrupt_delivery_vector (pic (vm s))"
    "interrupt_delivery_pending p = (if a then 0 else interrupt_delivery_pending (pic (vm s)))"
  shows "event_inv (set_pic (\<lambda>_. p) s)"
  by (rule event_inv_cong [OF assms(1)]) (use assms in \<open>simp_all add: event_inv_def split: if_splits\<close>)

lemma window_step:
  assumes q: "quiet s" and h: "interrupt_window_exit_sub_handler s = Inr s1"
  shows "event_inv s1 \<and> event_fields s1 \<and> (if bit (vmcs s1 VMENTRY_INTRRUPTION_INFO) 31
    then interrupt_delivery_pending (pic (vm s)) = 0 \<and> interrupt_delivery_pending (pic (vm s1)) \<noteq> 0
    else interrupt_delivery_pending (pic (vm s)) \<noteq> 0 \<longrightarrow> interrupt_delivery_pending (pic (vm s1)) \<noteq> 0)"
proof -
  have inv: "event_inv s" "event_fields s" "\<not> bit (vmcs s VMENTRY_INTRRUPTION_INFO) 31" using q by (simp_all add: quiet_def)
  from inv(1,2) h show ?thesis
  proof (cases rule: window_cases)
    case 1
    with inv show ?thesis by simp
  next
    case 2
    with delivers_inv [OF inv(1,2) 2(2,3)] show ?thesis by (simp add: delivers_def)
  next
    case 3
    with closes_inv [OF inv(1,2) 3(2,3)] inv(3) show ?thesis by (simp add: closes_def)
  qed
qed

lemma step_law:
  assumes q: "quiet s" and h: "mon_step e s = Inr s1"
  shows "event_inv s1" "event_fields s1"
    "if bit (vmcs s1 VMENTRY_INTRRUPTION_INFO) 31
     then interrupt_delivery_pending (pic (vm s)) = 0 \<and> interrupt_delivery_pending (pic (vm s1)) \<noteq> 0
     else interrupt_delivery_pending (pic (vm s)) \<noteq> 0 \<longrightarrow> interrupt_delivery_pending (pic (vm s1)) \<noteq> 0 \<or> acknowledges e"
proof -
  note inv = q [unfolded quiet_def, THEN conjunct1] q [unfolded quiet_def, THEN conjunct2, THEN conjunct1]
  have e31: "\<not> bit (vmcs s VMENTRY_INTRRUPTION_INFO) 31" using q by (simp add: quiet_def)
  have "event_inv s1 \<and> event_fields s1 \<and> (if bit (vmcs s1 VMENTRY_INTRRUPTION_INFO) 31
     then interrupt_delivery_pending (pic (vm s)) = 0 \<and> interrupt_delivery_pending (pic (vm s1)) \<noteq> 0
     else interrupt_delivery_pending (pic (vm s)) \<noteq> 0 \<longrightarrow> interrupt_delivery_pending (pic (vm s1)) \<noteq> 0 \<or> acknowledges e)"
  proof (cases e)
    case (Host_interrupt v i)
    with h have "timer_tick (tsc_now i) s = Inr s1 \<or> keyboard_tick i s = Inr s1"
      by (auto simp: external_interrupt_sub_handler_def split: if_splits)
    then show ?thesis using timer_step [OF inv] keyboard_step [OF inv] e31 by auto
  next
    case Window_exit
    with window_step [OF q] h show ?thesis by simp
  next
    case (Master_out port byte)
    then obtain p where "master_pic_outb port byte (pic (vm s)) = Inr p" "s1 = set_pic (\<lambda>_. p) s"
      using h by (auto simp: bind_result_eq_Inr)
    with pic_out_effect(1) [OF this(1)] set_pic_inv [OF inv(1)] inv Master_out e31 show ?thesis by simp
  next
    case (Slave_out port byte)
    then obtain p where "slave_pic_outb port byte (pic (vm s)) = Inr p" "s1 = set_pic (\<lambda>_. p) s"
      using h by (auto simp: bind_result_eq_Inr)
    with pic_out_effect(2) [OF this(1)] set_pic_inv [OF inv(1)] inv Slave_out e31 show ?thesis by simp
  next
    case (Pit_out port byte)
    with h inv e31 show ?thesis by (auto simp: bind_result_eq_Inr)
  qed
  then show "event_inv s1" "event_fields s1" "if bit (vmcs s1 VMENTRY_INTRRUPTION_INFO) 31
     then interrupt_delivery_pending (pic (vm s)) = 0 \<and> interrupt_delivery_pending (pic (vm s1)) \<noteq> 0
     else interrupt_delivery_pending (pic (vm s)) \<noteq> 0 \<longrightarrow> interrupt_delivery_pending (pic (vm s1)) \<noteq> 0 \<or> acknowledges e"
    by blast+
qed

lemma entry_law:
  assumes "event_inv s1" "event_fields s1" "vm_entry s1 = (d, s2)" "guest_runs s2 s3"
  shows "quiet s3 \<and> vm s3 = vm s1 \<and> (d = None \<longleftrightarrow> \<not> bit (vmcs s1 VMENTRY_INTRRUPTION_INFO) 31)"
proof -
  let ?i = "vmcs s1 VMENTRY_INTRRUPTION_INFO"
  have s2: "s2 = s1\<lparr>vmcs := vmcs s2\<rparr>" "vmcs s2 CTLS_PRI_PROC_BASED_VM_EXECUTION = vmcs s1 CTLS_PRI_PROC_BASED_VM_EXECUTION"
    "\<not> bit (vmcs s2 VMENTRY_INTRRUPTION_INFO) 31" "d = None \<longleftrightarrow> \<not> bit ?i 31"
    using assms(3) by (auto simp: vm_entry_def Let_def bit_and_iff bit_not_iff split: if_splits)
  have g: "s3 = s2\<lparr>vmcs := vmcs s3\<rparr>" "vmcs s3 CTLS_PRI_PROC_BASED_VM_EXECUTION = vmcs s2 CTLS_PRI_PROC_BASED_VM_EXECUTION"
    "vmcs s3 VMENTRY_INTRRUPTION_INFO = vmcs s2 VMENTRY_INTRRUPTION_INFO"
    using assms(4) by (simp_all add: guest_runs_def)
  have s3: "s3 = s1\<lparr>vmcs := vmcs s3\<rparr>" by (subst g(1), subst s2(1)) simp
  define f where "f = vmcs s3"
  have e: "s3 = s1\<lparr>vmcs := f\<rparr>" using s3 by (simp add: f_def)
  have "window_open s3 = window_open s1" by (rule window_cong) (use g(2) s2(2) e in simp_all)
  then have "event_inv s3" by (intro event_inv_cong [OF assms(1)]) (use assms(1) e in \<open>simp_all add: event_inv_def\<close>)
  moreover have "event_fields s3" using assms(2) e by (simp add: event_fields_def)
  ultimately show ?thesis using s2(3,4) g(3) e by (simp add: quiet_def)
qed

definition deliveries :: "(mon_event \<times> u8 option) list \<Rightarrow> nat" where
  "deliveries tr = length (filter (\<lambda>(e, d). d \<noteq> None) tr)"

definition acknowledgements :: "(mon_event \<times> u8 option) list \<Rightarrow> nat" where
  "acknowledgements tr = length (filter (\<lambda>(e, d). acknowledges e) tr)"

abbreviation in_flight :: "monitor \<Rightarrow> nat" where
  "in_flight s \<equiv> if interrupt_delivery_pending (pic (vm s)) = 0 then 0 else 1"

lemma run_law:
  "mon_run s tr s' \<Longrightarrow> quiet s \<Longrightarrow> quiet s' \<and> deliveries tr + in_flight s \<le> acknowledgements tr + 1"
proof (induction rule: mon_run.induct)
  case (stop s)
  then show ?case by (simp add: deliveries_def acknowledgements_def)
next
  case (handled e s s1 d s2 s3 tr s')
  note l = step_law [OF handled.prems handled.hyps(1)]
  note n = entry_law [OF l(1,2) handled.hyps(2,3)]
  have "quiet s' \<and> deliveries tr + in_flight s3 \<le> acknowledgements tr + 1" using handled.IH n by blast
  moreover have "(if d = None then 0 else 1) + in_flight s \<le> (if acknowledges e then 1 else 0) + in_flight s3"
    using l(3) n by (auto split: if_splits)
  moreover have "deliveries ((e, d) # tr) = (if d = None then 0 else 1) + deliveries tr"
    "acknowledgements ((e, d) # tr) = (if acknowledges e then 1 else 0) + acknowledgements tr"
    by (simp_all add: deliveries_def acknowledgements_def)
  ultimately show ?case by linarith
qed

section \<open>Main properties\<close>

text \<open>
  C5 (no lost wake-up). In every run of exits from a quiescent state, whatever the order of host
  interrupts, window exits and programming of the emulated chips, a requested line and a delivered but
  unacknowledged interrupt always have the interrupt window open, so the exit that serves them will
  come; and the keyboard buffer stays well formed.
\<close>

theorem no_lost_wakeup:
  assumes "mon_run s tr s'" "quiet s"
  shows "ring_ok (kbd (vm s')) \<and> length (interrupt_request_bitmap s') = 15 \<and>
    ((\<exists>i < 15. interrupt_request_bitmap s' ! i \<noteq> 0) \<or> interrupt_delivery_pending (pic (vm s')) \<noteq> 0 \<longrightarrow> window_open s')"
  using run_law [OF assms] by (auto simp: quiet_def event_inv_def requested_def)

text \<open>
  C6 (one interrupt in flight). In every such run the guest receives at most one interrupt more than
  it has acknowledged with an end-of-interrupt command to one of the two controllers: a second
  interrupt is never injected while the first is being served.
\<close>

theorem one_interrupt_in_flight:
  assumes "mon_run s tr s'" "quiet s"
  shows "deliveries tr \<le> acknowledgements tr + 1"
  using run_law [OF assms] by simp

text \<open>
  C20 (priority). When the guest opens the window and owes no acknowledgement, the monitor retires the
  interrupt delivered last and injects the lowest-numbered line still requested, as the vector the
  guest programmed into its first controller plus the line number; with no line requested it injects
  nothing and closes the window.  It never halts the machine.
\<close>

theorem window_injects_lowest:
  assumes "event_inv s" "event_fields s" "is_injectable s" "interrupt_delivery_pending (pic (vm s)) = 0"
  shows "\<exists>s'. interrupt_window_exit_sub_handler s = Inr s' \<and> interrupt_request_bitmap s' = outstanding s \<and>
    (if \<exists>i < 15. outstanding s ! i \<noteq> 0 then
       \<exists>i < 15. outstanding s ! i \<noteq> 0 \<and> (\<forall>j < i. outstanding s ! j = 0) \<and>
         vmx_read VMENTRY_INTRRUPTION_INFO s' = interruption_info (master_pic_offset (pic (vm s)) + of_nat i) \<and>
         interrupt_delivery_vector (pic (vm s')) = of_nat i \<and> interrupt_delivery_pending (pic (vm s')) = 1
     else vmcs s' VMENTRY_INTRRUPTION_INFO = vmcs s VMENTRY_INTRRUPTION_INFO \<and> \<not> window_open s')"
proof -
  let ?i = "request_loop 0 (outstanding s)"
  have len: "length (outstanding s) = 15" using assms(1) by (simp add: event_inv_def)
  note loop = request_loop_spec [OF len, of 0, simplified]
  from window_law [OF assms] obtain s' where s': "interrupt_window_exit_sub_handler s = Inr s'"
    "if ?i < 15 then delivers s s' else closes s s'" by blast
  show ?thesis
  proof (cases "?i < 15")
    case True
    then have "vmx_read VMENTRY_INTRRUPTION_INFO s' = interruption_info (master_pic_offset (pic (vm s)) + of_nat ?i)"
      using s'(2) assms(2) by (simp add: vmx_read_def delivers_def retires_def Let_def event_fields_def)
    with True s' loop show ?thesis
      by (intro exI [of _ s']) (auto simp: delivers_def retires_def Let_def intro!: exI [of _ ?i])
  next
    case False
    then have "\<not> (\<exists>i < 15. outstanding s ! i \<noteq> 0)" using no_requests [OF len] by blast
    with False s' show ?thesis by (intro exI [of _ s']) (simp add: closes_def retires_def)
  qed
qed

text \<open>
  One round of keyboard service: the window exit injects the interrupt, the guest's handler reads the
  scan code from port \<open>0x60\<close> and acknowledges.
\<close>

definition kbd_round :: "monitor \<Rightarrow> (u8 \<times> monitor) result" where
  "kbd_round s =
     bind_result (interrupt_window_exit_sub_handler s) (\<lambda>s.
     bind_result (keyboard_data_inb KEYBOARD_DATA_PORT (kbd (vm s))) (\<lambda>scancode.
     bind_result (master_pic_outb PIC_MASTER_COMMAND_PORT PIC_EOI (pic (vm s))) (\<lambda>p.
     Inr (scancode, set_pic (\<lambda>_. p) s))))"

fun kbd_rounds :: "nat \<Rightarrow> monitor \<Rightarrow> (u8 list \<times> monitor) result" where
  "kbd_rounds 0 s = Inr ([], s)"
| "kbd_rounds (Suc n) s =
     bind_result (kbd_round s) (\<lambda>(c, s). bind_result (kbd_rounds n s) (\<lambda>(cs, s). Inr (c # cs, s)))"

definition keyboard_only :: "u8 list" where
  "keyboard_only = (replicate 15 0)[1 := 1]"

text \<open>The scan codes not yet seen by the guest are the whole buffer, or all but the one delivered last.\<close>

definition awaiting :: "monitor \<Rightarrow> u8 list \<Rightarrow> bool" where
  "awaiting s cs \<longleftrightarrow> event_inv s \<and> event_fields s \<and> is_injectable s \<and> interrupt_delivery_pending (pic (vm s)) = 0 \<and>
     interrupt_request_bitmap s = keyboard_only \<and>
     (interrupt_delivery_vector (pic (vm s)) = PIC_INVALID_VECTOR \<and> ring_list (kbd (vm s)) = cs \<or>
      interrupt_delivery_vector (pic (vm s)) = 1 \<and> tl (ring_list (kbd (vm s))) = cs)"

lemma ring_peek_hd: "ring_ok r \<Longrightarrow> ring_list r = c # cs \<Longrightarrow> \<not> ring_empty r \<and> ring_peek r = Inr c"
  using ring_drop_ok(4) [of r] ring_empty_iff [of r]
  by (auto simp: ring_peek_def get_byte_def ring_ok_def dest!: arg_cong [where f = length])

lemma keyboard_only_first: "request_loop 0 keyboard_only = 1"
  by (simp add: keyboard_only_def request_loop.simps)

lemma eoi_eq:
  "master_pic_outb PIC_MASTER_COMMAND_PORT PIC_EOI p = Inr (p\<lparr>master_pic_command := PIC_EOI, interrupt_delivery_pending := 0\<rparr>)"
  by (simp add: master_pic_outb_def)

lemma kbd_round_law:
  assumes "awaiting s (c # cs)"
  shows "\<exists>s'. kbd_round s = Inr (c, s') \<and> awaiting s' cs \<and> interrupt_delivery_vector (pic (vm s')) = 1"
proof -
  have a: "event_inv s" "event_fields s" "is_injectable s" "interrupt_delivery_pending (pic (vm s)) = 0"
    and o: "outstanding s = keyboard_only"
    using assms by (auto simp: awaiting_def outstanding_def)
  from window_law [OF a] obtain s1 where s1: "interrupt_window_exit_sub_handler s = Inr s1" "delivers s s1"
    by (auto simp: o keyboard_only_first)
  have r: "ring_ok (kbd (vm s1))" "ring_list (kbd (vm s1)) = c # cs"
    using s1(2) assms by (auto simp: delivers_def retires_def awaiting_def)
  have b: "interrupt_request_bitmap s1 = keyboard_only" "interrupt_delivery_vector (pic (vm s1)) = 1"
    using s1(2) by (simp_all add: delivers_def retires_def Let_def o keyboard_only_first)
  have i: "is_injectable s1"
    using a(3) injectable_cong [of s1 s] s1(2) by (simp add: delivers_def retires_def Let_def)
  have inv: "event_inv s1 \<and> event_fields s1"
    by (rule delivers_inv [OF a(1,2) _ s1(2)]) (simp add: o keyboard_only_first)
  let ?p = "(pic (vm s1))\<lparr>master_pic_command := PIC_EOI, interrupt_delivery_pending := 0\<rparr>"
  have "event_inv (set_pic (\<lambda>_. ?p) s1)" using set_pic_inv [of s1 ?p True] inv by simp
  then have "awaiting (set_pic (\<lambda>_. ?p) s1) cs" "interrupt_delivery_vector (pic (vm (set_pic (\<lambda>_. ?p) s1))) = 1"
    using r(2) i inv b by (simp_all add: awaiting_def)
  then show ?thesis
    using ring_peek_hd [OF r] by (simp add: kbd_round_def s1(1) keyboard_data_inb_def eoi_eq)
qed

lemma kbd_rounds_law:
  "awaiting s cs \<Longrightarrow> \<exists>s'. kbd_rounds (length cs) s = Inr (cs, s') \<and> awaiting s' [] \<and>
     (cs \<noteq> [] \<longrightarrow> interrupt_delivery_vector (pic (vm s')) = 1)"
proof (induction cs arbitrary: s)
  case Nil
  then show ?case by simp
next
  case (Cons c cs)
  from kbd_round_law [OF Cons.prems] obtain s1 where
    s1: "kbd_round s = Inr (c, s1)" "awaiting s1 cs" "interrupt_delivery_vector (pic (vm s1)) = 1" by blast
  from Cons.IH [OF s1(2)] obtain s' where "kbd_rounds (length cs) s1 = Inr (cs, s')" "awaiting s' []"
    "cs \<noteq> [] \<longrightarrow> interrupt_delivery_vector (pic (vm s')) = 1" by blast
  with s1 show ?case by (cases cs) auto
qed

text \<open>
  C7 (keyboard service). Every key in the buffer reaches the guest: with the keyboard line requested
  and the codes \<open>cs\<close> buffered, as many rounds of window exit, read and acknowledgement as there are
  codes hand the guest exactly \<open>cs\<close>, in order, once each; the next window exit leaves the buffer empty,
  no line requested and the window closed.
\<close>

theorem scancodes_reach_guest:
  assumes "event_inv s" "event_fields s" "is_injectable s" "interrupt_delivery_pending (pic (vm s)) = 0"
    "interrupt_delivery_vector (pic (vm s)) = PIC_INVALID_VECTOR" "interrupt_request_bitmap s = keyboard_only"
    "ring_list (kbd (vm s)) = cs" "cs \<noteq> []"
  shows "\<exists>s1 s'. kbd_rounds (length cs) s = Inr (cs, s1) \<and> interrupt_window_exit_sub_handler s1 = Inr s' \<and>
    ring_list (kbd (vm s')) = [] \<and> interrupt_request_bitmap s' = replicate 15 0 \<and> \<not> window_open s'"
proof -
  have "awaiting s cs" using assms by (simp add: awaiting_def)
  from kbd_rounds_law [OF this] obtain s1 where s1: "kbd_rounds (length cs) s = Inr (cs, s1)" "awaiting s1 []"
    "interrupt_delivery_vector (pic (vm s1)) = 1" using assms(8) by blast
  then have a: "event_inv s1" "event_fields s1" "is_injectable s1" "interrupt_delivery_pending (pic (vm s1)) = 0"
    and o: "outstanding s1 = replicate 15 0" "tl (ring_list (kbd (vm s1))) = []"
    by (auto simp: awaiting_def outstanding_def keyboard_only_def list_eq_iff_nth_eq nth_list_update)
  have "request_loop 0 (replicate 15 0) = 15" by (simp add: request_loop.simps)
  with window_law [OF a] obtain s' where "interrupt_window_exit_sub_handler s1 = Inr s'" "closes s1 s'"
    by (auto simp: o)
  with s1 o show ?thesis by (auto simp: closes_def retires_def)
qed

text \<open>
  C36 (timer tick). A host timer interrupt requests line 0 exactly when the milliseconds since the
  previous one reach the period the guest programmed and the line is not masked; it always opens the
  window with the request and restarts the measurement.
\<close>

theorem timer_tick_exact:
  assumes "event_inv s" "event_fields s" "last_tsc (pit (vm s)) \<noteq> 0"
  shows "\<exists>s'. external_interrupt_sub_handler 0x20 i s = Inr s' \<and> event_inv s' \<and> last_tsc (pit (vm s')) = tsc_now i \<and>
    (requested s' 0 \<longleftrightarrow> requested s 0 \<or>
       threshold (pit (vm s)) \<le> ((tsc_now i - last_tsc (pit (vm s))) * 1000) div CPU_FREQUENCY \<and>
       \<not> bit (master_pic_data (pic (vm s))) 0)"
proof -
  have len: "length (interrupt_request_bitmap s) = 15" using assms(1) by (simp add: event_inv_def)
  have r: "raise_interrupt 0 s = Inr (if bit (master_pic_data (pic (vm s))) 0 then s
         else enable_interrupt_window (s\<lparr>interrupt_request_bitmap := (interrupt_request_bitmap s)[0 := 1]\<rparr>))"
    using raise_interrupt_eq [of 0 s] by (simp add: pin_masked_def)
  let ?d = "((tsc_now i - last_tsc (pit (vm s))) * 1000) div CPU_FREQUENCY"
  show ?thesis
  proof (cases "threshold (pit (vm s)) \<le> ?d \<and> \<not> bit (master_pic_data (pic (vm s))) 0")
    case True
    then show ?thesis using assms len event_inv_raise [OF assms(1,2), of 0]
      by (simp add: external_interrupt_sub_handler_def timer_tick_def Let_def r requested_def)
  next
    case False
    then have "timer_tick (tsc_now i) s = Inr (set_pit (last_tsc_update (\<lambda>_. tsc_now i)) s)"
      using assms(3) by (auto simp: timer_tick_def Let_def r)
    with False assms show ?thesis by (auto simp: external_interrupt_sub_handler_def requested_def)
  qed
qed

fun timer_ticks :: "u64 list \<Rightarrow> monitor \<Rightarrow> monitor result" where
  "timer_ticks [] s = Inr s"
| "timer_ticks (t # ts) s = bind_result (timer_tick t s) (timer_ticks ts)"

text \<open>Consecutive readings of the counter are closer than a period of so many milliseconds.\<close>

fun closely_spaced :: "u64 \<Rightarrow> u64 \<Rightarrow> u64 list \<Rightarrow> bool" where
  "closely_spaced period t [] = True"
| "closely_spaced period t (t' # ts) \<longleftrightarrow>
     t' \<noteq> 0 \<and> ((t' - t) * 1000) div CPU_FREQUENCY < period \<and> closely_spaced period t' ts"

lemma set_pit_set_pit: "set_pit (last_tsc_update f) (set_pit (last_tsc_update g) s) = set_pit (last_tsc_update (f \<circ> g)) s"
  by (simp add: set_pit_def)

lemma set_pit_last: "last_tsc (pit (vm s)) = t \<Longrightarrow> set_pit (last_tsc_update (\<lambda>_. t)) s = s"
  by (simp add: set_pit_def)

text \<open>
  C39 (timer starvation). The time since the last interrupt of the host, not since the last one given
  to the guest, is what the period is compared with: if the host's own timer ticks more often than the
  period the guest programmed, however long it runs, no timer interrupt is ever requested.
\<close>

theorem fast_host_timer_starves_guest:
  assumes "last_tsc (pit (vm s)) \<noteq> 0" "closely_spaced (threshold (pit (vm s))) (last_tsc (pit (vm s))) ts"
  shows "timer_ticks ts s = Inr (set_pit (last_tsc_update (\<lambda>_. last (last_tsc (pit (vm s)) # ts))) s)"
  using assms
proof (induction ts arbitrary: s)
  case Nil
  then show ?case by (simp add: set_pit_last)
next
  case (Cons t ts)
  let ?s = "set_pit (last_tsc_update (\<lambda>_. t)) s"
  have "timer_tick t s = Inr ?s" using Cons.prems by (auto simp: timer_tick_def Let_def dest: leD)
  moreover have "timer_ticks ts ?s = Inr (set_pit (last_tsc_update (\<lambda>_. last (t # ts))) ?s)"
    using Cons.IH [of ?s] Cons.prems by simp
  ultimately show ?case by (simp add: set_pit_set_pit comp_def)
qed

text \<open>
  The virtual machine's object is zeroed when it is made, so the
  record of the interrupt delivered last names line 0 instead of none.  The first window exit then
  retires a delivery that never happened: it drops a timer request, injects nothing and closes the
  window.
\<close>

lemma first_timer_request_lost:
  assumes "event_inv s" "event_fields s" "is_injectable s" "interrupt_delivery_pending (pic (vm s)) = 0"
    "interrupt_delivery_vector (pic (vm s)) = 0" "interrupt_request_bitmap s = (replicate 15 0)[0 := 1]"
  shows "\<exists>s'. interrupt_window_exit_sub_handler s = Inr s' \<and> interrupt_request_bitmap s' = replicate 15 0 \<and>
    vmcs s' VMENTRY_INTRRUPTION_INFO = vmcs s VMENTRY_INTRRUPTION_INFO \<and> \<not> window_open s'"
proof -
  have o: "outstanding s = replicate 15 0"
    using assms(5,6) by (simp add: outstanding_def list_eq_iff_nth_eq nth_list_update)
  have "request_loop 0 (replicate 15 0) = 15" by (simp add: request_loop.simps)
  with window_law [OF assms(1-4)] obtain s' where "interrupt_window_exit_sub_handler s = Inr s'" "closes s s'"
    by (auto simp: o)
  then show ?thesis by (auto simp: closes_def retires_def o)
qed

section \<open>Witnesses\<close>

definition keyed_monitor :: monitor where
  "keyed_monitor = sample_monitor\<lparr>vmcs := (vmcs sample_monitor)(CTLS_PRI_PROC_BASED_VM_EXECUTION := 4),
     interrupt_request_bitmap := keyboard_only,
     vm := (vm sample_monitor)\<lparr>kbd := \<lparr>ring_size = int SCANCODE_BUFFER_LENGTH, front = 0, rear = 2,
       buffer = [0x1e, 0x9e] @ replicate 48 0\<rparr>,
       pit := \<lparr>initial_counter = 2, divisor = 11931, threshold = 10, last_tsc = 1000\<rparr>\<rparr>\<rparr>"

lemma keyed_monitor_ok:
  "event_inv keyed_monitor" "event_fields keyed_monitor" "is_injectable keyed_monitor" "quiet keyed_monitor"
  "interrupt_delivery_pending (pic (vm keyed_monitor)) = 0"
  "interrupt_delivery_vector (pic (vm keyed_monitor)) = PIC_INVALID_VECTOR"
  "interrupt_request_bitmap keyed_monitor = keyboard_only" "ring_list (kbd (vm keyed_monitor)) = [0x1e, 0x9e]"
  "outstanding keyed_monitor = keyboard_only" "master_pic_offset (pic (vm keyed_monitor)) = 0x20"
  "length keyboard_only = 15"
proof -
  show f: "event_fields keyed_monitor" "is_injectable keyed_monitor" "interrupt_delivery_pending (pic (vm keyed_monitor)) = 0"
    "interrupt_delivery_vector (pic (vm keyed_monitor)) = PIC_INVALID_VECTOR" "interrupt_request_bitmap keyed_monitor = keyboard_only"
    "master_pic_offset (pic (vm keyed_monitor)) = 0x20" "length keyboard_only = 15"
    by (simp_all add: keyed_monitor_def sample_monitor_def event_fields_def is_injectable_def vmx_read_def keyboard_only_def)
  then show "outstanding keyed_monitor = keyboard_only" by (simp add: outstanding_def)
  show "ring_list (kbd (vm keyed_monitor)) = [0x1e, 0x9e]"
    by (simp add: keyed_monitor_def ring_list_def ring_count_def upt_rec)
  have "window_open keyed_monitor" "ring_ok (kbd (vm keyed_monitor))" "\<not> bit (vmcs keyed_monitor VMENTRY_INTRRUPTION_INFO) 31"
    by (simp_all add: keyed_monitor_def sample_monitor_def window_open_def vmx_read_def ring_ok_def)
  with f show "event_inv keyed_monitor" "quiet keyed_monitor" by (simp_all add: event_inv_def quiet_def)
qed

theorem scancodes_reach_guest_witness:
  "\<exists>s1 s'. kbd_rounds 2 keyed_monitor = Inr ([0x1e, 0x9e], s1) \<and> interrupt_window_exit_sub_handler s1 = Inr s' \<and>
     \<not> window_open s'"
  using scancodes_reach_guest [OF keyed_monitor_ok(1-3,5-8)] by (auto simp: numeral_2_eq_2)

lemma keyboard_only_nth: "i < 15 \<Longrightarrow> keyboard_only ! i \<noteq> 0 \<longleftrightarrow> i = 1"
  by (auto simp: keyboard_only_def nth_list_update)

theorem window_injects_lowest_witness:
  "\<exists>s'. interrupt_window_exit_sub_handler keyed_monitor = Inr s' \<and> interrupt_delivery_vector (pic (vm s')) = 1 \<and>
     vmx_read VMENTRY_INTRRUPTION_INFO s' = 0x80000021"
proof -
  have "\<exists>i < 15. keyboard_only ! i \<noteq> 0" using keyboard_only_nth [of 1] by (intro exI [of _ 1]) simp
  with window_injects_lowest [OF keyed_monitor_ok(1-3,5)] obtain s' i where
    "interrupt_window_exit_sub_handler keyed_monitor = Inr s'" "i < 15" "keyboard_only ! i \<noteq> 0"
    "vmx_read VMENTRY_INTRRUPTION_INFO s' = interruption_info (0x20 + of_nat i)" "interrupt_delivery_vector (pic (vm s')) = of_nat i"
    unfolding keyed_monitor_ok(9,10) by auto
  then show ?thesis using keyboard_only_nth [of i] by (auto simp: interruption_info_def)
qed

lemma keyed_run:
  "\<exists>s'. mon_run keyed_monitor [(Window_exit, Some 0x21)] s' \<and> interrupt_delivery_pending (pic (vm s')) \<noteq> 0"
proof -
  obtain s1 where s1: "interrupt_window_exit_sub_handler keyed_monitor = Inr s1" "delivers keyed_monitor s1"
    using window_law [OF keyed_monitor_ok(1-3,5)] by (auto simp: keyed_monitor_ok(9) keyboard_only_first)
  have info: "vmcs s1 VMENTRY_INTRRUPTION_INFO = 0x80000021"
    using s1(2) by (simp add: delivers_def Let_def keyed_monitor_ok keyboard_only_first interruption_info_def)
  let ?s2 = "s1\<lparr>vmcs := (vmcs s1)(VMENTRY_INTRRUPTION_INFO := 0x80000021 AND NOT 0x80000000)\<rparr>"
  have "vm_entry s1 = (Some 0x21, ?s2)" by (simp add: vm_entry_def info)
  then have "mon_run keyed_monitor [(Window_exit, Some 0x21)] ?s2"
    by (rule handled [OF _ _ _ stop, rotated]) (simp_all add: s1(1) guest_runs_def)
  moreover have "interrupt_delivery_pending (pic (vm ?s2)) \<noteq> 0" using s1(2) by (simp add: delivers_def)
  ultimately show ?thesis by blast
qed

theorem no_lost_wakeup_witness:
  "\<exists>s'. mon_run keyed_monitor [(Window_exit, Some 0x21)] s' \<and> window_open s'"
  using keyed_run no_lost_wakeup [OF _ keyed_monitor_ok(4)] by blast

theorem one_interrupt_in_flight_witness:
  "\<exists>tr s'. mon_run keyed_monitor tr s' \<and> deliveries tr = 1 \<and> deliveries tr \<le> acknowledgements tr + 1"
proof -
  obtain s' where "mon_run keyed_monitor [(Window_exit, Some 0x21)] s'" using keyed_run by blast
  with one_interrupt_in_flight [OF this keyed_monitor_ok(4)] show ?thesis by (auto simp: deliveries_def)
qed

theorem timer_tick_exact_witness:
  "\<exists>s'. external_interrupt_sub_handler 0x20 \<lparr>tsc_now = 24942541000, kbd_port = 0, stack_junk = 0\<rparr> keyed_monitor = Inr s' \<and>
     requested s' 0"
  using timer_tick_exact [OF keyed_monitor_ok(1,2), of "\<lparr>tsc_now = 24942541000, kbd_port = 0, stack_junk = 0\<rparr>"]
  by (auto simp: keyed_monitor_def sample_monitor_def)

theorem fast_host_timer_starves_guest_witness:
  "\<exists>s'. timer_ticks [20001000, 40001000, 60001000] keyed_monitor = Inr s' \<and> \<not> requested s' 0"
proof -
  have "closely_spaced (threshold (pit (vm keyed_monitor))) (last_tsc (pit (vm keyed_monitor))) [20001000, 40001000, 60001000]"
    "last_tsc (pit (vm keyed_monitor)) \<noteq> 0" by (simp_all add: keyed_monitor_def)
  from fast_host_timer_starves_guest [OF this(2,1)] show ?thesis
    by (simp add: requested_def keyed_monitor_ok(7) keyboard_only_def)
qed

definition zeroed_monitor :: monitor where
  "zeroed_monitor = set_pic (interrupt_delivery_vector_update (\<lambda>_. 0))
     (keyed_monitor\<lparr>interrupt_request_bitmap := (replicate 15 0)[0 := 1]\<rparr>)"

theorem first_timer_request_lost_witness:
  "\<exists>s'. interrupt_window_exit_sub_handler zeroed_monitor = Inr s' \<and> \<not> window_open s' \<and>
     interrupt_request_bitmap zeroed_monitor ! 0 \<noteq> 0 \<and> interrupt_request_bitmap s' ! 0 = 0"
proof -
  have w: "window_open keyed_monitor" by (simp add: keyed_monitor_def sample_monitor_def window_open_def vmx_read_def)
  have "event_inv zeroed_monitor"
    using keyed_monitor_ok(1) w by (simp add: zeroed_monitor_def event_inv_def)
  moreover have "event_fields zeroed_monitor" "is_injectable zeroed_monitor"
    using keyed_monitor_ok(2,3) by (simp_all add: zeroed_monitor_def event_fields_def is_injectable_def)
  ultimately show ?thesis using first_timer_request_lost [of zeroed_monitor] keyed_monitor_ok(5)
    by (auto simp: zeroed_monitor_def)
qed

end
