(* ===== verification/Insn_Decode.thy ===== *)
theory Insn_Decode
  imports Zelda_Prelude
begin

text \<open>
  The instruction decoder of the monitor, \<open>vm_monitor/vmx_instruction_decoding.c\<close>, which recovers
  the operands of the move that touched an emulated memory region.  The instruction stream is an
  address in memory; the loop over prefix bytes is partial, since nothing but a non-prefix byte ends
  it.
\<close>

section \<open>Context and opcode table\<close>

record instruction_context =
  instruction_length :: int
  is_lock_prefixed :: u8
  is_repnez_prefixed :: u8
  is_rep_prefixed :: u8
  is_cs_overrided :: u8
  is_ss_overrided :: u8
  is_ds_overrided :: u8
  is_es_overrided :: u8
  is_fs_overrided :: u8
  is_gs_overrided :: u8
  branch_not_taken :: u8
  branch_taken :: u8
  operand_size_overrided :: u8
  address_size_overrided :: u8
  opcode_escape0 :: u8
  opcode_escape1 :: u8
  rex_prefix :: u8
  opcode :: u32
  opcode_length :: u32
  moderm :: u8
  operand_hint :: u64
  reg_index :: u8
  rm_index :: u8
  access_size :: u8
  immediate :: u64

definition zero_context :: instruction_context where
  "zero_context = \<lparr>instruction_length = 0, is_lock_prefixed = 0, is_repnez_prefixed = 0, is_rep_prefixed = 0,
     is_cs_overrided = 0, is_ss_overrided = 0, is_ds_overrided = 0, is_es_overrided = 0, is_fs_overrided = 0,
     is_gs_overrided = 0, branch_not_taken = 0, branch_taken = 0, operand_size_overrided = 0,
     address_size_overrided = 0, opcode_escape0 = 0, opcode_escape1 = 0, rex_prefix = 0, opcode = 0,
     opcode_length = 0, moderm = 0, operand_hint = 0, reg_index = 0, rm_index = 0, access_size = 0, immediate = 0\<rparr>"

abbreviation ACCESS_IN_BYTE :: u8 where "ACCESS_IN_BYTE \<equiv> 1"
abbreviation ACCESS_IN_WORD :: u8 where "ACCESS_IN_WORD \<equiv> 2"
abbreviation ACCESS_IN_DWORD :: u8 where "ACCESS_IN_DWORD \<equiv> 4"
abbreviation ACCESS_IN_QWORD :: u8 where "ACCESS_IN_QWORD \<equiv> 8"
abbreviation OPERAND_HINT_MR :: u64 where "OPERAND_HINT_MR \<equiv> 1"
abbreviation OPERAND_HINT_RM :: u64 where "OPERAND_HINT_RM \<equiv> 2"
abbreviation OPERAND_HINT_IM :: u64 where "OPERAND_HINT_IM \<equiv> 3"

definition REX_W_BIT :: "u8 \<Rightarrow> bool" where "REX_W_BIT rex \<longleftrightarrow> rex AND 0x08 \<noteq> 0"
definition REX_R_BIT :: "u8 \<Rightarrow> bool" where "REX_R_BIT rex \<longleftrightarrow> rex AND 0x04 \<noteq> 0"
definition REX_B_BIT :: "u8 \<Rightarrow> bool" where "REX_B_BIT rex \<longleftrightarrow> rex AND 0x01 \<noteq> 0"
definition MODERM_REG :: "u8 \<Rightarrow> u8" where "MODERM_REG mod_rm = drop_bit 3 mod_rm AND 0x7"
definition MODERM_RM :: "u8 \<Rightarrow> u8" where "MODERM_RM mod_rm = mod_rm AND 0x7"

definition REG_INDEX :: "instruction_context \<Rightarrow> u8" where
  "REG_INDEX ctx = MODERM_REG (moderm ctx) OR (if REX_R_BIT (rex_prefix ctx) then 8 else 0)"

definition REG_MEM_INDEX :: "instruction_context \<Rightarrow> u8" where
  "REG_MEM_INDEX ctx = MODERM_RM (moderm ctx) OR (if REX_B_BIT (rex_prefix ctx) then 8 else 0)"

datatype opcode_resolver =
    Opcode_8a_resolver | Opcode_8b_resolver | Opcode_c6_resolver
  | Opcode_c7_resolver | Opcode_b6_resolver | Opcode_b7_resolver

record opcode_def =
  code :: u32
  code_mask :: u32
  code_hint :: u8
  resolve :: "opcode_resolver option"

abbreviation OPCODE_MASK_BYTE :: u32 where "OPCODE_MASK_BYTE \<equiv> 0xff"
abbreviation OPCODE_MASK_WORD :: u32 where "OPCODE_MASK_WORD \<equiv> 0xffff"
abbreviation OPCODE_MASK_TRIBYTES :: u32 where "OPCODE_MASK_TRIBYTES \<equiv> 0xffffff"

definition predefined_opcodes :: "opcode_def list" where
  "predefined_opcodes =
    [\<lparr>code = 0xb6, code_mask = OPCODE_MASK_BYTE, code_hint = 1, resolve = Some Opcode_b6_resolver\<rparr>,
     \<lparr>code = 0xb7, code_mask = OPCODE_MASK_BYTE, code_hint = 1, resolve = Some Opcode_b7_resolver\<rparr>,
     \<lparr>code = 0xc6, code_mask = OPCODE_MASK_BYTE, code_hint = 3, resolve = Some Opcode_c6_resolver\<rparr>,
     \<lparr>code = 0xc7, code_mask = OPCODE_MASK_BYTE, code_hint = 3, resolve = Some Opcode_c7_resolver\<rparr>,
     \<lparr>code = 0x8a, code_mask = OPCODE_MASK_BYTE, code_hint = 1, resolve = Some Opcode_8a_resolver\<rparr>,
     \<lparr>code = 0x8b, code_mask = OPCODE_MASK_BYTE, code_hint = 1, resolve = Some Opcode_8b_resolver\<rparr>,
     \<lparr>code = 0x88, code_mask = OPCODE_MASK_BYTE, code_hint = 2, resolve = Some Opcode_8a_resolver\<rparr>,
     \<lparr>code = 0x89, code_mask = OPCODE_MASK_BYTE, code_hint = 2, resolve = Some Opcode_8b_resolver\<rparr>]"

section \<open>Resolvers\<close>

definition load16 :: "mem \<Rightarrow> u64 \<Rightarrow> u16" where
  "load16 m a = from_le (load_bytes m a 2)"

definition opcode_8a_resolver :: "mem \<Rightarrow> u64 \<Rightarrow> instruction_context \<Rightarrow> instruction_context" where
  "opcode_8a_resolver m instruction_stream ctx =
     (let ctx = ctx\<lparr>moderm := m instruction_stream\<rparr>;
          ctx = ctx\<lparr>instruction_length := instruction_length ctx + 1\<rparr>;
          ctx = ctx\<lparr>rm_index := REG_MEM_INDEX ctx\<rparr>;
          ctx = ctx\<lparr>reg_index := REG_INDEX ctx\<rparr>
      in ctx\<lparr>access_size := ACCESS_IN_BYTE\<rparr>)"

definition opcode_8b_resolver :: "mem \<Rightarrow> u64 \<Rightarrow> instruction_context \<Rightarrow> instruction_context" where
  "opcode_8b_resolver m instruction_stream ctx =
     (let ctx = ctx\<lparr>moderm := m instruction_stream\<rparr>;
          ctx = ctx\<lparr>instruction_length := instruction_length ctx + 1\<rparr>;
          ctx = ctx\<lparr>rm_index := REG_MEM_INDEX ctx\<rparr>;
          ctx = ctx\<lparr>reg_index := REG_INDEX ctx\<rparr>
      in if operand_size_overrided ctx \<noteq> 0 then ctx\<lparr>access_size := ACCESS_IN_WORD\<rparr>
         else if REX_W_BIT (rex_prefix ctx) then ctx\<lparr>access_size := ACCESS_IN_QWORD\<rparr>
         else ctx\<lparr>access_size := ACCESS_IN_DWORD\<rparr>)"

definition opcode_c6_resolver :: "mem \<Rightarrow> u64 \<Rightarrow> instruction_context \<Rightarrow> instruction_context" where
  "opcode_c6_resolver m instruction_stream ctx =
     (let ctx = ctx\<lparr>moderm := m instruction_stream\<rparr>;
          ctx = ctx\<lparr>immediate := ucast (m (instruction_stream + 1))\<rparr>;
          ctx = ctx\<lparr>instruction_length := instruction_length ctx + 2\<rparr>;
          ctx = ctx\<lparr>rm_index := REG_MEM_INDEX ctx\<rparr>;
          ctx = ctx\<lparr>reg_index := REG_INDEX ctx\<rparr>
      in ctx\<lparr>access_size := ACCESS_IN_BYTE\<rparr>)"

definition opcode_c7_resolver :: "mem \<Rightarrow> u64 \<Rightarrow> instruction_context \<Rightarrow> instruction_context" where
  "opcode_c7_resolver m instruction_stream ctx =
     (let ctx = ctx\<lparr>moderm := m instruction_stream\<rparr>;
          ctx = ctx\<lparr>rm_index := REG_MEM_INDEX ctx\<rparr>;
          ctx = ctx\<lparr>reg_index := REG_INDEX ctx\<rparr>
      in if operand_size_overrided ctx \<noteq> 0 then
           ctx\<lparr>access_size := ACCESS_IN_WORD, immediate := ucast (load16 m (instruction_stream + 1)),
               instruction_length := instruction_length ctx + 3\<rparr>
         else if REX_W_BIT (rex_prefix ctx) then
           ctx\<lparr>access_size := ACCESS_IN_QWORD, immediate := ucast (load32 m (instruction_stream + 1)),
               instruction_length := instruction_length ctx + 5\<rparr>
         else
           ctx\<lparr>access_size := ACCESS_IN_DWORD, immediate := ucast (load32 m (instruction_stream + 1)),
               instruction_length := instruction_length ctx + 5\<rparr>)"

definition opcode_b6_resolver :: "mem \<Rightarrow> u64 \<Rightarrow> instruction_context \<Rightarrow> instruction_context" where
  "opcode_b6_resolver m instruction_stream ctx =
     (let ctx = ctx\<lparr>moderm := m instruction_stream\<rparr>;
          ctx = ctx\<lparr>instruction_length := instruction_length ctx + 1\<rparr>;
          ctx = ctx\<lparr>rm_index := REG_MEM_INDEX ctx\<rparr>;
          ctx = ctx\<lparr>reg_index := REG_INDEX ctx\<rparr>
      in ctx\<lparr>access_size := ACCESS_IN_BYTE\<rparr>)"

definition opcode_b7_resolver :: "mem \<Rightarrow> u64 \<Rightarrow> instruction_context \<Rightarrow> instruction_context" where
  "opcode_b7_resolver m instruction_stream ctx =
     (let ctx = ctx\<lparr>moderm := m instruction_stream\<rparr>;
          ctx = ctx\<lparr>instruction_length := instruction_length ctx + 1\<rparr>;
          ctx = ctx\<lparr>rm_index := REG_MEM_INDEX ctx\<rparr>;
          ctx = ctx\<lparr>reg_index := REG_INDEX ctx\<rparr>
      in ctx\<lparr>access_size := ACCESS_IN_WORD\<rparr>)"

primrec call_resolver :: "opcode_resolver \<Rightarrow> mem \<Rightarrow> u64 \<Rightarrow> instruction_context \<Rightarrow> instruction_context" where
  "call_resolver Opcode_8a_resolver = opcode_8a_resolver"
| "call_resolver Opcode_8b_resolver = opcode_8b_resolver"
| "call_resolver Opcode_c6_resolver = opcode_c6_resolver"
| "call_resolver Opcode_c7_resolver = opcode_c7_resolver"
| "call_resolver Opcode_b6_resolver = opcode_b6_resolver"
| "call_resolver Opcode_b7_resolver = opcode_b7_resolver"

section \<open>Decoding\<close>

definition note_prefix :: "u8 \<Rightarrow> instruction_context \<Rightarrow> instruction_context option" where
  "note_prefix c ctx =
     (if c = 0x0f then Some (ctx\<lparr>opcode_escape0 := 1\<rparr>)
      else if c = 0x38 then Some (ctx\<lparr>opcode_escape1 := 1\<rparr>)
      else if c = 0x3a then Some (ctx\<lparr>opcode_escape1 := 1\<rparr>)
      else if c = 0xf0 then Some (ctx\<lparr>is_lock_prefixed := 1\<rparr>)
      else if c = 0xf2 then Some (ctx\<lparr>is_repnez_prefixed := 1\<rparr>)
      else if c = 0xf3 then Some (ctx\<lparr>is_rep_prefixed := 1\<rparr>)
      else if c = 0x2e then Some (ctx\<lparr>is_cs_overrided := 1\<rparr>)
      else if c = 0x36 then Some (ctx\<lparr>is_ss_overrided := 1\<rparr>)
      else if c = 0x3e then Some (ctx\<lparr>is_ds_overrided := 1\<rparr>)
      else if c = 0x26 then Some (ctx\<lparr>is_es_overrided := 1\<rparr>)
      else if c = 0x64 then Some (ctx\<lparr>is_fs_overrided := 1\<rparr>)
      else if c = 0x65 then Some (ctx\<lparr>is_gs_overrided := 1\<rparr>)
      else if c = 0x66 then Some (ctx\<lparr>operand_size_overrided := 1\<rparr>)
      else if c = 0x67 then Some (ctx\<lparr>address_size_overrided := 1\<rparr>)
      else None)"

partial_function (option) prefix_loop :: "mem \<Rightarrow> u64 \<Rightarrow> instruction_context \<Rightarrow> (u64 \<times> instruction_context) option" where
  "prefix_loop m lptr ctx =
     (if m lptr = 0 then Some (lptr, ctx)
      else case note_prefix (m lptr) ctx of
        None \<Rightarrow> Some (lptr, ctx)
      | Some ctx' \<Rightarrow> prefix_loop m (lptr + 1) (ctx'\<lparr>instruction_length := instruction_length ctx' + 1\<rparr>))"

definition take_rex :: "mem \<Rightarrow> u64 \<Rightarrow> instruction_context \<Rightarrow> u64 \<times> instruction_context" where
  "take_rex m lptr ctx =
     (if 0x40 \<le> m lptr \<and> m lptr \<le> 0x4f
      then (lptr + 1, ctx\<lparr>rex_prefix := m lptr, instruction_length := instruction_length ctx + 1\<rparr>)
      else (lptr, ctx))"

definition take_opcode :: "opcode_def \<Rightarrow> mem \<Rightarrow> u64 \<Rightarrow> instruction_context \<Rightarrow> (u64 \<times> instruction_context) result" where
  "take_opcode def m lptr ctx =
     (if code_mask def = OPCODE_MASK_BYTE then
        Inr (lptr + 1, ctx\<lparr>opcode := ucast (m lptr), opcode_length := 1, instruction_length := instruction_length ctx + 1\<rparr>)
      else if code_mask def = OPCODE_MASK_WORD then
        Inr (lptr + 2, ctx\<lparr>opcode := ucast (load16 m lptr), opcode_length := 2, instruction_length := instruction_length ctx + 2\<rparr>)
      else if code_mask def = OPCODE_MASK_TRIBYTES then
        Inr (lptr + 3, ctx\<lparr>opcode := load32 m lptr AND code_mask def, opcode_length := 3,
          instruction_length := instruction_length ctx + 3\<rparr>)
      else Inl Assertion_failed)"

fun opcode_loop :: "opcode_def list \<Rightarrow> mem \<Rightarrow> u64 \<Rightarrow> instruction_context \<Rightarrow> instruction_context result" where
  "opcode_loop [] m lptr ctx = Inr ctx"
| "opcode_loop (def # defs) m lptr ctx =
     (if code_mask def AND code def = code_mask def AND load32 m lptr then
        bind_result (take_opcode def m lptr ctx) (\<lambda>(lptr, ctx).
        case resolve def of None \<Rightarrow> Inl Assertion_failed
        | Some r \<Rightarrow> Inr (call_resolver r m lptr (ctx\<lparr>operand_hint := ucast (code_hint def)\<rparr>)))
      else opcode_loop defs m lptr ctx)"

definition decode_x86_64_instruction :: "mem \<Rightarrow> u64 \<Rightarrow> instruction_context result" where
  "decode_x86_64_instruction m instruction_stream =
     (case prefix_loop m instruction_stream zero_context of
        None \<Rightarrow> Inl Not_returned
      | Some (lptr, ctx) \<Rightarrow>
          (case take_rex m lptr ctx of (lptr, ctx) \<Rightarrow>
             bind_result (opcode_loop predefined_opcodes m lptr ctx) (\<lambda>ctx.
             if opcode ctx \<noteq> 0 then Inr ctx else Inl Assertion_failed)))"

section \<open>An assembler for the moves\<close>

text \<open>
  The encodings of the moves between a register or an immediate and the memory a register points to, as
  the processor reads them in 64-bit mode: operand-size prefix, REX prefix, opcode, register byte,
  immediate.  The REX prefix is there for a 64-bit operand, for one of the upper registers and
  for the low byte of registers 4 to 7.  A base register whose low bits are 4 takes a SIB byte, one whose
  low bits are 5 a zero displacement.  A 64-bit operand overrides the operand-size prefix, and its
  immediate has four bytes that the processor extends by their sign.  The byte registers are the low bytes
  of the sixteen registers; the high bytes ah, ch, dh and bh are not written here.
\<close>

datatype mov_op = Load8 | Load | Store8 | Store | Store_imm8 u8 | Store_imm u32 | Movzx8 | Movzx16

definition rex_byte :: "bool \<Rightarrow> u8 \<Rightarrow> u8 \<Rightarrow> u8" where
  "rex_byte w reg rm = 0x40 OR (if w then 8 else 0) OR (if bit reg 3 then 4 else 0) OR (if bit rm 3 then 1 else 0)"

definition modrm_byte :: "u8 \<Rightarrow> u8 \<Rightarrow> u8" where
  "modrm_byte reg rm = push_bit 3 (reg AND 7) OR (rm AND 7)"

definition mem_operand :: "u8 \<Rightarrow> u8 \<Rightarrow> u8 list" where
  "mem_operand reg rm =
     (if rm AND 7 = 4 then [modrm_byte reg rm, 0x24]
      else if rm AND 7 = 5 then [0x40 OR modrm_byte reg rm, 0]
      else [modrm_byte reg rm])"

primrec op_bytes :: "bool \<Rightarrow> u8 list \<Rightarrow> mov_op \<Rightarrow> u8 list" where
  "op_bytes imm16 operand Load8 = 0x8a # operand"
| "op_bytes imm16 operand Load = 0x8b # operand"
| "op_bytes imm16 operand Store8 = 0x88 # operand"
| "op_bytes imm16 operand Store = 0x89 # operand"
| "op_bytes imm16 operand (Store_imm8 i) = 0xc6 # operand @ [i]"
| "op_bytes imm16 operand (Store_imm i) = 0xc7 # operand @ to_le (if imm16 then 2 else 4) i"
| "op_bytes imm16 operand Movzx8 = 0x0f # 0xb6 # operand"
| "op_bytes imm16 operand Movzx16 = 0x0f # 0xb7 # operand"

definition reg_field :: "mov_op \<Rightarrow> u8 \<Rightarrow> u8" where
  "reg_field op reg = (case op of Store_imm8 i \<Rightarrow> 0 | Store_imm i \<Rightarrow> 0 | _ \<Rightarrow> reg)"

definition needs_rex :: "bool \<Rightarrow> u8 \<Rightarrow> u8 \<Rightarrow> mov_op \<Rightarrow> bool" where
  "needs_rex w reg rm op \<longleftrightarrow> w \<or> bit reg 3 \<or> bit rm 3 \<or> (op = Load8 \<or> op = Store8) \<and> bit reg 2"

definition assemble :: "bool \<Rightarrow> bool \<Rightarrow> u8 \<Rightarrow> u8 \<Rightarrow> mov_op \<Rightarrow> u8 list" where
  "assemble op16 w reg rm op =
     (let reg = reg_field op reg
      in (if op16 then [0x66] else []) @ (if needs_rex w reg rm op then [rex_byte w reg rm] else []) @
         op_bytes (op16 \<and> \<not> w) (mem_operand reg rm) op)"

definition op_size :: "bool \<Rightarrow> bool \<Rightarrow> mov_op \<Rightarrow> u8" where
  "op_size op16 w op =
     (case op of Load8 \<Rightarrow> 1 | Store8 \<Rightarrow> 1 | Store_imm8 i \<Rightarrow> 1 | Movzx8 \<Rightarrow> 1 | Movzx16 \<Rightarrow> 2
      | _ \<Rightarrow> if w then 8 else if op16 then 2 else 4)"

definition op_hint :: "mov_op \<Rightarrow> u64" where
  "op_hint op = (case op of Load8 \<Rightarrow> 1 | Load \<Rightarrow> 1 | Movzx8 \<Rightarrow> 1 | Movzx16 \<Rightarrow> 1 | Store8 \<Rightarrow> 2 | Store \<Rightarrow> 2
     | Store_imm8 i \<Rightarrow> 3 | Store_imm i \<Rightarrow> 3)"

definition op_imm :: "bool \<Rightarrow> bool \<Rightarrow> mov_op \<Rightarrow> u64" where
  "op_imm op16 w op =
     (case op of Store_imm8 i \<Rightarrow> ucast i
      | Store_imm i \<Rightarrow> if w then scast i else take_bit (if op16 then 16 else 32) (ucast i)
      | _ \<Rightarrow> 0)"

text \<open>The instruction the decoder found is the one that was assembled.\<close>

definition decoded_as :: "bool \<Rightarrow> bool \<Rightarrow> u8 \<Rightarrow> u8 \<Rightarrow> mov_op \<Rightarrow> instruction_context \<Rightarrow> bool" where
  "decoded_as op16 w reg rm op ctx \<longleftrightarrow>
     instruction_length ctx = int (length (assemble op16 w reg rm op)) \<and> operand_hint ctx = op_hint op \<and>
     reg_index ctx = reg_field op reg \<and> rm_index ctx = rm \<and> access_size ctx = op_size op16 w op \<and>
     immediate ctx = op_imm op16 w op"

text \<open>The forms the decoder understands.\<close>

definition decodable :: "bool \<Rightarrow> bool \<Rightarrow> u8 \<Rightarrow> u8 \<Rightarrow> mov_op \<Rightarrow> bool" where
  "decodable op16 w reg rm op \<longleftrightarrow> rm AND 7 \<noteq> 4 \<and> rm AND 7 \<noteq> 5 \<and>
     (case op of Load \<Rightarrow> \<not> (op16 \<and> w) | Store \<Rightarrow> \<not> (op16 \<and> w)
      | Store_imm i \<Rightarrow> \<not> (op16 \<and> w) \<and> \<not> (w \<and> bit i 31)
      | Movzx8 \<Rightarrow> \<not> needs_rex w reg rm op | Movzx16 \<Rightarrow> \<not> needs_rex w reg rm op
      | _ \<Rightarrow> True)"

section \<open>Decoding what the assembler writes\<close>

lemma load_bytes_Suc: "load_bytes m p (Suc n) = m p # load_bytes m (p + 1) n"
  unfolding load_bytes_def by (subst upt_conv_Cons) (simp_all add: map_Suc_upt [symmetric] o_def add.assoc del: upt_Suc)

lemma load32_low: "0xff AND load32 m a = ucast (m a)"
proof -
  have m: "(0xff :: u32) = mask 8" by (simp add: mask_eq_exp_minus_1)
  have "load32 m a = ucast (m a) OR push_bit 8 (from_le (load_bytes m (a + 1) 3))"
    using load_bytes_Suc [of m a 3] by (simp add: load32_def)
  then show ?thesis
    unfolding m by (intro bit_word_eqI) (auto simp: bit_simps dest: bit_imp_le_length)
qed

lemma u8_u32_eq: "(ucast c :: u32) = ucast d \<longleftrightarrow> c = d" for c d :: u8
  by (auto simp: ucast_up_ucast_id is_up dest: arg_cong [where f = "ucast :: u32 \<Rightarrow> u8"])

lemma ucast_bytes:
  "(ucast (0xb6 :: u8) :: u32) = 0xb6" "(ucast (0xb7 :: u8) :: u32) = 0xb7" "(ucast (0xc6 :: u8) :: u32) = 0xc6"
  "(ucast (0xc7 :: u8) :: u32) = 0xc7" "(ucast (0x8a :: u8) :: u32) = 0x8a" "(ucast (0x8b :: u8) :: u32) = 0x8b"
  "(ucast (0x88 :: u8) :: u32) = 0x88" "(ucast (0x89 :: u8) :: u32) = 0x89"
  by simp_all

lemma moderm_mode: "MODERM_REG (0x40 OR mo) = MODERM_REG mo" "MODERM_RM (0x40 OR mo) = MODERM_RM mo"
  by (simp_all add: MODERM_REG_def MODERM_RM_def drop_bit_or bit.conj_disj_distrib2)

lemma moderm_fields:
  "MODERM_REG (modrm_byte reg rm) = reg AND 7" "MODERM_RM (modrm_byte reg rm) = rm AND 7"
proof -
  have m: "(7 :: u8) = mask 3" by (simp add: mask_eq_exp_minus_1)
  show "MODERM_REG (modrm_byte reg rm) = reg AND 7" "MODERM_RM (modrm_byte reg rm) = rm AND 7"
    unfolding MODERM_REG_def MODERM_RM_def modrm_byte_def m by (rule bit_word_eqI; auto simp: bit_simps)+
qed

lemma low3_split: "reg < 16 \<Longrightarrow> (reg AND 7) OR (if bit reg 3 then 8 else 0) = reg" for reg :: u8
  using u8_below [of reg 16] by (auto simp: upt_rec)

lemma rex_fields:
  "REX_W_BIT (rex_byte w reg rm) \<longleftrightarrow> w" "REX_R_BIT (rex_byte w reg rm) \<longleftrightarrow> bit reg 3" "REX_B_BIT (rex_byte w reg rm) \<longleftrightarrow> bit rm 3"
  "0x40 \<le> rex_byte w reg rm" "rex_byte w reg rm \<le> 0x4f" "note_prefix (rex_byte w reg rm) ctx = None" "rex_byte w reg rm \<noteq> 0"
  by (simp_all add: rex_byte_def REX_W_BIT_def REX_R_BIT_def REX_B_BIT_def note_prefix_def)

lemma rex_zero: "\<not> REX_W_BIT 0" "\<not> REX_R_BIT 0" "\<not> REX_B_BIT 0"
  by (simp_all add: REX_W_BIT_def REX_R_BIT_def REX_B_BIT_def)

lemma prefix_stop: "note_prefix (m p) ctx = None \<Longrightarrow> prefix_loop m p ctx = Some (p, ctx)"
  by (subst prefix_loop.simps) simp

lemma prefix_66:
  "m p = 0x66 \<Longrightarrow> prefix_loop m p ctx =
     prefix_loop m (p + 1) (ctx\<lparr>operand_size_overrided := 1, instruction_length := instruction_length ctx + 1\<rparr>)"
  by (subst prefix_loop.simps) (simp add: note_prefix_def)

lemma prefix_0f:
  "m p = 0x0f \<Longrightarrow> prefix_loop m p ctx =
     prefix_loop m (p + 1) (ctx\<lparr>opcode_escape0 := 1, instruction_length := instruction_length ctx + 1\<rparr>)"
  by (subst prefix_loop.simps) (simp add: note_prefix_def)

text \<open>The opcode table, read as a function of the opcode byte.\<close>

definition resolver_of :: "u8 \<Rightarrow> (u8 \<times> opcode_resolver) option" where
  "resolver_of c =
     (if c = 0xb6 then Some (1, Opcode_b6_resolver) else if c = 0xb7 then Some (1, Opcode_b7_resolver)
      else if c = 0xc6 then Some (3, Opcode_c6_resolver) else if c = 0xc7 then Some (3, Opcode_c7_resolver)
      else if c = 0x8a then Some (1, Opcode_8a_resolver) else if c = 0x8b then Some (1, Opcode_8b_resolver)
      else if c = 0x88 then Some (2, Opcode_8a_resolver) else if c = 0x89 then Some (2, Opcode_8b_resolver) else None)"

lemma opcode_loop_eq:
  "opcode_loop predefined_opcodes m p ctx =
     (case resolver_of (m p) of None \<Rightarrow> Inr ctx
      | Some (h, r) \<Rightarrow> Inr (call_resolver r m (p + 1) (ctx\<lparr>opcode := ucast (m p), opcode_length := 1,
          instruction_length := instruction_length ctx + 1, operand_hint := ucast h\<rparr>)))"
proof -
  have e: "(ucast (m p) :: u32) = 0xb6 \<longleftrightarrow> m p = 0xb6" "(ucast (m p) :: u32) = 0xb7 \<longleftrightarrow> m p = 0xb7"
    "(ucast (m p) :: u32) = 0xc6 \<longleftrightarrow> m p = 0xc6" "(ucast (m p) :: u32) = 0xc7 \<longleftrightarrow> m p = 0xc7"
    "(ucast (m p) :: u32) = 0x8a \<longleftrightarrow> m p = 0x8a" "(ucast (m p) :: u32) = 0x8b \<longleftrightarrow> m p = 0x8b"
    "(ucast (m p) :: u32) = 0x88 \<longleftrightarrow> m p = 0x88" "(ucast (m p) :: u32) = 0x89 \<longleftrightarrow> m p = 0x89"
    using u8_u32_eq [of "m p"] by (metis ucast_bytes)+
  have sym: "(k :: u32) = ucast (m p) \<longleftrightarrow> ucast (m p) = k" for k by auto
  show ?thesis
    unfolding predefined_opcodes_def resolver_of_def
    by (simp add: load32_low sym e take_opcode_def)
qed

definition stream :: "mem \<Rightarrow> u64 \<Rightarrow> u8 list \<Rightarrow> bool" where
  "stream m p bs \<longleftrightarrow> load_bytes m p (length bs) = bs"

lemma stream_Nil [simp]: "stream m p []"
  by (simp add: stream_def load_bytes_def)

lemma stream_Cons [simp]: "stream m p (b # bs) \<longleftrightarrow> m p = b \<and> stream m (p + 1) bs"
  by (simp add: stream_def load_bytes_Suc)

lemma stream_append: "stream m p (xs @ ys) \<longleftrightarrow> stream m p xs \<and> stream m (p + of_nat (length xs)) ys"
  by (induction xs arbitrary: p) (simp_all add: add.assoc)

lemma stream_imm:
  "stream m p (to_le 4 i) \<Longrightarrow> load32 m p = i" "stream m p (to_le 2 i) \<Longrightarrow> load16 m p = ucast i" for i :: u32
proof -
  assume "stream m p (to_le 4 i)"
  then show "load32 m p = i" by (simp add: stream_def load32_def from_le_to_le)
next
  assume "stream m p (to_le 2 i)"
  then have "load16 m p = from_le (to_le 2 i)" by (simp add: stream_def load16_def)
  also have "\<dots> = ucast i" by (rule bit_word_eqI) (auto simp: bit_from_le to_le_def bit_simps less_mult_imp_div_less)
  finally show "load16 m p = ucast i" .
qed

text \<open>The context and the pointer when the opcode is reached.\<close>

definition at_opcode :: "bool \<Rightarrow> bool \<Rightarrow> bool \<Rightarrow> u8 \<Rightarrow> u8 \<Rightarrow> instruction_context" where
  "at_opcode op16 rex w reg rm =
     (let c = (if op16 then zero_context\<lparr>operand_size_overrided := 1, instruction_length := 1\<rparr> else zero_context)
      in if rex then c\<lparr>rex_prefix := rex_byte w reg rm, instruction_length := instruction_length c + 1\<rparr> else c)"

lemma decode_prefixes:
  assumes "stream m p ((if op16 then [0x66] else []) @ (if rex then [rex_byte w reg rm] else []) @ c # bs)"
    and np: "\<not> rex \<Longrightarrow> resolver_of c \<noteq> None"
  obtains q where "stream m q (c # bs)"
    "decode_x86_64_instruction m p = bind_result (opcode_loop predefined_opcodes m q (at_opcode op16 rex w reg rm))
      (\<lambda>ctx. if opcode ctx \<noteq> 0 then Inr ctx else Inl Assertion_failed)"
proof -
  define c0 where "c0 = (if op16 then zero_context\<lparr>operand_size_overrided := 1, instruction_length := 1\<rparr> else zero_context)"
  define p0 where "p0 = (if op16 then p + 1 else p)"
  have s0: "stream m p0 ((if rex then [rex_byte w reg rm] else []) @ c # bs)"
    using assms(1) by (cases op16) (simp_all add: p0_def)
  have np: "note_prefix c ctx = None" "\<not> (0x40 \<le> c \<and> c \<le> 0x4f)" if "\<not> rex" for ctx
    using np [OF that] by (auto simp: resolver_of_def note_prefix_def split: if_splits)
  have "note_prefix (m p0) c0 = None" using s0 np(1) rex_fields(6) by (cases rex) auto
  then have "prefix_loop m p0 c0 = Some (p0, c0)" by (rule prefix_stop)
  moreover have "prefix_loop m p zero_context = prefix_loop m p0 c0"
    using assms(1) by (cases op16) (simp_all add: p0_def c0_def prefix_66 zero_context_def)
  ultimately have pre: "prefix_loop m p zero_context = Some (p0, c0)" by simp
  show thesis
  proof (cases rex)
    case True
    have "take_rex m p0 c0 = (p0 + 1, at_opcode op16 rex w reg rm)"
      using s0 True rex_fields(4,5) by (simp add: take_rex_def at_opcode_def c0_def Let_def)
    with pre s0 True that [of "p0 + 1"] show thesis by (simp add: decode_x86_64_instruction_def)
  next
    case False
    have "take_rex m p0 c0 = (p0, at_opcode op16 rex w reg rm)"
      using s0 False np(2) by (simp add: take_rex_def at_opcode_def c0_def Let_def)
    with pre s0 False that [of p0] show thesis by (simp add: decode_x86_64_instruction_def)
  qed
qed

lemma at_opcode_fields:
  assumes "\<not> rex \<Longrightarrow> \<not> w \<and> \<not> bit reg 3 \<and> \<not> bit rm 3"
  shows "instruction_length (at_opcode op16 rex w reg rm) = of_bool op16 + of_bool rex"
    "operand_size_overrided (at_opcode op16 rex w reg rm) \<noteq> 0 \<longleftrightarrow> op16"
    "REX_W_BIT (rex_prefix (at_opcode op16 rex w reg rm)) \<longleftrightarrow> w"
    "REX_R_BIT (rex_prefix (at_opcode op16 rex w reg rm)) \<longleftrightarrow> bit reg 3"
    "REX_B_BIT (rex_prefix (at_opcode op16 rex w reg rm)) \<longleftrightarrow> bit rm 3"
    "immediate (at_opcode op16 rex w reg rm) = 0" "opcode (at_opcode op16 rex w reg rm) = 0"
  using assms by (auto simp: at_opcode_def zero_context_def Let_def rex_fields rex_zero)

lemma needs_rex_bits: "\<not> needs_rex w reg rm op \<Longrightarrow> \<not> w \<and> \<not> bit reg 3 \<and> \<not> bit rm 3"
  by (auto simp: needs_rex_def)

lemma mem_operand_Cons:
  obtains mo ds where "mem_operand reg rm = mo # ds" "MODERM_REG mo = reg AND 7" "MODERM_RM mo = rm AND 7"
    "ds = [] \<longleftrightarrow> rm AND 7 \<noteq> 4 \<and> rm AND 7 \<noteq> 5"
  by (rule that [of "hd (mem_operand reg rm)" "tl (mem_operand reg rm)"])
    (simp_all add: mem_operand_def moderm_fields moderm_mode)

lemma index_of_moderm:
  assumes "reg < 16" "MODERM_REG mo = reg AND 7"
  shows "MODERM_REG mo OR (if bit reg 3 then 8 else 0) = reg"
  using low3_split [OF assms(1)] assms(2) by simp

lemma base_of_moderm:
  assumes "rm < 16" "MODERM_RM mo = rm AND 7"
  shows "MODERM_RM mo OR (if bit rm 3 then 8 else 0) = rm"
  using low3_split [OF assms(1)] assms(2) by simp

lemma resolver_effects:
  fixes m :: mem
  defines "R \<equiv> \<lambda>ctx q. MODERM_REG (m q) OR (if REX_R_BIT (rex_prefix ctx) then 8 else 0)"
    and "B \<equiv> \<lambda>ctx q. MODERM_RM (m q) OR (if REX_B_BIT (rex_prefix ctx) then 8 else 0)"
  shows "opcode_8a_resolver m q ctx = ctx\<lparr>moderm := m q, instruction_length := instruction_length ctx + 1,
      rm_index := B ctx q, reg_index := R ctx q, access_size := 1\<rparr>"
    "opcode_8b_resolver m q ctx = ctx\<lparr>moderm := m q, instruction_length := instruction_length ctx + 1,
      rm_index := B ctx q, reg_index := R ctx q,
      access_size := if operand_size_overrided ctx \<noteq> 0 then 2 else if REX_W_BIT (rex_prefix ctx) then 8 else 4\<rparr>"
    "opcode_c6_resolver m q ctx = ctx\<lparr>moderm := m q, immediate := ucast (m (q + 1)), instruction_length := instruction_length ctx + 2,
      rm_index := B ctx q, reg_index := R ctx q, access_size := 1\<rparr>"
    "opcode_c7_resolver m q ctx = ctx\<lparr>moderm := m q, rm_index := B ctx q, reg_index := R ctx q,
      access_size := if operand_size_overrided ctx \<noteq> 0 then 2 else if REX_W_BIT (rex_prefix ctx) then 8 else 4,
      immediate := if operand_size_overrided ctx \<noteq> 0 then ucast (load16 m (q + 1)) else ucast (load32 m (q + 1)),
      instruction_length := instruction_length ctx + (if operand_size_overrided ctx \<noteq> 0 then 3 else 5)\<rparr>"
    "opcode_b6_resolver m q ctx = ctx\<lparr>moderm := m q, instruction_length := instruction_length ctx + 1,
      rm_index := B ctx q, reg_index := R ctx q, access_size := 1\<rparr>"
    "opcode_b7_resolver m q ctx = ctx\<lparr>moderm := m q, instruction_length := instruction_length ctx + 1,
      rm_index := B ctx q, reg_index := R ctx q, access_size := 2\<rparr>"
  unfolding R_def B_def opcode_8a_resolver_def opcode_8b_resolver_def opcode_c6_resolver_def opcode_c7_resolver_def
    opcode_b6_resolver_def opcode_b7_resolver_def
  by (simp_all add: Let_def REG_INDEX_def REG_MEM_INDEX_def)

definition noted :: "u8 \<Rightarrow> u8 \<Rightarrow> instruction_context \<Rightarrow> instruction_context" where
  "noted c h ctx = ctx\<lparr>opcode := ucast c, opcode_length := 1, instruction_length := instruction_length ctx + 1,
     operand_hint := ucast h\<rparr>"

lemma decode_plain:
  assumes "stream m p ((if op16 then [0x66] else []) @ (if rex then [rex_byte w reg rm] else []) @ c # bs)"
    and "resolver_of c = Some (h, r)"
  obtains q where "stream m q bs"
    "decode_x86_64_instruction m p = Inr (call_resolver r m q (noted c h (at_opcode op16 rex w reg rm)))"
proof -
  obtain q where q: "stream m q (c # bs)"
    "decode_x86_64_instruction m p = bind_result (opcode_loop predefined_opcodes m q (at_opcode op16 rex w reg rm))
      (\<lambda>ctx. if opcode ctx \<noteq> 0 then Inr ctx else Inl Assertion_failed)"
    using decode_prefixes [OF assms(1)] assms(2) by auto
  have op: "opcode (call_resolver r m a ctx) = opcode ctx" for a ctx
    by (cases r) (simp_all add: resolver_effects)
  have "(ucast c :: u32) \<noteq> 0" using assms(2) by (auto simp: resolver_of_def split: if_splits)
  with q assms(2) that [of "q + 1"] show thesis by (simp add: opcode_loop_eq op noted_def)
qed

definition escaped :: "bool \<Rightarrow> instruction_context" where
  "escaped op16 = (at_opcode op16 False False 0 0)\<lparr>opcode_escape0 := 1, instruction_length := of_bool op16 + 1\<rparr>"

lemma decode_movzx:
  assumes "stream m p ((if op16 then [0x66] else []) @ 0x0f # c # mo # ds)" "resolver_of c = Some (h, r)"
  shows "\<exists>q. m q = mo \<and> decode_x86_64_instruction m p = Inr (call_resolver r m q (noted c h (escaped op16)))"
proof -
  define p1 where "p1 = (if op16 then p + 1 else p)"
  have s1: "m p1 = 0x0f" "m (p1 + 1) = c" "m (p1 + 1 + 1) = mo"
    using assms(1) by (cases op16; simp add: p1_def)+
  have np: "note_prefix c ctx = None" "\<not> (0x40 \<le> c \<and> c \<le> 0x4f)" "(ucast c :: u32) \<noteq> 0" for ctx
    using assms(2) by (auto simp: resolver_of_def note_prefix_def split: if_splits)
  have "prefix_loop m (p1 + 1) (escaped op16) = Some (p1 + 1, escaped op16)"
    by (rule prefix_stop) (use s1 np in simp)
  moreover have "prefix_loop m p zero_context = prefix_loop m (p1 + 1) (escaped op16)"
    using assms(1) s1(1)
    by (cases op16) (simp_all add: p1_def prefix_66 prefix_0f escaped_def at_opcode_def zero_context_def Let_def)
  moreover have "take_rex m (p1 + 1) (escaped op16) = (p1 + 1, escaped op16)" using s1 np(2) by (simp add: take_rex_def)
  moreover have op: "opcode (call_resolver r m a ctx) = opcode ctx" for a ctx
    by (cases r) (simp_all add: resolver_effects)
  ultimately show ?thesis
    using s1 np(3) assms(2)
    by (intro exI [of _ "p1 + 1 + 1"]) (simp add: decode_x86_64_instruction_def opcode_loop_eq op noted_def)
qed

text \<open>
  The decoder looks for the escape byte \<open>0x0f\<close> among the prefixes
  only, in front of the REX prefix, while the architecture has it behind: every zero-extending load
  that needs a REX prefix stops the monitor with a failed assertion.
\<close>

lemma decode_rex_movzx_fails:
  assumes "stream m p ((if op16 then [0x66] else []) @ rex_byte w reg rm # 0x0f # bs)"
  shows "decode_x86_64_instruction m p = Inl Assertion_failed"
proof -
  from decode_prefixes [of m p op16 True w reg rm "0x0f" bs] assms obtain q where
    "stream m q (0x0f # bs)"
    "decode_x86_64_instruction m p = bind_result (opcode_loop predefined_opcodes m q (at_opcode op16 True w reg rm))
      (\<lambda>ctx. if opcode ctx \<noteq> 0 then Inr ctx else Inl Assertion_failed)" by auto
  then show ?thesis by (simp add: opcode_loop_eq resolver_of_def at_opcode_def zero_context_def Let_def)
qed

lemma resolvers:
  "resolver_of 0x8a = Some (1, Opcode_8a_resolver)" "resolver_of 0x8b = Some (1, Opcode_8b_resolver)"
  "resolver_of 0x88 = Some (2, Opcode_8a_resolver)" "resolver_of 0x89 = Some (2, Opcode_8b_resolver)"
  "resolver_of 0xc6 = Some (3, Opcode_c6_resolver)" "resolver_of 0xc7 = Some (3, Opcode_c7_resolver)"
  "resolver_of 0xb6 = Some (1, Opcode_b6_resolver)" "resolver_of 0xb7 = Some (1, Opcode_b7_resolver)"
  by (simp_all add: resolver_of_def)

lemma take_bit_imm: "take_bit 16 (ucast i :: u64) = ucast (ucast i :: u16)" "take_bit 32 (ucast i :: u64) = ucast i" for i :: u32
  by (rule bit_word_eqI; auto simp: bit_simps dest: bit_imp_le_length)+

lemma sign_extends: "(ucast i :: u64) = scast i \<longleftrightarrow> \<not> bit i 31" for i :: u32
proof
  assume "(ucast i :: u64) = scast i"
  then have "bit (ucast i :: u64) 63 = bit (scast i :: u64) 63" by simp
  then show "\<not> bit i 31" using bit_imp_le_length [of i 63] by (auto simp: bit_simps bit_signed_iff)
next
  assume n: "\<not> bit i 31"
  show "(ucast i :: u64) = scast i"
  proof (rule bit_word_eqI)
    fix k
    show "bit (ucast i :: u64) k = bit (scast i :: u64) k" if "k < LENGTH(64)"
      using n that by (cases "k \<le> 31") (auto simp: bit_simps bit_signed_iff min_def dest: bit_imp_le_length)
  qed
qed

text \<open>The context a resolver leaves behind the prefixes, and when it is the right one.\<close>

lemma decoded_common:
  assumes "reg < 16" "rm < 16" "mem_operand (reg_field op reg) rm = mo # ds" "MODERM_REG mo = reg_field op reg AND 7" "MODERM_RM mo = rm AND 7"
    and ctx: "rex_prefix ctx = rex_prefix (at_opcode op16 (needs_rex w (reg_field op reg) rm op) w (reg_field op reg) rm)"
  shows "MODERM_REG mo OR (if REX_R_BIT (rex_prefix ctx) then 8 else 0) = reg_field op reg"
    "MODERM_RM mo OR (if REX_B_BIT (rex_prefix ctx) then 8 else 0) = rm"
proof -
  note at = at_opcode_fields [of "needs_rex w (reg_field op reg) rm op" w "reg_field op reg" rm op16, OF needs_rex_bits]
  have "reg_field op reg < 16" using assms(1) by (simp add: reg_field_def split: mov_op.splits)
  then show "MODERM_REG mo OR (if REX_R_BIT (rex_prefix ctx) then 8 else 0) = reg_field op reg"
    using index_of_moderm [OF _ assms(4)] by (simp add: ctx at)
  show "MODERM_RM mo OR (if REX_B_BIT (rex_prefix ctx) then 8 else 0) = rm"
    using base_of_moderm [OF assms(2,5)] by (simp add: ctx at)
qed

lemma decode_move:
  assumes st: "stream m p (assemble op16 w reg rm op)" and "reg < 16" "rm < 16"
    and c: "\<And>x xs. op_bytes (op16 \<and> \<not> w) (x # xs) op = c # x # xs @ is" "resolver_of c = Some (h, r)" "ucast h = op_hint op"
  obtains q mo ds ctx where "stream m q (mo # ds @ is)" "ds = [] \<longleftrightarrow> rm AND 7 \<noteq> 4 \<and> rm AND 7 \<noteq> 5"
    "decode_x86_64_instruction m p = Inr (call_resolver r m q ctx)"
    "MODERM_REG mo OR (if REX_R_BIT (rex_prefix ctx) then 8 else 0) = reg_field op reg"
    "MODERM_RM mo OR (if REX_B_BIT (rex_prefix ctx) then 8 else 0) = rm"
    "REX_W_BIT (rex_prefix ctx) \<longleftrightarrow> w" "operand_size_overrided ctx \<noteq> 0 \<longleftrightarrow> op16" "immediate ctx = 0"
    "operand_hint ctx = op_hint op"
    "int (length (assemble op16 w reg rm op)) = instruction_length ctx + 1 + int (length ds) + int (length is)"
proof -
  let ?reg = "reg_field op reg" and ?rex = "needs_rex w (reg_field op reg) rm op"
  let ?ctx = "noted c h (at_opcode op16 ?rex w ?reg rm)"
  obtain mo ds where mo: "mem_operand ?reg rm = mo # ds" "MODERM_REG mo = ?reg AND 7" "MODERM_RM mo = rm AND 7"
    "ds = [] \<longleftrightarrow> rm AND 7 \<noteq> 4 \<and> rm AND 7 \<noteq> 5" by (rule mem_operand_Cons)
  note at = at_opcode_fields [of ?rex w ?reg rm op16, OF needs_rex_bits]
  have as: "assemble op16 w reg rm op = (if op16 then [0x66] else []) @ (if ?rex then [rex_byte w ?reg rm] else []) @ c # mo # ds @ is"
    by (simp only: assemble_def Let_def mo(1) c(1))
  from decode_plain [OF st [unfolded as] c(2)] obtain q where q: "stream m q (mo # ds @ is)"
    "decode_x86_64_instruction m p = Inr (call_resolver r m q ?ctx)" by blast
  have f: "rex_prefix ?ctx = rex_prefix (at_opcode op16 ?rex w ?reg rm)" "operand_hint ?ctx = op_hint op"
    "operand_size_overrided ?ctx = operand_size_overrided (at_opcode op16 ?rex w ?reg rm)" "immediate ?ctx = 0"
    "instruction_length ?ctx = of_bool op16 + of_bool ?rex + 1"
    by (simp_all add: noted_def c(3) at)
  show thesis
    by (rule that [OF q(1) mo(4) q(2) decoded_common [OF assms(2,3) mo(1-3) f(1)]])
      (simp_all add: f at as)
qed

lemma decode_by_8a:
  assumes "stream m p (assemble op16 w reg rm op)" "reg < 16" "rm < 16" "op = Load8 \<or> op = Store8"
  shows "\<exists>ctx. decode_x86_64_instruction m p = Inr ctx \<and> (decoded_as op16 w reg rm op ctx \<longleftrightarrow> decodable op16 w reg rm op)"
proof -
  obtain c h where c: "\<And>x xs. op_bytes (op16 \<and> \<not> w) (x # xs) op = c # x # xs @ []"
    "resolver_of c = Some (h, Opcode_8a_resolver)" "ucast h = op_hint op"
    using assms(4) resolvers by (auto simp: op_hint_def)
  have op: "op_size op16 w op = 1" "op_imm op16 w op = 0"
    "decodable op16 w reg rm op \<longleftrightarrow> rm AND 7 \<noteq> 4 \<and> rm AND 7 \<noteq> 5"
    using assms(4) by (auto simp: op_size_def op_imm_def decodable_def)
  from decode_move [OF assms(1-3) c] obtain q mo ds ctx where d: "stream m q (mo # ds @ [])" "ds = [] \<longleftrightarrow> rm AND 7 \<noteq> 4 \<and> rm AND 7 \<noteq> 5"
    "decode_x86_64_instruction m p = Inr (opcode_8a_resolver m q ctx)"
    "MODERM_REG mo OR (if REX_R_BIT (rex_prefix ctx) then 8 else 0) = reg_field op reg"
    "MODERM_RM mo OR (if REX_B_BIT (rex_prefix ctx) then 8 else 0) = rm"
    "immediate ctx = 0" "operand_hint ctx = op_hint op"
    "int (length (assemble op16 w reg rm op)) = instruction_length ctx + 1 + int (length ds) + int (length ([] :: u8 list))"
    unfolding call_resolver.simps by metis
  then show ?thesis by (simp add: d resolver_effects decoded_as_def op)
qed

lemma decode_by_8b:
  assumes "stream m p (assemble op16 w reg rm op)" "reg < 16" "rm < 16" "op = Load \<or> op = Store"
  shows "\<exists>ctx. decode_x86_64_instruction m p = Inr ctx \<and> (decoded_as op16 w reg rm op ctx \<longleftrightarrow> decodable op16 w reg rm op)"
proof -
  obtain c h where c: "\<And>x xs. op_bytes (op16 \<and> \<not> w) (x # xs) op = c # x # xs @ []"
    "resolver_of c = Some (h, Opcode_8b_resolver)" "ucast h = op_hint op"
    using assms(4) resolvers by (auto simp: op_hint_def)
  have op: "op_size op16 w op = (if w then 8 else if op16 then 2 else 4)" "op_imm op16 w op = 0"
    "decodable op16 w reg rm op \<longleftrightarrow> rm AND 7 \<noteq> 4 \<and> rm AND 7 \<noteq> 5 \<and> \<not> (op16 \<and> w)"
    using assms(4) by (auto simp: op_size_def op_imm_def decodable_def)
  from decode_move [OF assms(1-3) c] obtain q mo ds ctx where d: "stream m q (mo # ds @ [])" "ds = [] \<longleftrightarrow> rm AND 7 \<noteq> 4 \<and> rm AND 7 \<noteq> 5"
    "decode_x86_64_instruction m p = Inr (opcode_8b_resolver m q ctx)"
    "MODERM_REG mo OR (if REX_R_BIT (rex_prefix ctx) then 8 else 0) = reg_field op reg"
    "MODERM_RM mo OR (if REX_B_BIT (rex_prefix ctx) then 8 else 0) = rm"
    "REX_W_BIT (rex_prefix ctx) \<longleftrightarrow> w" "operand_size_overrided ctx \<noteq> 0 \<longleftrightarrow> op16" "immediate ctx = 0"
    "operand_hint ctx = op_hint op"
    "int (length (assemble op16 w reg rm op)) = instruction_length ctx + 1 + int (length ds) + int (length ([] :: u8 list))"
    unfolding call_resolver.simps by metis
  then show ?thesis by (auto simp: d resolver_effects decoded_as_def op)
qed

lemma decode_by_c6:
  assumes "stream m p (assemble op16 w reg rm (Store_imm8 i))" "reg < 16" "rm < 16"
  shows "\<exists>ctx. decode_x86_64_instruction m p = Inr ctx \<and>
    (decoded_as op16 w reg rm (Store_imm8 i) ctx \<longleftrightarrow> decodable op16 w reg rm (Store_imm8 i))"
proof -
  let ?op = "Store_imm8 i"
  have c: "\<And>x xs. op_bytes (op16 \<and> \<not> w) (x # xs) ?op = 0xc6 # x # xs @ [i]" "ucast (3 :: u8) = op_hint ?op" by (simp_all add: op_hint_def)
  from decode_move [OF assms c(1) resolvers(5) c(2)] obtain q mo ds ctx where
    d: "stream m q (mo # ds @ [i])" "ds = [] \<longleftrightarrow> rm AND 7 \<noteq> 4 \<and> rm AND 7 \<noteq> 5"
    "decode_x86_64_instruction m p = Inr (opcode_c6_resolver m q ctx)"
    "MODERM_REG mo OR (if REX_R_BIT (rex_prefix ctx) then 8 else 0) = reg_field ?op reg"
    "MODERM_RM mo OR (if REX_B_BIT (rex_prefix ctx) then 8 else 0) = rm"
    "operand_hint ctx = op_hint ?op"
    "int (length (assemble op16 w reg rm ?op)) = instruction_length ctx + 1 + int (length ds) + int (length [i])"
    unfolding call_resolver.simps by metis
  have "ds = [] \<Longrightarrow> m (q + 1) = i" using d(1) by simp
  with d show ?thesis by (auto simp: d resolver_effects decoded_as_def op_size_def op_imm_def decodable_def)
qed

lemma decode_by_c7:
  assumes "stream m p (assemble op16 w reg rm (Store_imm i))" "reg < 16" "rm < 16"
  shows "\<exists>ctx. decode_x86_64_instruction m p = Inr ctx \<and>
    (decoded_as op16 w reg rm (Store_imm i) ctx \<longleftrightarrow> decodable op16 w reg rm (Store_imm i))"
proof -
  let ?op = "Store_imm i" and ?imm = "to_le (if op16 \<and> \<not> w then 2 else 4) i"
  have c: "\<And>x xs. op_bytes (op16 \<and> \<not> w) (x # xs) ?op = 0xc7 # x # xs @ ?imm" "ucast (3 :: u8) = op_hint ?op" by (simp_all add: op_hint_def)
  from decode_move [OF assms c(1) resolvers(6) c(2)] obtain q mo ds ctx where
    d: "stream m q (mo # ds @ ?imm)" "ds = [] \<longleftrightarrow> rm AND 7 \<noteq> 4 \<and> rm AND 7 \<noteq> 5"
    "decode_x86_64_instruction m p = Inr (opcode_c7_resolver m q ctx)"
    "MODERM_REG mo OR (if REX_R_BIT (rex_prefix ctx) then 8 else 0) = reg_field ?op reg"
    "MODERM_RM mo OR (if REX_B_BIT (rex_prefix ctx) then 8 else 0) = rm"
    "REX_W_BIT (rex_prefix ctx) \<longleftrightarrow> w" "operand_size_overrided ctx \<noteq> 0 \<longleftrightarrow> op16"
    "operand_hint ctx = op_hint ?op"
    "int (length (assemble op16 w reg rm ?op)) = instruction_length ctx + 1 + int (length ds) + int (length ?imm)"
    unfolding call_resolver.simps by metis
  show ?thesis
  proof (cases "ds = [] \<and> \<not> (op16 \<and> w)")
    case True
    then have "if op16 then load16 m (q + 1) = ucast i else load32 m (q + 1) = i"
      using d(1) stream_imm [of m "q + 1" i] by (auto split: if_splits)
    then show ?thesis using True d sign_extends [of i]
      by (cases op16; cases w) (simp_all add: d resolver_effects decoded_as_def op_size_def op_imm_def decodable_def take_bit_imm)
  next
    case False
    then have "\<not> decodable op16 w reg rm ?op" using d(2) by (auto simp: decodable_def)
    moreover have "\<not> decoded_as op16 w reg rm ?op (opcode_c7_resolver m q ctx)"
      using False d by (cases op16; cases w) (auto simp: d resolver_effects decoded_as_def op_size_def)
    ultimately show ?thesis using d(3) by blast
  qed
qed

lemma decode_by_movzx:
  assumes st: "stream m p (assemble op16 w reg rm op)" and "reg < 16" "rm < 16" "op = Movzx8 \<or> op = Movzx16"
  shows "(\<exists>ctx. decode_x86_64_instruction m p = Inr ctx \<and> decoded_as op16 w reg rm op ctx) \<longleftrightarrow> decodable op16 w reg rm op"
proof -
  have reg: "reg_field op reg = reg" using assms(4) by (auto simp: reg_field_def)
  obtain mo ds where mo: "mem_operand reg rm = mo # ds" "MODERM_REG mo = reg AND 7" "MODERM_RM mo = rm AND 7"
    "ds = [] \<longleftrightarrow> rm AND 7 \<noteq> 4 \<and> rm AND 7 \<noteq> 5" by (rule mem_operand_Cons)
  obtain c r where c: "op_bytes (op16 \<and> \<not> w) (mo # ds) op = 0x0f # c # mo # ds" "resolver_of c = Some (1, r)"
    "\<And>m q ctx. call_resolver r m q ctx = ctx\<lparr>moderm := m q, instruction_length := instruction_length ctx + 1,
      rm_index := MODERM_RM (m q) OR (if REX_B_BIT (rex_prefix ctx) then 8 else 0),
      reg_index := MODERM_REG (m q) OR (if REX_R_BIT (rex_prefix ctx) then 8 else 0), access_size := op_size op16 w op\<rparr>"
    using assms(4) resolvers resolver_effects(5,6) by (auto simp: op_size_def)
  note as = assemble_def [of op16 w reg rm op, unfolded reg Let_def mo(1) c(1)]
  show ?thesis
  proof (cases "needs_rex w reg rm op")
    case True
    with st have "stream m p ((if op16 then [0x66] else []) @ rex_byte w reg rm # 0x0f # c # mo # ds)" by (simp add: as)
    from decode_rex_movzx_fails [OF this] True assms(4) show ?thesis by (auto simp: decodable_def)
  next
    case False
    then have n: "\<not> w" "\<not> bit reg 3" "\<not> bit rm 3" using needs_rex_bits by blast+
    have "stream m p ((if op16 then [0x66] else []) @ 0x0f # c # mo # ds)" using st False by (simp add: as)
    from decode_movzx [OF this c(2)] obtain q where q: "m q = mo"
      "decode_x86_64_instruction m p = Inr (call_resolver r m q (noted c 1 (escaped op16)))" by blast
    have ix: "MODERM_REG mo = reg" "MODERM_RM mo = rm"
      using low3_split [OF assms(2)] low3_split [OF assms(3)] n mo(2,3) by simp_all
    have f: "rex_prefix (escaped op16) = 0" "instruction_length (escaped op16) = of_bool op16 + 1" "immediate (escaped op16) = 0"
      by (simp_all add: escaped_def at_opcode_def zero_context_def Let_def)
    have "decodable op16 w reg rm op \<longleftrightarrow> ds = []" "op_hint op = 1" "op_imm op16 w op = 0"
      using False assms(4) mo(4) by (auto simp: decodable_def op_hint_def op_imm_def)
    then show ?thesis using False
      by (simp add: q c(3) decoded_as_def reg as noted_def f rex_zero ix)
  qed
qed

lemma decode_assembled_law:
  assumes "stream m p (assemble op16 w reg rm op)" "reg < 16" "rm < 16"
  shows "(\<exists>ctx. decode_x86_64_instruction m p = Inr ctx \<and> decoded_as op16 w reg rm op ctx) \<longleftrightarrow> decodable op16 w reg rm op"
proof (cases op)
  case (Store_imm8 i)
  with assms decode_by_c6 [of m p op16 w reg rm i] show ?thesis by fastforce
next
  case (Store_imm i)
  with assms decode_by_c7 [of m p op16 w reg rm i] show ?thesis by fastforce
qed (use assms decode_by_8a [OF assms] decode_by_8b [OF assms] decode_by_movzx [OF assms] in \<open>fastforce+\<close>)

text \<open>
  C27 (instruction decoding). For the moves between a register or an immediate and the memory a register
  points to, encoded as the processor reads them, the decoder recovers the encoded length, direction,
  register numbers, access size and immediate exactly for these forms: the base register is none of rsp, rbp,
  r12 and r13, whose SIB or displacement byte it does not read; a 64-bit operand has no operand-size
  prefix and no negative immediate; a zero-extending load needs no REX prefix.  Every other
  form is decoded wrongly or stops the monitor.
\<close>

theorem decode_assembled:
  assumes "stream m p (assemble op16 w reg rm op)" "reg < 16" "rm < 16"
  shows "(\<exists>ctx. decode_x86_64_instruction m p = Inr ctx \<and> decoded_as op16 w reg rm op ctx) \<longleftrightarrow>
    decodable op16 w reg rm op"
  using assms by (rule decode_assembled_law)

section \<open>Witnesses\<close>

definition sample_code :: mem where
  "sample_code = store_bytes (store_bytes (\<lambda>_. 0) 0x1000 (assemble False True 9 3 Store)) 0x2000 (assemble False False 0 4 Store8)"

lemma sample_code_streams:
  "stream sample_code 0x1000 (assemble False True 9 3 Store)"
  "stream sample_code 0x2000 (assemble False False 0 4 Store8)"
  by (simp_all add: sample_code_def assemble_def modrm_byte_def rex_byte_def store_bytes_def reg_field_def needs_rex_def
      mem_operand_def)

theorem decode_assembled_witness:
  "(\<exists>ctx. decode_x86_64_instruction sample_code 0x1000 = Inr ctx \<and> instruction_length ctx = 3 \<and> operand_hint ctx = 2 \<and>
    reg_index ctx = 9 \<and> rm_index ctx = 3 \<and> access_size ctx = 8 \<and> immediate ctx = 0) \<and>
   (\<nexists>ctx. decode_x86_64_instruction sample_code 0x2000 = Inr ctx \<and> decoded_as False False 0 4 Store8 ctx)"
proof -
  have d: "decodable False True 9 3 Store" "\<not> decodable False False 0 4 Store8" by (simp_all add: decodable_def)
  obtain ctx where "decode_x86_64_instruction sample_code 0x1000 = Inr ctx" "decoded_as False True 9 3 Store ctx"
    using decode_assembled [OF sample_code_streams(1)] d(1) by auto
  moreover have "\<nexists>ctx. decode_x86_64_instruction sample_code 0x2000 = Inr ctx \<and> decoded_as False False 0 4 Store8 ctx"
    using decode_assembled [OF sample_code_streams(2)] d(2) by simp
  ultimately show ?thesis
    by (auto simp: decoded_as_def assemble_def op_hint_def op_size_def op_imm_def reg_field_def needs_rex_def mem_operand_def)
qed

end
