(* ===== verification/Vmx_Exit.thy ===== *)
theory Vmx_Exit
  imports Vmx_Event Insn_Decode
begin

text \<open>
  The exit handlers of the monitor: \<open>vm_monitor/vmx_exit.c\<close> with its dispatch table, the handler for
  port input and output of \<open>vmx_pio.c\<close>, the one for emulated memory of \<open>vmx_ept_misconfig.c\<close>, and the
  one for the time stamp counter of \<open>vmx_rdtsc.c\<close>.  A handler that dumps the machine and halts is the
  fault \<^const>\<open>Panic_exit\<close>.  Debug output is left out.
\<close>

section \<open>Exit information\<close>

record vmexit_info =
  basic_reason :: u64
  exit_qualification :: u64
  guest_linear_addr :: u64
  guest_physical_addr :: u64
  exit_instruction_length :: u64
  instruction_info :: u64

datatype vmexit_sub_handler =
    External_interrupt_exit
  | Io_instruction_exit
  | Control_register_access_exit
  | Halt_exit
  | Rdmsr_exit
  | Wrmsr_exit
  | Ept_misconfig_exit
  | Interrupt_window_exit
  | Rdtsc_exit

abbreviation MAX_NR_VMEXIT_REASONS :: nat where "MAX_NR_VMEXIT_REASONS \<equiv> 65"

definition install_handlers :: "(nat \<times> vmexit_sub_handler) list \<Rightarrow> vmexit_sub_handler option list \<Rightarrow>
    vmexit_sub_handler option list result" where
  "install_handlers entries table =
     fold (\<lambda>(reason, handler) r. bind_result r (\<lambda>t.
       if reason < MAX_NR_VMEXIT_REASONS then Inr (t[reason := Some handler]) else Inl Assertion_failed)) entries (Inr table)"

definition vm_exit_handler_init :: "vmexit_sub_handler option list result" where
  "vm_exit_handler_init =
     install_handlers
       [(1, External_interrupt_exit), (30, Io_instruction_exit), (28, Control_register_access_exit), (12, Halt_exit),
        (31, Rdmsr_exit), (32, Wrmsr_exit), (49, Ept_misconfig_exit), (7, Interrupt_window_exit), (16, Rdtsc_exit)]
       (replicate MAX_NR_VMEXIT_REASONS None)"

section \<open>Handlers\<close>

definition controll_register_access_exit_sub_handler :: "vmexit_info \<Rightarrow> monitor \<Rightarrow> monitor result" where
  "controll_register_access_exit_sub_handler e s =
     (let ctrl_reg_index = exit_qualification e AND 0xf;
          access_type = drop_bit 4 (exit_qualification e) AND 3;
          gp_reg = drop_bit 8 (exit_qualification e) AND 0xf
      in if ctrl_reg_index = 3 then
           if access_type = 0 then
             if gp_reg \<noteq> 0 then Inl Assertion_failed
             else Inr (GOTO_NEXT_INSTRUCTION (exit_instruction_length e) (vmwrite GUEST_CR3 (rax (vcpu (vm s))) s))
           else Inl Panic_exit
         else Inl Panic_exit)"

definition rdmsr_exit_sub_handler :: "vmexit_info \<Rightarrow> monitor \<Rightarrow> monitor result" where
  "rdmsr_exit_sub_handler e s =
     (if rcx (vcpu (vm s)) = 0xc0000080 then
        let guest_efer = vmx_read GUEST_IA32_EFER s;
            s = set_vcpu (rax_update (\<lambda>_. take_bit 32 guest_efer)) s;
            s = set_vcpu (rdx_update (\<lambda>_. take_bit 32 (drop_bit 32 guest_efer))) s
        in Inr (GOTO_NEXT_INSTRUCTION (exit_instruction_length e) s)
      else Inl Panic_exit)"

definition wrmsr_exit_sub_handler :: "vmexit_info \<Rightarrow> monitor \<Rightarrow> monitor result" where
  "wrmsr_exit_sub_handler e s =
     (if rcx (vcpu (vm s)) = 0xc0000080 then
        let guest_efer = rax (vcpu (vm s)) AND 0xffffffff;
            guest_efer = guest_efer OR (push_bit 32 (rdx (vcpu (vm s))) AND 0xffffffff)
        in Inr (GOTO_NEXT_INSTRUCTION (exit_instruction_length e) (vmwrite GUEST_IA32_EFER guest_efer s))
      else Inl Panic_exit)"

definition halt_exit_sub_handler :: "vmexit_info \<Rightarrow> monitor \<Rightarrow> monitor result" where
  "halt_exit_sub_handler e s = Inr (GOTO_NEXT_INSTRUCTION (exit_instruction_length e) s)"

definition rdtsc_exit_sub_handler :: "vmexit_info \<Rightarrow> host_input \<Rightarrow> monitor \<Rightarrow> monitor result" where
  "rdtsc_exit_sub_handler e i s =
     (let curr = tsc_now i;
          s = set_vcpu (rdx_update (\<lambda>_. drop_bit 32 curr AND 0xffffffff)) s;
          s = set_vcpu (rax_update (\<lambda>_. curr AND 0xffffffff)) s;
          s = set_vcpu (rcx_update (\<lambda>_. CPU_FREQUENCY)) s
      in Inr (GOTO_NEXT_INSTRUCTION (exit_instruction_length e) s))"

text \<open>The callbacks the registered devices installed.\<close>

fun run_inb :: "inb_callback \<Rightarrow> u32 \<Rightarrow> monitor \<Rightarrow> u8 result" where
  "run_inb Master_pic_inb port s = master_pic_inb port (pic (vm s))"
| "run_inb Slave_pic_inb port s = slave_pic_inb port (pic (vm s))"
| "run_inb Keyboard_data_inb port s = keyboard_data_inb port (kbd (vm s))"
| "run_inb Device_serial_inb port s = device_serial_inb port"

fun run_outb :: "outb_callback \<Rightarrow> u32 \<Rightarrow> u8 \<Rightarrow> monitor \<Rightarrow> monitor result" where
  "run_outb Master_pic_outb port byte s = bind_result (master_pic_outb port byte (pic (vm s))) (\<lambda>p. Inr (set_pic (\<lambda>_. p) s))"
| "run_outb Slave_pic_outb port byte s = bind_result (slave_pic_outb port byte (pic (vm s))) (\<lambda>p. Inr (set_pic (\<lambda>_. p) s))"
| "run_outb Pit_outb port byte s = bind_result (pit_outb port byte (pit (vm s))) (\<lambda>p. Inr (set_pit (\<lambda>_. p) s))"
| "run_outb Device_serial_outb port byte s = device_serial_outb port byte s"

definition io_access :: "portio_operation \<Rightarrow> u16 \<Rightarrow> u64 \<Rightarrow> monitor \<Rightarrow> monitor result" where
  "io_access ops port_id access_direc s =
     (if access_direc = 0 then
        case call_outb ops of
          None \<Rightarrow> Inl Assertion_failed
        | Some f \<Rightarrow> run_outb f (ucast port_id) (ucast (rax (vcpu (vm s)))) s
      else
        case call_inb ops of
          None \<Rightarrow> Inl Assertion_failed
        | Some f \<Rightarrow> bind_result (run_inb f (ucast port_id) s) (\<lambda>b. Inr (set_vcpu (rax_update (\<lambda>_. ucast b)) s)))"

definition io_instruction_exit_sub_handler :: "vmexit_info \<Rightarrow> monitor \<Rightarrow> monitor result" where
  "io_instruction_exit_sub_handler e s =
     (let size_code = exit_qualification e AND 7;
          access_direc = drop_bit 3 (exit_qualification e) AND 1;
          port_id = ucast (drop_bit 16 (exit_qualification e) AND 0xffff) :: u16
      in if drop_bit 4 (exit_qualification e) AND 1 \<noteq> 0 \<or> drop_bit 5 (exit_qualification e) AND 1 \<noteq> 0 \<or>
            drop_bit 6 (exit_qualification e) AND 1 \<noteq> 0 then Inl Assertion_failed
         else
           bind_result (search_portio_callback (ucast port_id) (portio_ops s)) (\<lambda>found.
           case found of
             None \<Rightarrow> Inl Assertion_failed
           | Some i \<Rightarrow>
               if size_code = 0 then
                 bind_result (io_access (portio_ops s ! i) port_id access_direc s) (\<lambda>s.
                 Inr (GOTO_NEXT_INSTRUCTION (exit_instruction_length e) s))
               else Inl Panic_exit))"

definition find_mmio :: "u64 \<Rightarrow> monitor \<Rightarrow> mmio_operation result" where
  "find_mmio guest_addr s =
     bind_result (search_mmio_callback guest_addr (mmio_ops s)) (\<lambda>found.
     case found of None \<Rightarrow> Inl Assertion_failed | Some i \<Rightarrow> Inr (mmio_ops s ! i))"

definition run_mmio_write :: "u64 \<Rightarrow> u8 \<Rightarrow> u64 \<Rightarrow> monitor \<Rightarrow> monitor result" where
  "run_mmio_write guest_addr bytes val s =
     bind_result (find_mmio guest_addr s) (\<lambda>mmio.
     case mmio_write mmio of
       None \<Rightarrow> Inl Assertion_failed
     | Some f \<Rightarrow> (case f of Video_buffer_mmio_write \<Rightarrow> video_buffer_mmio_write guest_addr bytes val s))"

definition run_mmio_read :: "u64 \<Rightarrow> u8 \<Rightarrow> monitor \<Rightarrow> u64 result" where
  "run_mmio_read guest_addr bytes s =
     bind_result (find_mmio guest_addr s) (\<lambda>mmio.
     case mmio_read mmio of
       None \<Rightarrow> Inl Assertion_failed
     | Some f \<Rightarrow> (case f of Video_buffer_mmio_read \<Rightarrow> video_buffer_mmio_read guest_addr bytes s))"

definition emulate_access :: "instruction_context \<Rightarrow> monitor \<Rightarrow> monitor result" where
  "emulate_access ctx s =
     (let guest_addr = vcpu_get_gp_regiter s (rm_index ctx) in
      if operand_hint ctx = OPERAND_HINT_MR then
        bind_result (run_mmio_read guest_addr (access_size ctx) s) (\<lambda>v. Inr (vcpu_set_gp_regiter (reg_index ctx) v s))
      else if operand_hint ctx = OPERAND_HINT_RM then
        run_mmio_write guest_addr (access_size ctx) (vcpu_get_gp_regiter s (reg_index ctx)) s
      else if operand_hint ctx = OPERAND_HINT_IM then
        run_mmio_write guest_addr (access_size ctx) (immediate ctx) s
      else Inl Panic_exit)"

definition ept_misconfig_exit_sub_handler :: "vmexit_info \<Rightarrow> monitor \<Rightarrow> monitor result" where
  "ept_misconfig_exit_sub_handler e s =
     (let guest_instruction_addr =
            guestpa_to_hostpa (kmem (host s)) (ept_pml4_base (regions (vm s))) (vmx_read GUEST_RIP s)
      in if pa (host s) guest_instruction_addr \<noteq> guest_instruction_addr then Inl Assertion_failed else
      bind_result (decode_x86_64_instruction (kmem (host s)) guest_instruction_addr) (\<lambda>ctx.
      let e = e\<lparr>exit_instruction_length := of_int (instruction_length ctx)\<rparr> in
      bind_result (emulate_access ctx s) (\<lambda>s.
      Inr (GOTO_NEXT_INSTRUCTION (exit_instruction_length e) s))))"

section \<open>Dispatch\<close>

fun run_sub_handler :: "vmexit_sub_handler \<Rightarrow> vmexit_info \<Rightarrow> host_input \<Rightarrow> monitor \<Rightarrow> monitor result" where
  "run_sub_handler External_interrupt_exit e i s = external_interrupt_exit_sub_handler i s"
| "run_sub_handler Io_instruction_exit e i s = io_instruction_exit_sub_handler e s"
| "run_sub_handler Control_register_access_exit e i s = controll_register_access_exit_sub_handler e s"
| "run_sub_handler Halt_exit e i s = halt_exit_sub_handler e s"
| "run_sub_handler Rdmsr_exit e i s = rdmsr_exit_sub_handler e s"
| "run_sub_handler Wrmsr_exit e i s = wrmsr_exit_sub_handler e s"
| "run_sub_handler Ept_misconfig_exit e i s = ept_misconfig_exit_sub_handler e s"
| "run_sub_handler Interrupt_window_exit e i s = interrupt_window_exit_sub_handler s"
| "run_sub_handler Rdtsc_exit e i s = rdtsc_exit_sub_handler e i s"

text \<open>
  The processor clears the long-mode-active bit of the saved register on an exit; it is put back from
  the entry control before anything else happens.
\<close>

definition adjust_guest_efer :: "monitor \<Rightarrow> monitor" where
  "adjust_guest_efer s =
     (let vm_entry_ctls = vmx_read CTLS_VM_ENTRY s; guest_efer = vmx_read GUEST_IA32_EFER s
      in if vm_entry_ctls AND 0x200 \<noteq> 0 then vmwrite GUEST_IA32_EFER (guest_efer OR 0x400) s
         else vmwrite GUEST_IA32_EFER (guest_efer AND NOT 0x400) s)"

definition gather_info :: "monitor \<Rightarrow> vmexit_info" where
  "gather_info s = \<lparr>basic_reason = vmx_read VMEXIT_REASON s, exit_qualification = vmx_read VMEXIT_QUALIFICATION s,
     guest_linear_addr = vmx_read VMEXIT_GUEST_LINEAR_ADDR s, guest_physical_addr = vmx_read VMEXIT_GUEST_PHYSICAL_ADDR s,
     exit_instruction_length = vmx_read VMEXIT_INSTRUCTION_LENGTH s, instruction_info = vmx_read VMEXIT_INSTRUCTION_INFO s\<rparr>"

definition vm_exit_handler_entry :: "vmexit_sub_handler option list \<Rightarrow> guest_cpu_state \<Rightarrow> host_input \<Rightarrow> monitor \<Rightarrow> monitor result" where
  "vm_exit_handler_entry sub_handlers vcpu_saved i s =
     (let s = adjust_guest_efer s in
      if \<not> current_vm s then Inl Assertion_failed else
      let s = set_vcpu (\<lambda>_. vcpu_saved) s;
          info = gather_info s
      in if basic_reason info AND 0xffffffff80000000 \<noteq> 0 then Inl Panic_exit else
      let reason_index = unat (basic_reason info AND 0xffff) in
      if \<not> reason_index < MAX_NR_VMEXIT_REASONS then Inl Assertion_failed else
      case sub_handlers ! reason_index of
        Some handler \<Rightarrow> run_sub_handler handler info i s
      | None \<Rightarrow> Inl Panic_exit)"

section \<open>Dispatch table\<close>

definition handler_of :: "nat \<Rightarrow> vmexit_sub_handler option" where
  "handler_of = Map.empty(1 \<mapsto> External_interrupt_exit, 7 \<mapsto> Interrupt_window_exit, 12 \<mapsto> Halt_exit, 16 \<mapsto> Rdtsc_exit,
     28 \<mapsto> Control_register_access_exit, 30 \<mapsto> Io_instruction_exit, 31 \<mapsto> Rdmsr_exit, 32 \<mapsto> Wrmsr_exit,
     49 \<mapsto> Ept_misconfig_exit)"

lemma vm_exit_handler_init_eq:
  "\<exists>t. vm_exit_handler_init = Inr t \<and> (\<forall>r < 65. t ! r = handler_of r)"
proof -
  let ?t = "(replicate 65 None)[1 := Some External_interrupt_exit, 30 := Some Io_instruction_exit,
    28 := Some Control_register_access_exit, 12 := Some Halt_exit, 31 := Some Rdmsr_exit, 32 := Some Wrmsr_exit,
    49 := Some Ept_misconfig_exit, 7 := Some Interrupt_window_exit, 16 := Some Rdtsc_exit]"
  have "vm_exit_handler_init = Inr ?t" by (simp add: vm_exit_handler_init_def install_handlers_def)
  moreover have "?t ! r = handler_of r" if "r < 65" for r
    using that by (simp add: nth_list_update handler_of_def)
  ultimately show ?thesis by blast
qed

lemma entry_handles:
  assumes "vm_exit_handler_init = Inr t" "vm_exit_handler_entry t v i s = Inr s'"
  obtains h where "run_sub_handler h (gather_info (set_vcpu (\<lambda>_. v) (adjust_guest_efer s))) i (set_vcpu (\<lambda>_. v) (adjust_guest_efer s)) = Inr s'"
  using assms(2) by (auto simp: vm_exit_handler_entry_def Let_def split: if_splits option.splits)

section \<open>Every exit keeps the invariant of delivery\<close>

lemma event_inv_vmcs:
  assumes "event_inv s" "event_fields s" "e \<noteq> CTLS_PRI_PROC_BASED_VM_EXECUTION" "\<not> bit e 0"
  shows "event_inv (vmwrite e v s)" "event_fields (vmwrite e v s)"
proof -
  have "window_open (vmwrite e v s) = window_open s"
    using assms(3,4) by (simp add: window_open_def vmx_read_vmwrite_other)
  then show "event_inv (vmwrite e v s)"
    by (intro event_inv_cong [OF assms(1)]) (use assms(1) in \<open>simp_all add: event_inv_def\<close>)
  show "event_fields (vmwrite e v s)" using assms(2) by (simp add: event_fields_def)
qed

definition keeps :: "monitor \<Rightarrow> monitor \<Rightarrow> bool" where
  "keeps s s' \<longleftrightarrow> interrupt_request_bitmap s' = interrupt_request_bitmap s \<and> kbd (vm s') = kbd (vm s) \<and>
     pic (vm s') = pic (vm s) \<and> vmcs s' = vmcs s \<and> vmcs_supported s' = vmcs_supported s"

lemma keeps_inv: "keeps s s' \<Longrightarrow> event_inv s \<Longrightarrow> event_fields s \<Longrightarrow> event_inv s' \<and> event_fields s'"
  using window_cong [of s' s] by (simp add: keeps_def event_inv_def event_fields_def requested_def)

lemma set_vcpu_inv [simp]: "event_inv (set_vcpu f s) = event_inv s" "event_fields (set_vcpu f s) = event_fields s"
  by (simp_all add: event_inv_def event_fields_def requested_def set_vcpu_def)

lemma callback_unique [simp]: "(f :: mmio_write_callback) = Video_buffer_mmio_write" "(g :: mmio_read_callback) = Video_buffer_mmio_read"
  by (cases f, simp) (cases g, simp)

lemma keeps_serial: "device_serial_outb port byte s = Inr s' \<Longrightarrow> keeps s s'"
  by (auto simp: device_serial_outb_def keeps_def Let_def bind_result_eq_Inr split: if_splits)

lemma keeps_video: "video_buffer_mmio_write a n val s = Inr s' \<Longrightarrow> keeps s s'"
  by (auto simp: video_buffer_mmio_write_def incremental_refresh_video_def keeps_def Let_def split: if_splits)

lemma next_inv:
  "event_inv s \<Longrightarrow> event_fields s \<Longrightarrow>
   event_inv (GOTO_NEXT_INSTRUCTION n s) \<and> event_fields (GOTO_NEXT_INSTRUCTION n s)"
  by (simp add: GOTO_NEXT_INSTRUCTION_def event_inv_vmcs)

lemma io_access_inv:
  assumes inv: "event_inv s" "event_fields s" and h: "io_access ops port d s = Inr s'"
  shows "event_inv s' \<and> event_fields s'"
proof (cases "d = 0")
  case True
  with h obtain f where f: "run_outb f (ucast port) (ucast (rax (vcpu (vm s)))) s = Inr s'"
    by (auto simp: io_access_def split: option.splits)
  show ?thesis
  proof (cases f)
    case Device_serial_outb
    then show ?thesis using f keeps_inv [OF keeps_serial inv] by simp
  next
    case Master_pic_outb
    then show ?thesis using f pic_out_effect(1) set_pic_inv [OF inv(1)] inv(2) by (auto simp: bind_result_eq_Inr)
  next
    case Slave_pic_outb
    then show ?thesis using f pic_out_effect(2) set_pic_inv [OF inv(1)] inv(2) by (auto simp: bind_result_eq_Inr)
  next
    case Pit_outb
    then show ?thesis using f inv by (auto simp: bind_result_eq_Inr)
  qed
next
  case False
  with h obtain b :: u8 where "s' = set_vcpu (rax_update (\<lambda>_. ucast b)) s"
    by (auto simp: io_access_def bind_result_eq_Inr split: option.splits)
  then show ?thesis using inv by simp
qed

lemma set_register_inv:
  "event_inv s \<Longrightarrow> event_fields s \<Longrightarrow> event_inv (vcpu_set_gp_regiter r v s) \<and> event_fields (vcpu_set_gp_regiter r v s)"
  using event_inv_vmcs [of s GUEST_RSP v]
  by (simp add: vcpu_set_gp_regiter_def)

lemma emulate_access_inv:
  assumes inv: "event_inv s" "event_fields s" and h: "emulate_access ctx s = Inr s'"
  shows "event_inv s' \<and> event_fields s'"
proof -
  have w: "event_inv s1 \<and> event_fields s1" if "run_mmio_write a n val s = Inr s1" for a n val s1
    using that keeps_inv [OF keeps_video inv]
    by (auto simp: run_mmio_write_def bind_result_eq_Inr split: option.splits mmio_write_callback.splits)
  show ?thesis using h w set_register_inv [OF inv]
    by (auto simp: emulate_access_def Let_def bind_result_eq_Inr split: if_splits)
qed

text \<open>
  C10 (delivery survives every exit). Whatever the reason of an exit, if the monitor handles it at all
  the invariant of interrupt delivery holds afterwards: no handler loses a request, closes the window
  too early or damages the keyboard buffer.
\<close>

theorem exit_keeps_event_inv:
  assumes "vm_exit_handler_init = Inr t" "vm_exit_handler_entry t v i s = Inr s'" "event_inv s" "event_fields s"
  shows "event_inv s' \<and> event_fields s'"
proof -
  define s0 where "s0 = set_vcpu (\<lambda>_. v) (adjust_guest_efer s)"
  define e where "e = gather_info s0"
  obtain h where h: "run_sub_handler h e i s0 = Inr s'"
    using assms(1,2) unfolding e_def s0_def by (rule entry_handles)
  have "event_inv (adjust_guest_efer s)" "event_fields (adjust_guest_efer s)"
    using event_inv_vmcs [OF assms(3,4)] by (simp_all add: adjust_guest_efer_def Let_def)
  then have inv: "event_inv s0" "event_fields s0" by (simp_all add: s0_def)
  show ?thesis
  proof (cases h)
    case External_interrupt_exit
    with h obtain vec s1 where "external_interrupt_sub_handler vec i s0 = Inr s1" "s' = s1\<lparr>eoi_count := eoi_count s1 + 1\<rparr>"
      by (auto simp: external_interrupt_exit_sub_handler_def Let_def bind_result_eq_Inr split: if_splits)
    moreover from this have "event_inv s1 \<and> event_fields s1"
      using timer_step [OF inv] keyboard_step [OF inv] by (auto simp: external_interrupt_sub_handler_def split: if_splits)
    ultimately show ?thesis using keeps_inv [of s1 s'] by (simp add: keeps_def)
  next
    case Interrupt_window_exit
    then have "interrupt_window_exit_sub_handler s0 = Inr s'" using h by simp
    with inv show ?thesis using inv delivers_inv [OF inv] closes_inv [OF inv] by (cases rule: window_cases) auto
  next
    case Io_instruction_exit
    with h obtain ops port d s1 where "io_access ops port d s0 = Inr s1"
      "s' = GOTO_NEXT_INSTRUCTION (exit_instruction_length e) s1"
      by (auto simp: io_instruction_exit_sub_handler_def Let_def bind_result_eq_Inr split: if_splits option.splits)
    then show ?thesis using io_access_inv [OF inv] next_inv by auto
  next
    case Ept_misconfig_exit
    with h obtain ctx s1 n where "emulate_access ctx s0 = Inr s1" "s' = GOTO_NEXT_INSTRUCTION n s1"
      by (auto simp: ept_misconfig_exit_sub_handler_def Let_def bind_result_eq_Inr split: if_splits)
    then show ?thesis using emulate_access_inv [OF inv] next_inv by auto
  next
    case Control_register_access_exit
    then show ?thesis using h next_inv event_inv_vmcs [OF inv]
      by (auto simp: controll_register_access_exit_sub_handler_def Let_def split: if_splits)
  next
    case Wrmsr_exit
    then show ?thesis using h next_inv event_inv_vmcs [OF inv]
      by (auto simp: wrmsr_exit_sub_handler_def Let_def split: if_splits)
  next
    case Rdmsr_exit
    then show ?thesis using h next_inv inv
      by (auto simp: rdmsr_exit_sub_handler_def Let_def split: if_splits)
  next
    case Rdtsc_exit
    then show ?thesis using h next_inv inv by (auto simp: rdtsc_exit_sub_handler_def Let_def)
  next
    case Halt_exit
    then show ?thesis using h next_inv inv by (auto simp: halt_exit_sub_handler_def)
  qed
qed

section \<open>Handlers that finish an instruction\<close>

lemma next_rip:
  "vmcs_supported s GUEST_RIP \<Longrightarrow> vmx_read GUEST_RIP (GOTO_NEXT_INSTRUCTION n s) = vmx_read GUEST_RIP s + n"
  by (simp add: GOTO_NEXT_INSTRUCTION_def vmx_read_vmwrite_same bf_get_def field_width_def)

lemma next_frame [simp]:
  "host (GOTO_NEXT_INSTRUCTION n s) = host s" "vm (GOTO_NEXT_INSTRUCTION n s) = vm s"
  "vmcs_supported (GOTO_NEXT_INSTRUCTION n s) = vmcs_supported s"
  by (simp_all add: GOTO_NEXT_INSTRUCTION_def)

lemma next_video [simp]:
  "synced (GOTO_NEXT_INSTRUCTION n s) = synced s"
  "video_buffer_mmio_read a b (GOTO_NEXT_INSTRUCTION n s) = video_buffer_mmio_read a b s"
  by (simp_all add: synced_def video_buffer_mmio_read_def Let_def)

lemma next_other: "e \<noteq> GUEST_RIP \<Longrightarrow> \<not> bit e 0 \<Longrightarrow> vmx_read e (GOTO_NEXT_INSTRUCTION n s) = vmx_read e s"
  by (simp add: GOTO_NEXT_INSTRUCTION_def vmx_read_vmwrite_other)

lemma set_vcpu_read [simp]: "vmx_read e (set_vcpu f s) = vmx_read e s"
  by (simp add: set_vcpu_def)

lemma set_vcpu_supported [simp]: "vmcs_supported (set_vcpu f s) = vmcs_supported s"
  by (simp add: set_vcpu_def)

text \<open>
  A guest that writes its extended feature register and reads it
  again gets the lower half back, but the upper half always reads as zero: the handler shifts the
  upper half into place and then masks it away.
\<close>

lemma efer_upper_half_lost:
  assumes "vmcs_supported s GUEST_IA32_EFER" "vmcs_supported s GUEST_RIP" "rcx (vcpu (vm s)) = 0xc0000080"
  shows "\<exists>s1 s2. wrmsr_exit_sub_handler e s = Inr s1 \<and> rdmsr_exit_sub_handler e s1 = Inr s2 \<and>
    rax (vcpu (vm s2)) = take_bit 32 (rax (vcpu (vm s))) \<and> rdx (vcpu (vm s2)) = 0 \<and>
    vmx_read GUEST_RIP s2 = vmx_read GUEST_RIP s + 2 * exit_instruction_length e"
proof -
  let ?a = "rax (vcpu (vm s))"
  let ?s1 = "GOTO_NEXT_INSTRUCTION (exit_instruction_length e) (vmwrite GUEST_IA32_EFER (take_bit 32 ?a) s)"
  have m: "x AND 0xffffffff = take_bit 32 x" for x :: u64
    using take_bit_eq_mask [of 32 x] by (simp add: mask_eq_exp_minus_1)
  have "take_bit 32 (push_bit 32 x) = (0 :: u64)" for x :: u64 by (simp add: take_bit_push_bit)
  then have w: "wrmsr_exit_sub_handler e s = Inr ?s1"
    using assms(3) by (simp add: wrmsr_exit_sub_handler_def m)
  have efer: "vmx_read GUEST_IA32_EFER ?s1 = take_bit 32 ?a"
    using assms(1) by (simp add: next_other vmx_read_vmwrite_same bf_get_def field_width_def)
  have rip: "vmx_read GUEST_RIP (vmwrite GUEST_IA32_EFER (take_bit 32 ?a) s) = vmx_read GUEST_RIP s"
    by (rule vmx_read_vmwrite_other) simp_all
  have "drop_bit 32 (take_bit 32 ?a) = 0" by (simp add: drop_bit_take_bit)
  then show ?thesis
    using assms(2,3) efer by (simp add: w rdmsr_exit_sub_handler_def Let_def vcpu_set_vcpu next_rip rip)
qed

definition video_at :: "monitor \<Rightarrow> nat \<Rightarrow> bool" where
  "video_at s off \<longleftrightarrow> (\<exists>op. mmio_lookup (VIDEO_BUFFER_PAGE_FRAME + of_nat off) (mmio_ops s) = Inr (Some op) \<and>
     mmio_write op = Some Video_buffer_mmio_write)"

lemma run_mmio_write_video:
  "video_at s off \<Longrightarrow> run_mmio_write (VIDEO_BUFFER_PAGE_FRAME + of_nat off) n val s =
     video_buffer_mmio_write (VIDEO_BUFFER_PAGE_FRAME + of_nat off) n val s"
  by (auto simp: video_at_def mmio_lookup_def run_mmio_write_def find_mmio_def bind_result_eq_Inr split: option.splits)

abbreviation guest_instruction :: "monitor \<Rightarrow> u64" where
  "guest_instruction s \<equiv> guestpa_to_hostpa (kmem (host s)) (ept_pml4_base (regions (vm s))) (vmx_read GUEST_RIP s)"

text \<open>The store a decodable instruction makes: the operand, or the immediate, at the address in the base register.\<close>

definition store_value :: "bool \<Rightarrow> bool \<Rightarrow> mov_op \<Rightarrow> u64 \<Rightarrow> u64" where
  "store_value op16 w op x = (if op_hint op = OPERAND_HINT_IM then op_imm op16 w op else x)"

lemma store_emulated:
  assumes "pa (host s) (guest_instruction s) = guest_instruction s"
    "stream (kmem (host s)) (guest_instruction s) (assemble op16 w reg rm op)" "reg < 16" "rm < 16"
    "decodable op16 w reg rm op" "op_hint op \<noteq> OPERAND_HINT_MR"
  shows "ept_misconfig_exit_sub_handler e s =
    bind_result (run_mmio_write (vcpu_get_gp_regiter s rm) (op_size op16 w op)
      (store_value op16 w op (vcpu_get_gp_regiter s reg)) s)
    (\<lambda>s. Inr (GOTO_NEXT_INSTRUCTION (of_nat (length (assemble op16 w reg rm op))) s))"
proof -
  from decode_assembled_law [OF assms(2-4)] assms(5) obtain ctx where
    ctx: "decode_x86_64_instruction (kmem (host s)) (guest_instruction s) = Inr ctx" "decoded_as op16 w reg rm op ctx" by blast
  have "op_hint op = OPERAND_HINT_RM \<and> reg_field op reg = reg \<or> op_hint op = OPERAND_HINT_IM"
    using assms(6) by (cases op) (simp_all add: op_hint_def reg_field_def)
  then have "emulate_access ctx s = run_mmio_write (vcpu_get_gp_regiter s rm) (op_size op16 w op)
      (store_value op16 w op (vcpu_get_gp_regiter s reg)) s"
    using ctx(2) by (auto simp: emulate_access_def decoded_as_def store_value_def)
  then show ?thesis using assms(1) ctx by (simp add: ept_misconfig_exit_sub_handler_def Let_def decoded_as_def)
qed

text \<open>The state a handler starts in: the saved registers are those of the guest, the rest is as at the exit.\<close>

definition exit_state :: "guest_cpu_state \<Rightarrow> monitor \<Rightarrow> monitor" where
  "exit_state v s = set_vcpu (\<lambda>_. v) (adjust_guest_efer s)"

lemma exit_state_fields:
  "host (exit_state v s) = host s" "vm (exit_state v s) = (vm s)\<lparr>vcpu := v\<rparr>" "mmio_ops (exit_state v s) = mmio_ops s"
  "vmcs_supported (exit_state v s) = vmcs_supported s" "current_vm (exit_state v s) = current_vm s"
proof -
  obtain x where "adjust_guest_efer s = vmwrite GUEST_IA32_EFER x s"
    by (cases "vmx_read CTLS_VM_ENTRY s AND 0x200 = 0") (simp_all add: adjust_guest_efer_def Let_def)
  then obtain f where "adjust_guest_efer s = s\<lparr>vmcs := f\<rparr>" using vmwrite_frame [of GUEST_IA32_EFER x s] by auto
  then show "host (exit_state v s) = host s" "vm (exit_state v s) = (vm s)\<lparr>vcpu := v\<rparr>" "mmio_ops (exit_state v s) = mmio_ops s"
    "vmcs_supported (exit_state v s) = vmcs_supported s" "current_vm (exit_state v s) = current_vm s"
    by (simp_all add: exit_state_def set_vcpu_def)
qed

lemma exit_state_read:
  assumes "e \<noteq> GUEST_IA32_EFER" "\<not> bit e 0"
  shows "vmx_read e (exit_state v s) = vmx_read e s"
  using assms by (simp add: exit_state_def adjust_guest_efer_def Let_def vmx_read_vmwrite_other)

lemma exit_state_register: "vcpu_get_gp_regiter (exit_state v s) r = vcpu_get_gp_regiter (set_vcpu (\<lambda>_. v) s) r"
  unfolding vcpu_get_gp_regiter_def Let_def
  by (simp add: exit_state_read exit_state_fields vcpu_set_vcpu)

lemma misconfig_entry:
  assumes "vm_exit_handler_init = Inr t" "current_vm s" "vmx_read VMEXIT_REASON s = 49"
  shows "vm_exit_handler_entry t v i s = ept_misconfig_exit_sub_handler (gather_info (exit_state v s)) (exit_state v s)"
proof -
  have "\<forall>r < 65. t ! r = handler_of r" using vm_exit_handler_init_eq assms(1) by (metis sum.inject(2))
  then have "t ! 49 = Some Ept_misconfig_exit" by (simp add: handler_of_def)
  moreover have "current_vm (adjust_guest_efer s)"
    using exit_state_fields(5) [of v s] assms(2) by (simp add: exit_state_def set_vcpu_def)
  moreover have "basic_reason (gather_info (exit_state v s)) = 49"
    using assms(3) by (simp add: gather_info_def exit_state_read)
  ultimately show ?thesis by (simp add: vm_exit_handler_entry_def Let_def flip: exit_state_def)
qed

text \<open>
  C8 (a store to the screen). The path of a guest's store into its video page through the whole
  monitor: the misconfiguration exit is dispatched to its handler, the instruction is fetched through the
  extended page tables and decoded, the base register selects the video device, the operand goes
  into the guest's video page and from there to the host's screen, no other byte of the two pages or of
  the host changes, the registers are kept and the guest resumes behind the instruction.  It holds for the
  stores of one, two, four and eight bytes, from every register and from an immediate, in all the forms the
  decoder understands.
\<close>

theorem guest_store_reaches_screen:
  assumes "vm_exit_handler_init = Inr t" "current_vm s" "vmx_read VMEXIT_REASON s = 49" "vmcs_supported s GUEST_RIP"
    "video_ok s" "synced s" "pa (host s) (guest_instruction s) = guest_instruction s"
    "stream (kmem (host s)) (guest_instruction s) (assemble op16 w reg rm op)" "reg < 16" "rm < 16"
    "decodable op16 w reg rm op" "op_hint op \<noteq> OPERAND_HINT_MR"
    "vcpu_get_gp_regiter (set_vcpu (\<lambda>_. v) s) rm = VIDEO_BUFFER_PAGE_FRAME + of_nat off"
    "n = unat (op_size op16 w op)" "off + n \<le> 4096" "video_at s off"
    "x = store_value op16 w op (vcpu_get_gp_regiter (set_vcpu (\<lambda>_. v) s) reg)"
  shows "\<exists>s'. vm_exit_handler_entry t v i s = Inr s' \<and> synced s' \<and> vcpu (vm s') = v \<and>
    vmx_read GUEST_RIP s' = vmx_read GUEST_RIP s + of_nat (length (assemble op16 w reg rm op)) \<and>
    (\<forall>k < 4096. kmem (host s') (video_buffer (regions (vm s)) + of_nat k) =
       (if off \<le> k \<and> k < off + n then to_le n x ! (k - off) else kmem (host s) (video_buffer (regions (vm s)) + of_nat k))) \<and>
    (\<forall>a. pfn a \<noteq> pfn (video_buffer (regions (vm s))) \<longrightarrow> pfn a \<noteq> pfn VIDEO_BUFFER_BASE \<longrightarrow>
       kmem (host s') a = kmem (host s) a)"
proof -
  let ?s = "exit_state v s" and ?b = "video_buffer (regions (vm s))" and ?a = "VIDEO_BUFFER_PAGE_FRAME + of_nat off"
  let ?len = "of_nat (length (assemble op16 w reg rm op))"
  note f = exit_state_fields [of v s]
  have rip: "vmx_read GUEST_RIP ?s = vmx_read GUEST_RIP s" by (simp add: exit_state_read)
  have n: "n \<in> {1, 2, 4, 8}" "of_nat n = op_size op16 w op"
    using assms(14) by (cases op; simp add: op_size_def)+
  have ok: "video_ok ?s" "synced ?s" "video_at ?s off" using assms(5,6,16) by (simp_all add: video_ok_def synced_def video_at_def f)
  have b: "video_buffer (regions (vm ?s)) = ?b" by (simp add: f)
  from video_write_memory [OF ok(1) n(1) assms(15), where val = x, unfolded b f(1)] obtain m' where
    m': "video_buffer_mmio_write ?a (of_nat n) x ?s = Inr (?s\<lparr>host := (host s)\<lparr>kmem := m'\<rparr>\<rparr>)"
    "\<And>k. k < 4096 \<Longrightarrow> m' (?b + of_nat k) = (if off \<le> k \<and> k < off + n then to_le n x ! (k - off) else kmem (host s) (?b + of_nat k))"
    "\<And>k. k < 4096 \<Longrightarrow> m' (VIDEO_BUFFER_BASE + of_nat k) =
      (if off \<le> k \<and> k < off + n then to_le n x ! (k - off) else kmem (host s) (VIDEO_BUFFER_BASE + of_nat k))"
    "\<And>a. pfn a \<noteq> pfn ?b \<Longrightarrow> pfn a \<noteq> pfn VIDEO_BUFFER_BASE \<Longrightarrow> m' a = kmem (host s) a" by blast
  let ?s1 = "?s\<lparr>host := (host s)\<lparr>kmem := m'\<rparr>\<rparr>"
  have "ept_misconfig_exit_sub_handler (gather_info ?s) ?s = Inr (GOTO_NEXT_INSTRUCTION ?len ?s1)"
    using store_emulated [of ?s op16 w reg rm op "gather_info ?s"] assms(7-13,17) m'(1) run_mmio_write_video [OF ok(3)]
    by (simp add: f rip exit_state_register flip: n(2))
  then have h: "vm_exit_handler_entry t v i s = Inr (GOTO_NEXT_INSTRUCTION ?len ?s1)"
    by (simp add: misconfig_entry [OF assms(1-3)])
  have "vmx_read GUEST_RIP ?s1 = vmx_read GUEST_RIP ?s" by (simp add: vmx_read_def)
  with rip have "vmx_read GUEST_RIP (GOTO_NEXT_INSTRUCTION ?len ?s1) = vmx_read GUEST_RIP s + ?len"
    using assms(4) by (simp add: next_rip f)
  moreover have "synced ?s1" using assms(6) by (auto simp: synced_def m'(2,3) f)
  ultimately show ?thesis using h m'(2,4) by (auto simp: f)
qed

section \<open>Witnesses\<close>

definition halted_monitor :: monitor where
  "halted_monitor = keyed_monitor\<lparr>vmcs := (vmcs keyed_monitor)(VMEXIT_REASON := 12, VMEXIT_INSTRUCTION_LENGTH := 1)\<rparr>"

theorem exit_keeps_event_inv_witness:
  "\<exists>t s'. vm_exit_handler_init = Inr t \<and>
     vm_exit_handler_entry t (vcpu (vm halted_monitor)) \<lparr>tsc_now = 0, kbd_port = 0, stack_junk = 0\<rparr> halted_monitor = Inr s' \<and>
     event_inv s'"
proof -
  let ?v = "vcpu (vm halted_monitor)" and ?i = "\<lparr>tsc_now = 0, kbd_port = 0, stack_junk = 0\<rparr> :: host_input"
  obtain t where t: "vm_exit_handler_init = Inr t" "\<forall>r < 65. t ! r = handler_of r" using vm_exit_handler_init_eq by blast
  have reason: "vmx_read VMEXIT_REASON (adjust_guest_efer halted_monitor) = 12"
    by (simp add: adjust_guest_efer_def Let_def halted_monitor_def keyed_monitor_def sample_monitor_def vmwrite_def vmx_write_def
        vmx_read_def bf_get_def)
  have cur: "current_vm (adjust_guest_efer halted_monitor)"
    by (simp add: adjust_guest_efer_def Let_def halted_monitor_def keyed_monitor_def sample_monitor_def)
  obtain s' where s': "vm_exit_handler_entry t ?v ?i halted_monitor = Inr s'"
    using t(2) reason cur
    by (auto simp: vm_exit_handler_entry_def Let_def gather_info_def handler_of_def halt_exit_sub_handler_def set_vcpu_def)
  have w: "window_open halted_monitor = window_open keyed_monitor"
    by (rule window_cong) (simp_all add: halted_monitor_def)
  then have "event_inv halted_monitor" "event_fields halted_monitor"
    using keyed_monitor_ok(1,2) by (simp_all add: event_inv_def event_fields_def halted_monitor_def requested_def)
  from exit_keeps_event_inv [OF t(1) s' this] t(1) s' show ?thesis by blast
qed

definition msr_monitor :: monitor where
  "msr_monitor = set_vcpu (\<lambda>v. v\<lparr>rcx := 0xc0000080, rax := 0x500, rdx := 0xffff\<rparr>) sample_monitor"

theorem efer_upper_half_lost_witness:
  "\<exists>e s1 s2. wrmsr_exit_sub_handler e msr_monitor = Inr s1 \<and> rdmsr_exit_sub_handler e s1 = Inr s2 \<and>
     rax (vcpu (vm s2)) = 0x500 \<and> rdx (vcpu (vm msr_monitor)) = 0xffff \<and> rdx (vcpu (vm s2)) = 0"
proof -
  have "vmcs_supported msr_monitor GUEST_IA32_EFER" "vmcs_supported msr_monitor GUEST_RIP"
    "rcx (vcpu (vm msr_monitor)) = 0xc0000080" "rax (vcpu (vm msr_monitor)) = 0x500" "rdx (vcpu (vm msr_monitor)) = 0xffff"
    by (simp_all add: msr_monitor_def sample_monitor_def vcpu_set_vcpu)
  with efer_upper_half_lost [OF this(1-3)] show ?thesis by simp blast
qed

text \<open>
  A machine whose page tables and extended page tables are one page that points to itself, with a
  byte store of an immediate through \<open>%rbx\<close> in it, at a misconfiguration exit.
\<close>

definition store_code :: "u8 list" where
  "store_code = assemble False False 0 3 (Store_imm8 0x41)"

definition store_monitor :: monitor where
  "store_monitor = sample_monitor\<lparr>vmcs := (vmcs sample_monitor)(GUEST_RIP := 0x100, VMEXIT_REASON := 49),
     host := sample_kstate\<lparr>kmem := store_bytes (store_bytes (\<lambda>_. 0) (0x1000 + of_nat 0) [0x83, 0x10]) (0x1000 + of_nat 0x100) store_code,
       pml4_base := 0x1000\<rparr>,
     mmio_ops := [\<lparr>addr_low = VIDEO_BUFFER_PAGE_FRAME, addr_high = VIDEO_BUFFER_PAGE_FRAME + PAGE_SIZE_4K,
        mmio_read = Some Video_buffer_mmio_read, mmio_write = Some Video_buffer_mmio_write\<rparr>],
     vm := (vm sample_monitor)\<lparr>regions := (regions (vm sample_monitor))\<lparr>ept_pml4_base := 0x1000\<rparr>,
        vcpu := (vcpu (vm sample_monitor))\<lparr>rax := 0x0741, rbx := VIDEO_BUFFER_PAGE_FRAME + of_nat 160\<rparr>\<rparr>\<rparr>"

lemma store_code_eq: "store_code = [0xc6, 0x03, 0x41]"
  by (simp add: store_code_def assemble_def modrm_byte_def reg_field_def needs_rex_def mem_operand_def)

lemma store_monitor_tables:
  "load64 (kmem (host store_monitor)) 0x1000 = 0x1083"
  "load_bytes (kmem (host store_monitor)) 0x1100 3 = store_code"
  by (simp_all add: store_monitor_def store_code_eq store_bytes_def load64_def load_bytes_def upt_rec)

lemma store_monitor_fetch:
  "vmx_read GUEST_RIP store_monitor = 0x100" "guest_instruction store_monitor = 0x1100" "pa (host store_monitor) 0x1100 = 0x1100"
proof -
  show rip: "vmx_read GUEST_RIP store_monitor = 0x100"
    by (simp add: store_monitor_def vmx_read_def sample_monitor_def)
  have b: "pml4_base (host store_monitor) = 0x1000" "ept_pml4_base (regions (vm store_monitor)) = 0x1000"
    by (simp_all add: store_monitor_def)
  show "guest_instruction store_monitor = 0x1100"
    by (simp add: rip b guestpa_to_hostpa_def Let_def store_monitor_tables LEVEL_4_INDEX_def LEVEL_3_INDEX_def LEVEL_2_INDEX_def
        LEVEL_1_INDEX_def ept_read_access_def ept_write_access_def ept_addr_def bf_get_def bf_shl_def)
  show "pa (host store_monitor) 0x1100 = 0x1100"
    by (simp add: b pa_def Let_def store_monitor_tables LEVEL_4_INDEX_def LEVEL_3_INDEX_def LEVEL_2_INDEX_def
        LEVEL_1_INDEX_def e_present_def e_page_size_def e_table_def bf_get_def bf_shl_def)
qed

lemma store_monitor_page: "k < 4096 \<Longrightarrow> aligned 12 b \<Longrightarrow> pfn b \<noteq> 1 \<Longrightarrow> kmem (host store_monitor) (b + of_nat k) = 0"
proof -
  assume k: "k < 4096" "aligned 12 b" "pfn b \<noteq> 1"
  have a: "aligned 12 (0x1000 :: u64)" "pfn 0x1000 \<noteq> pfn b" using k(3) by (simp_all add: aligned_iff_dvd pfn_def)
  show "kmem (host store_monitor) (b + of_nat k) = 0"
    using store_bytes_other_page [OF a(1) k(2) a(2) _ k(1), of 0 "[0x83, 0x10]"]
      store_bytes_other_page [OF a(1) k(2) a(2) _ k(1), of "0x100" store_code]
    by (simp add: store_monitor_def store_code_eq)
qed

theorem guest_store_reaches_screen_witness:
  "\<exists>t s'. vm_exit_handler_init = Inr t \<and>
     vm_exit_handler_entry t (vcpu (vm store_monitor)) \<lparr>tsc_now = 0, kbd_port = 0, stack_junk = 0\<rparr> store_monitor = Inr s' \<and>
     synced s' \<and> kmem (host s') (video_buffer (regions (vm store_monitor)) + 160) = 0x41 \<and> vmx_read GUEST_RIP s' = 0x103"
proof -
  let ?op = "Store_imm8 0x41" and ?v = "vcpu (vm store_monitor)"
  obtain t where t: "vm_exit_handler_init = Inr t" using vm_exit_handler_init_eq by blast
  have v: "video_buffer (regions (vm store_monitor)) = 0x2007000" by (simp add: store_monitor_def sample_monitor_def)
  have ok: "video_ok store_monitor" by (simp add: video_ok_def v aligned_iff_dvd pfn_def)
  have syn: "synced store_monitor"
    using store_monitor_page [of _ VIDEO_BUFFER_BASE] store_monitor_page [of _ "0x2007000"]
    by (simp add: synced_def v aligned_iff_dvd pfn_def)
  have code: "stream (kmem (host store_monitor)) (guest_instruction store_monitor) (assemble False False 0 3 ?op)"
    using store_monitor_tables(2) store_monitor_fetch(2) by (simp add: stream_def store_code_eq numeral_3_eq_3 flip: store_code_def)
  have regs: "vcpu_get_gp_regiter (set_vcpu (\<lambda>_. ?v) store_monitor) 3 = VIDEO_BUFFER_PAGE_FRAME + of_nat 160"
    "vmcs_supported store_monitor GUEST_RIP" "current_vm store_monitor" "vmx_read VMEXIT_REASON store_monitor = 49"
    by (simp_all add: vcpu_get_gp_regiter_def store_monitor_def sample_monitor_def set_vcpu_def vmx_read_def)
  have at: "video_at store_monitor 160"
    by (simp add: video_at_def mmio_lookup_def search_mmio_callback_def SEARCH_def search_loop.simps store_monitor_def
        mmio_operation_compare_def)
  have size: "unat (op_size False False ?op) = 1" "length (assemble False False 0 3 ?op) = 3" "decodable False False 0 3 ?op"
    "op_hint ?op \<noteq> OPERAND_HINT_MR" "store_value False False ?op z = 0x41" for z
    by (simp_all add: op_size_def store_code_eq decodable_def op_hint_def store_value_def op_imm_def flip: store_code_def)
  from guest_store_reaches_screen [OF t regs(3,4,2) ok syn _ code _ _ size(3,4) regs(1) refl _ at refl,
      where i = "\<lparr>tsc_now = 0, kbd_port = 0, stack_junk = 0\<rparr>"] obtain s' where
    s': "vm_exit_handler_entry t ?v \<lparr>tsc_now = 0, kbd_port = 0, stack_junk = 0\<rparr> store_monitor = Inr s'" "synced s'"
      "vmx_read GUEST_RIP s' = vmx_read GUEST_RIP store_monitor + of_nat 3"
      "\<forall>k < 4096. kmem (host s') (video_buffer (regions (vm store_monitor)) + of_nat k) =
        (if 160 \<le> k \<and> k < 161 then to_le 1 (0x41 :: u64) ! (k - 160)
         else kmem (host store_monitor) (video_buffer (regions (vm store_monitor)) + of_nat k))"
    using store_monitor_fetch(2,3) unfolding size by (auto simp: size)
  have "kmem (host s') (video_buffer (regions (vm store_monitor)) + of_nat 160) = 0x41"
    using s'(4) by (elim allE [of _ 160]) (simp add: to_le_def)
  then show ?thesis using t s'(1-3) store_monitor_fetch(1) by (intro exI [of _ t] exI [of _ s']) simp
qed

end
