(* ===== verification/Vmcs_Init.thy ===== *)
theory Vmcs_Init
  imports Vmx_Exit Descriptors
begin

text \<open>
  Setting up a virtual machine: \<open>vm_monitor/vmx_vmcs.c\<close>.  \<^verbatim>\<open>pre_initialize_vmcs\<close> allocates
  the pages of the machine, \<^verbatim>\<open>initialize_vmcs\<close> fills the control structure, builds the guest's
  memory and copies the guest's image into it.  Every write of the control structure is followed by a
  read that must give the value back, as the macro \<open>VMXWRITE\<close> does.  Debug output is left out.
\<close>

section \<open>Encodings\<close>

abbreviation HOST_ES_SELECTOR :: u64 where "HOST_ES_SELECTOR \<equiv> 0xC00"
abbreviation HOST_CS_SELECTOR :: u64 where "HOST_CS_SELECTOR \<equiv> 0xC02"
abbreviation HOST_SS_SELECTOR :: u64 where "HOST_SS_SELECTOR \<equiv> 0xC04"
abbreviation HOST_DS_SELECTOR :: u64 where "HOST_DS_SELECTOR \<equiv> 0xC06"
abbreviation HOST_FS_SELECTOR :: u64 where "HOST_FS_SELECTOR \<equiv> 0xC08"
abbreviation HOST_GS_SELECTOR :: u64 where "HOST_GS_SELECTOR \<equiv> 0xC0A"
abbreviation HOST_TR_SELECTOR :: u64 where "HOST_TR_SELECTOR \<equiv> 0xC0C"
abbreviation HOST_IA32_SYSENTER_CS :: u64 where "HOST_IA32_SYSENTER_CS \<equiv> 0x4C00"
abbreviation HOST_CR0 :: u64 where "HOST_CR0 \<equiv> 0x6C00"
abbreviation HOST_CR3 :: u64 where "HOST_CR3 \<equiv> 0x6C02"
abbreviation HOST_CR4 :: u64 where "HOST_CR4 \<equiv> 0x6C04"
abbreviation HOST_FS_BASE :: u64 where "HOST_FS_BASE \<equiv> 0x6C06"
abbreviation HOST_GS_BASE :: u64 where "HOST_GS_BASE \<equiv> 0x6C08"
abbreviation HOST_TR_BASE :: u64 where "HOST_TR_BASE \<equiv> 0x6C0A"
abbreviation HOST_GDTR_BASE :: u64 where "HOST_GDTR_BASE \<equiv> 0x6C0C"
abbreviation HOST_IDTR_BASE :: u64 where "HOST_IDTR_BASE \<equiv> 0x6C0E"
abbreviation HOST_IA32_SYSENTER_ESP :: u64 where "HOST_IA32_SYSENTER_ESP \<equiv> 0x6C10"
abbreviation HOST_IA32_SYSENTER_EIP :: u64 where "HOST_IA32_SYSENTER_EIP \<equiv> 0x6C12"
abbreviation HOST_RSP :: u64 where "HOST_RSP \<equiv> 0x6C14"
abbreviation HOST_RIP :: u64 where "HOST_RIP \<equiv> 0x6C16"
abbreviation HOST_IA32_EFER :: u64 where "HOST_IA32_EFER \<equiv> 0x2C02"
abbreviation GUEST_ES_SELECTOR :: u64 where "GUEST_ES_SELECTOR \<equiv> 0x800"
abbreviation GUEST_CS_SELECTOR :: u64 where "GUEST_CS_SELECTOR \<equiv> 0x802"
abbreviation GUEST_SS_SELECTOR :: u64 where "GUEST_SS_SELECTOR \<equiv> 0x804"
abbreviation GUEST_DS_SELECTOR :: u64 where "GUEST_DS_SELECTOR \<equiv> 0x806"
abbreviation GUEST_FS_SELECTOR :: u64 where "GUEST_FS_SELECTOR \<equiv> 0x808"
abbreviation GUEST_GS_SELECTOR :: u64 where "GUEST_GS_SELECTOR \<equiv> 0x80A"
abbreviation GUEST_LDTR_SELECTOR :: u64 where "GUEST_LDTR_SELECTOR \<equiv> 0x80C"
abbreviation GUEST_TR_SELECTOR :: u64 where "GUEST_TR_SELECTOR \<equiv> 0x80E"
abbreviation GUEST_CR0 :: u64 where "GUEST_CR0 \<equiv> 0x6800"
abbreviation GUEST_CR4 :: u64 where "GUEST_CR4 \<equiv> 0x6804"
abbreviation GUEST_ES_BASE :: u64 where "GUEST_ES_BASE \<equiv> 0x6806"
abbreviation GUEST_CS_BASE :: u64 where "GUEST_CS_BASE \<equiv> 0x6808"
abbreviation GUEST_SS_BASE :: u64 where "GUEST_SS_BASE \<equiv> 0x680A"
abbreviation GUEST_DS_BASE :: u64 where "GUEST_DS_BASE \<equiv> 0x680C"
abbreviation GUEST_FS_BASE :: u64 where "GUEST_FS_BASE \<equiv> 0x680E"
abbreviation GUEST_GS_BASE :: u64 where "GUEST_GS_BASE \<equiv> 0x6810"
abbreviation GUEST_LDTR_BASE :: u64 where "GUEST_LDTR_BASE \<equiv> 0x6812"
abbreviation GUEST_TR_BASE :: u64 where "GUEST_TR_BASE \<equiv> 0x6814"
abbreviation GUEST_GDTR_BASE :: u64 where "GUEST_GDTR_BASE \<equiv> 0x6816"
abbreviation GUEST_IDTR_BASE :: u64 where "GUEST_IDTR_BASE \<equiv> 0x6818"
abbreviation GUEST_DR7 :: u64 where "GUEST_DR7 \<equiv> 0x681A"
abbreviation GUEST_ES_LIMIT :: u64 where "GUEST_ES_LIMIT \<equiv> 0x4800"
abbreviation GUEST_CS_LIMIT :: u64 where "GUEST_CS_LIMIT \<equiv> 0x4802"
abbreviation GUEST_SS_LIMIT :: u64 where "GUEST_SS_LIMIT \<equiv> 0x4804"
abbreviation GUEST_DS_LIMIT :: u64 where "GUEST_DS_LIMIT \<equiv> 0x4806"
abbreviation GUEST_FS_LIMIT :: u64 where "GUEST_FS_LIMIT \<equiv> 0x4808"
abbreviation GUEST_GS_LIMIT :: u64 where "GUEST_GS_LIMIT \<equiv> 0x480A"
abbreviation GUEST_LDTR_LIMIT :: u64 where "GUEST_LDTR_LIMIT \<equiv> 0x480C"
abbreviation GUEST_TR_LIMIT :: u64 where "GUEST_TR_LIMIT \<equiv> 0x480E"
abbreviation GUEST_GDTR_LIMIT :: u64 where "GUEST_GDTR_LIMIT \<equiv> 0x4810"
abbreviation GUEST_IDTR_LIMIT :: u64 where "GUEST_IDTR_LIMIT \<equiv> 0x4812"
abbreviation GUEST_ES_ACCESS_RIGHT :: u64 where "GUEST_ES_ACCESS_RIGHT \<equiv> 0x4814"
abbreviation GUEST_CS_ACCESS_RIGHT :: u64 where "GUEST_CS_ACCESS_RIGHT \<equiv> 0x4816"
abbreviation GUEST_SS_ACCESS_RIGHT :: u64 where "GUEST_SS_ACCESS_RIGHT \<equiv> 0x4818"
abbreviation GUEST_DS_ACCESS_RIGHT :: u64 where "GUEST_DS_ACCESS_RIGHT \<equiv> 0x481A"
abbreviation GUEST_FS_ACCESS_RIGHT :: u64 where "GUEST_FS_ACCESS_RIGHT \<equiv> 0x481C"
abbreviation GUEST_GS_ACCESS_RIGHT :: u64 where "GUEST_GS_ACCESS_RIGHT \<equiv> 0x481E"
abbreviation GUEST_LDTR_ACCESS_RIGHT :: u64 where "GUEST_LDTR_ACCESS_RIGHT \<equiv> 0x4820"
abbreviation GUEST_TR_ACCESS_RIGHT :: u64 where "GUEST_TR_ACCESS_RIGHT \<equiv> 0x4822"
abbreviation GUEST_INTERRUPTIBILITY_STATE :: u64 where "GUEST_INTERRUPTIBILITY_STATE \<equiv> 0x4824"
abbreviation GUEST_ACTIVITY_STATE :: u64 where "GUEST_ACTIVITY_STATE \<equiv> 0x4826"
abbreviation GUEST_VMCS_LINK_POINTER_LOW :: u64 where "GUEST_VMCS_LINK_POINTER_LOW \<equiv> 0x2800"
abbreviation GUEST_VMCS_LINK_POINTER_HIGH :: u64 where "GUEST_VMCS_LINK_POINTER_HIGH \<equiv> 0x2801"
abbreviation CTLS_PIN_BASED_VM_EXECUTION :: u64 where "CTLS_PIN_BASED_VM_EXECUTION \<equiv> 0x4000"
abbreviation CTLS_SEC_PROC_BASED_VM_EXECUTION :: u64 where "CTLS_SEC_PROC_BASED_VM_EXECUTION \<equiv> 0x401E"
abbreviation CTLS_EXCEPTION_BITMAP :: u64 where "CTLS_EXCEPTION_BITMAP \<equiv> 0x4004"
abbreviation CTLS_IO_BITMAP_A :: u64 where "CTLS_IO_BITMAP_A \<equiv> 0x2000"
abbreviation CTLS_IO_BITMAP_B :: u64 where "CTLS_IO_BITMAP_B \<equiv> 0x2002"
abbreviation CTLS_VM_EXIT :: u64 where "CTLS_VM_EXIT \<equiv> 0x400C"
abbreviation CTLS_VM_EXIT_MSR_STORE :: u64 where "CTLS_VM_EXIT_MSR_STORE \<equiv> 0x2006"
abbreviation CTLS_VM_EXIT_MSR_STORE_COUNT :: u64 where "CTLS_VM_EXIT_MSR_STORE_COUNT \<equiv> 0x400E"
abbreviation CTLS_VM_EXIT_MSR_LOAD :: u64 where "CTLS_VM_EXIT_MSR_LOAD \<equiv> 0x2008"
abbreviation CTLS_VM_EXIT_MSR_LOAD_COUNT :: u64 where "CTLS_VM_EXIT_MSR_LOAD_COUNT \<equiv> 0x4010"
abbreviation CTLS_VM_ENTRY_MSR_LOAD :: u64 where "CTLS_VM_ENTRY_MSR_LOAD \<equiv> 0x200A"
abbreviation CTLS_VM_ENTRY_MSR_LOAD_COUNT :: u64 where "CTLS_VM_ENTRY_MSR_LOAD_COUNT \<equiv> 0x4014"
abbreviation CTLS_VM_ENTRY_INTERRUPT_INFORMATION_FIELD :: u64 where "CTLS_VM_ENTRY_INTERRUPT_INFORMATION_FIELD \<equiv> 0x4016"
abbreviation CTLS_EPTP :: u64 where "CTLS_EPTP \<equiv> 0x201A"
abbreviation CTLS_VPID :: u64 where "CTLS_VPID \<equiv> 0x0"
abbreviation CTLS_CR3_TARGET_COUNT :: u64 where "CTLS_CR3_TARGET_COUNT \<equiv> 0x400A"
abbreviation RDONLY_VM_INSTRUCTION_ERROR :: u64 where "RDONLY_VM_INSTRUCTION_ERROR \<equiv> 0x4400"

section \<open>The processor\<close>

text \<open>
  What the code reads from the processor it runs on, and the two linker symbols around the guest's
  image.  \<^verbatim>\<open>eax_junk\<close> and \<^verbatim>\<open>edx_junk\<close> are the values of two uninitialised
  64-bit variables of which \<open>RDMSR\<close> writes the lower halves.
\<close>

record cpu_env =
  msr :: "u32 \<Rightarrow> u32 \<times> u32"
  env_cr0 :: u64
  env_cr3 :: u64
  env_cr4 :: u64
  env_efer :: u64
  env_idtr_base :: u64
  env_gdtr_base :: u64
  env_fs_base :: u64
  env_gs_base :: u64
  env_tss_base :: u64
  env_vm_exit_handler :: u64
  guest64_start :: u64
  guest64_end :: u64
  vmptrld_succeeds :: bool
  eax_junk :: u64
  edx_junk :: u64

abbreviation IA32_VMX_BASIC_MSR :: u32 where "IA32_VMX_BASIC_MSR \<equiv> 0x480"
abbreviation IA32_VMX_PINBASED_CTLS_MSR :: u32 where "IA32_VMX_PINBASED_CTLS_MSR \<equiv> 0x481"
abbreviation IA32_VMX_PRI_PROCBASED_CTLS_MSR :: u32 where "IA32_VMX_PRI_PROCBASED_CTLS_MSR \<equiv> 0x482"
abbreviation IA32_VMX_VM_EXIT_CTLS_MSR :: u32 where "IA32_VMX_VM_EXIT_CTLS_MSR \<equiv> 0x483"
abbreviation IA32_VMX_VM_ENTRY_CTLS_MSR :: u32 where "IA32_VMX_VM_ENTRY_CTLS_MSR \<equiv> 0x484"
abbreviation IA32_VMX_CR0_FIXED0_MSR :: u32 where "IA32_VMX_CR0_FIXED0_MSR \<equiv> 0x486"
abbreviation IA32_VMX_CR4_FIXED0_MSR :: u32 where "IA32_VMX_CR4_FIXED0_MSR \<equiv> 0x488"
abbreviation IA32_VMX_SEC_PROCBASED_CTLS_MSR :: u32 where "IA32_VMX_SEC_PROCBASED_CTLS_MSR \<equiv> 0x48b"
abbreviation IA32_VMX_EPT_VPID_CAP_MSR :: u32 where "IA32_VMX_EPT_VPID_CAP_MSR \<equiv> 0x48c"

section \<open>Before the first launch\<close>

definition zeroed_blob :: vmcs_blob where
  "zeroed_blob = \<lparr>regions = \<lparr>guest_region = 0, io_bitmap_region0 = 0, io_bitmap_region1 = 0, virtual_apic_region = 0,
       vm_exit_store_msr_count = 0, vm_exit_load_msr_count = 0, vm_exit_store_msr_region = 0, vm_exit_load_msr_region = 0,
       ept_pml4_base = 0, video_buffer = 0\<rparr>,
     host_stack = 0, vpid = 0,
     vcpu = \<lparr>vcr2 = 0, r8 = 0, r9 = 0, r10 = 0, r11 = 0, r12 = 0, r13 = 0, r14 = 0, r15 = 0, rbp = 0, rdi = 0, rsi = 0,
        rdx = 0, rcx = 0, rbx = 0, rax = 0\<rparr>,
     serial_line_buffer = 0, serial_line_iptr = 0,
     pic = \<lparr>master_pic_command = 0, slave_pic_command = 0, master_pic_data = 0, slave_pic_data = 0,
        is_master_pic_initializing = 0, is_slave_pic_initializing = 0, master_pic_offset = 0, slave_pic_offset = 0,
        interrupt_delivery_pending = 0, interrupt_delivery_vector = 0\<rparr>,
     pit = \<lparr>initial_counter = 0, divisor = 0, threshold = 0, last_tsc = 0\<rparr>,
     kbd = \<lparr>ring_size = 0, front = 0, rear = 0, buffer = replicate SCANCODE_BUFFER_LENGTH 0\<rparr>\<rparr>"

definition clear_region :: "u64 \<Rightarrow> kstate \<Rightarrow> kstate result" where
  "clear_region va k =
     (if va = 0 then Inl Assertion_failed else
      let k = k\<lparr>kmem := memset (kmem k) va 0 PAGE_SIZE_4K\<rparr>
      in if va = pa k va then Inr k else Inl Assertion_failed)"

fun clear_regions :: "u64 list \<Rightarrow> kstate \<Rightarrow> kstate result" where
  "clear_regions [] k = Inr k"
| "clear_regions (va # vas) k = bind_result (clear_region va k) (clear_regions vas)"

definition pre_initialize_vmcs :: "monitor \<Rightarrow> monitor result" where
  "pre_initialize_vmcs s =
     bind_result (get_physical_page (host s)) (\<lambda>(guest_page, k).
     bind_result (get_physical_page k) (\<lambda>(io_page0, k).
     bind_result (get_physical_page k) (\<lambda>(io_page1, k).
     bind_result (get_physical_page k) (\<lambda>(store_page, k).
     bind_result (get_physical_page k) (\<lambda>(load_page, k).
     bind_result (get_physical_pages 8 k) (\<lambda>(stack_pages, k).
     bind_result (get_physical_page k) (\<lambda>(line_page, k).
     bind_result (get_physical_page k) (\<lambda>(video_page, k).
     bind_result (clear_regions [guest_page, io_page0, io_page1, store_page, load_page, stack_pages, line_page, video_page] k) (\<lambda>k.
     let v = zeroed_blob\<lparr>
           regions := (regions zeroed_blob)\<lparr>guest_region := guest_page, io_bitmap_region0 := io_page0,
             io_bitmap_region1 := io_page1, vm_exit_store_msr_region := store_page, vm_exit_load_msr_region := load_page,
             video_buffer := video_page\<rparr>,
           host_stack := stack_pages, serial_line_buffer := line_page, serial_line_iptr := 0,
           pic := (pic zeroed_blob)\<lparr>slave_pic_data := 0xff, master_pic_data := 0xff\<rparr>,
           kbd := (kbd zeroed_blob)\<lparr>ring_size := int SCANCODE_BUFFER_LENGTH\<rparr>\<rparr>
     in Inr (s\<lparr>host := k, vm := v\<rparr>))))))))))"

section \<open>Writing the control structure\<close>

definition VMXWRITE :: "u64 \<Rightarrow> u64 \<Rightarrow> monitor \<Rightarrow> monitor result" where
  "VMXWRITE encoding value s =
     (case vmx_write encoding value s of (rc, s') \<Rightarrow>
        if rc \<noteq> errno ERROR_OK then Inl Assertion_failed
        else if vmx_read encoding s' \<noteq> value then Inl Assertion_failed else Inr s')"

fun VMXWRITES :: "(u64 \<times> u64) list \<Rightarrow> monitor \<Rightarrow> monitor result" where
  "VMXWRITES [] s = Inr s"
| "VMXWRITES ((encoding, value) # ws) s = bind_result (VMXWRITE encoding value s) (VMXWRITES ws)"

definition initialize_vmcs_host_state :: "cpu_env \<Rightarrow> monitor \<Rightarrow> monitor result" where
  "initialize_vmcs_host_state c s =
     VMXWRITES
       [(HOST_CR0, ucast (fst (msr c IA32_VMX_CR0_FIXED0_MSR)) OR env_cr0 c),
        (HOST_CR3, env_cr3 c),
        (HOST_CR4, ucast (fst (msr c IA32_VMX_CR4_FIXED0_MSR)) OR env_cr4 c),
        (HOST_ES_SELECTOR, KERNEL_DATA_SELECTOR), (HOST_CS_SELECTOR, KERNEL_CODE_SELECTOR),
        (HOST_SS_SELECTOR, KERNEL_DATA_SELECTOR), (HOST_DS_SELECTOR, KERNEL_DATA_SELECTOR),
        (HOST_FS_SELECTOR, KERNEL_DATA_SELECTOR), (HOST_GS_SELECTOR, KERNEL_DATA_SELECTOR),
        (HOST_TR_SELECTOR, TSS0_SELECTOR),
        (HOST_IA32_SYSENTER_CS, 0), (HOST_IA32_SYSENTER_ESP, 0), (HOST_IA32_SYSENTER_EIP, 0),
        (HOST_IDTR_BASE, env_idtr_base c), (HOST_GDTR_BASE, env_gdtr_base c), (HOST_FS_BASE, env_fs_base c),
        (HOST_GS_BASE, env_gs_base c), (HOST_TR_BASE, env_tss_base c), (HOST_RSP, host_stack (vm s)),
        (HOST_RIP, env_vm_exit_handler c), (HOST_IA32_EFER, env_efer c)] s"

abbreviation DATA_ACCESS_RIGHT :: u64 where "DATA_ACCESS_RIGHT \<equiv> 0x93"
abbreviation CODE_ACCESS_RIGHT :: u64 where "CODE_ACCESS_RIGHT \<equiv> 0x2093"
abbreviation LDTR_ACCESS_RIGHT :: u64 where "LDTR_ACCESS_RIGHT \<equiv> 0x82"
abbreviation TR_ACCESS_RIGHT :: u64 where "TR_ACCESS_RIGHT \<equiv> 0x83"

text \<open>\<open>RDMSR\<close> into a 64-bit variable: the lower half is replaced, the upper half stays.\<close>

definition read_low :: "u32 \<Rightarrow> u64 \<Rightarrow> u64" where
  "read_low v old = bf_set 0 32 (ucast v) old"

definition guest_state_fields :: "u64 \<Rightarrow> u64 \<Rightarrow> (u64 \<times> u64) list" where
  "guest_state_fields guest_cr0 guest_cr4 =
       [(GUEST_ES_SELECTOR, 0), (GUEST_CS_SELECTOR, 0x100), (GUEST_DS_SELECTOR, 0), (GUEST_FS_SELECTOR, 0),
        (GUEST_GS_SELECTOR, 0), (GUEST_SS_SELECTOR, 0), (GUEST_TR_SELECTOR, 0), (GUEST_LDTR_SELECTOR, 0),
        (GUEST_CS_BASE, 0), (GUEST_DS_BASE, 0), (GUEST_ES_BASE, 0), (GUEST_FS_BASE, 0), (GUEST_GS_BASE, 0),
        (GUEST_SS_BASE, 0), (GUEST_LDTR_BASE, 0), (GUEST_IDTR_BASE, 0), (GUEST_GDTR_BASE, 0), (GUEST_TR_BASE, 0),
        (GUEST_CS_LIMIT, 0xffff), (GUEST_DS_LIMIT, 0xffff), (GUEST_ES_LIMIT, 0xffff), (GUEST_FS_LIMIT, 0xffff),
        (GUEST_GS_LIMIT, 0xffff), (GUEST_SS_LIMIT, 0xffff), (GUEST_LDTR_LIMIT, 0xffff), (GUEST_TR_LIMIT, 0xffff),
        (GUEST_GDTR_LIMIT, 0xffff), (GUEST_IDTR_LIMIT, 0xffff),
        (GUEST_CS_ACCESS_RIGHT, CODE_ACCESS_RIGHT), (GUEST_DS_ACCESS_RIGHT, DATA_ACCESS_RIGHT),
        (GUEST_ES_ACCESS_RIGHT, DATA_ACCESS_RIGHT), (GUEST_FS_ACCESS_RIGHT, DATA_ACCESS_RIGHT),
        (GUEST_GS_ACCESS_RIGHT, DATA_ACCESS_RIGHT), (GUEST_SS_ACCESS_RIGHT, DATA_ACCESS_RIGHT),
        (GUEST_LDTR_ACCESS_RIGHT, LDTR_ACCESS_RIGHT), (GUEST_TR_ACCESS_RIGHT, TR_ACCESS_RIGHT),
        (GUEST_INTERRUPTIBILITY_STATE, 0), (GUEST_ACTIVITY_STATE, 0),
        (GUEST_CR0, guest_cr0), (GUEST_CR3, 0), (GUEST_CR4, guest_cr4), (GUEST_DR7, 0), (GUEST_RSP, 0), (GUEST_RIP, 0),
        (GUEST_RFLAG, 2), (GUEST_VMCS_LINK_POINTER_LOW, 0xffffffff), (GUEST_VMCS_LINK_POINTER_HIGH, 0xffffffff),
        (GUEST_IA32_EFER, 0)]"

definition initialize_vmcs_guest_state :: "cpu_env \<Rightarrow> monitor \<Rightarrow> monitor result" where
  "initialize_vmcs_guest_state c s =
     (let eax = read_low (fst (msr c IA32_VMX_CR0_FIXED0_MSR)) (eax_junk c);
          edx = read_low (snd (msr c IA32_VMX_CR0_FIXED0_MSR)) (edx_junk c);
          eax = eax AND NOT 1;
          eax = eax AND 0x7fffffff;
          guest_cr0 = eax OR push_bit 32 edx;
          eax = read_low (fst (msr c IA32_VMX_CR4_FIXED0_MSR)) eax;
          edx = read_low (snd (msr c IA32_VMX_CR4_FIXED0_MSR)) edx;
          guest_cr4 = eax OR push_bit 32 edx
      in VMXWRITES (guest_state_fields guest_cr0 guest_cr4) s)"

section \<open>Capabilities\<close>

function validate_loop :: "nat \<Rightarrow> u64 \<Rightarrow> u32 \<Rightarrow> u32 \<Rightarrow> int" where
  "validate_loop idx target allowed0 allowed1 =
     (if idx < 32 then
        let mask = push_bit idx 1 :: u32;
            target_is_set = (target AND ucast mask \<noteq> 0);
            allowed0_is_set = (allowed0 AND mask \<noteq> 0);
            allowed1_is_set = (allowed1 AND mask \<noteq> 0)
        in if allowed0_is_set \<and> \<not> target_is_set \<or> \<not> allowed1_is_set \<and> target_is_set then - errno ERROR_INVALID
           else validate_loop (idx + 1) target allowed0 allowed1
      else errno ERROR_OK)"
  by pat_completeness auto
termination by (relation "measure (\<lambda>(idx, _). 32 - idx)") simp_all

definition validate_vmx_capability :: "u64 \<Rightarrow> u32 \<Rightarrow> u32 \<Rightarrow> int" where
  "validate_vmx_capability target allowed0 allowed1 = validate_loop 0 target allowed0 allowed1"

function fix_1_loop :: "nat \<Rightarrow> u32 \<Rightarrow> u32 \<Rightarrow> u32" where
  "fix_1_loop idx target allowed0 =
     (if idx < 32 then
        let mask = push_bit idx 1;
            target_is_set = (target AND mask \<noteq> 0);
            allowed0_is_set = (allowed0 AND mask \<noteq> 0);
            target = (if allowed0_is_set \<and> \<not> target_is_set then target OR mask else target)
        in fix_1_loop (idx + 1) target allowed0
      else target)"
  by pat_completeness auto
termination by (relation "measure (\<lambda>(idx, _). 32 - idx)") simp_all

definition fix_reserved_1_bits :: "u32 \<Rightarrow> u32 \<Rightarrow> u32" where
  "fix_reserved_1_bits target allowed0 = fix_1_loop 0 target allowed0"

function fix_0_loop :: "nat \<Rightarrow> u32 \<Rightarrow> u32 \<Rightarrow> u32" where
  "fix_0_loop idx target allowed1 =
     (if idx < 32 then
        let mask = push_bit idx 1;
            target_is_set = (target AND mask \<noteq> 0);
            allowed1_is_set = (allowed1 AND mask \<noteq> 0);
            target = (if \<not> allowed1_is_set \<and> target_is_set then target AND NOT mask else target)
        in fix_0_loop (idx + 1) target allowed1
      else target)"
  by pat_completeness auto
termination by (relation "measure (\<lambda>(idx, _). 32 - idx)") simp_all

definition fix_reserved_0_bits :: "u32 \<Rightarrow> u32 \<Rightarrow> u32" where
  "fix_reserved_0_bits target allowed1 = fix_0_loop 0 target allowed1"

declare validate_loop.simps [simp del] fix_1_loop.simps [simp del] fix_0_loop.simps [simp del]

text \<open>The sequence every control field goes through: set the reserved bits, then check them.\<close>

definition legal_control :: "u32 \<Rightarrow> u32 \<times> u32 \<Rightarrow> u32 result" where
  "legal_control wanted caps =
     (let ctls = fix_reserved_1_bits wanted (fst caps);
          ctls = fix_reserved_0_bits ctls (snd caps)
      in if validate_vmx_capability (ucast ctls) (fst caps) (snd caps) = errno ERROR_OK then Inr ctls
         else Inl Assertion_failed)"

section \<open>Execution controls\<close>

definition initialize_vmcs_pinbased_control :: "cpu_env \<Rightarrow> monitor \<Rightarrow> monitor result" where
  "initialize_vmcs_pinbased_control c s =
     bind_result (legal_control 1 (msr c IA32_VMX_PINBASED_CTLS_MSR)) (\<lambda>ctls.
     VMXWRITE CTLS_PIN_BASED_VM_EXECUTION (ucast ctls) s)"

definition pri_procbase_wanted :: u32 where
  "pri_procbase_wanted = push_bit 2 1 OR push_bit 7 1 OR push_bit 9 1 OR push_bit 12 1 OR push_bit 15 1 OR push_bit 16 1 OR
     push_bit 24 1 OR push_bit 30 1 OR push_bit 31 1"

definition sec_procbase_wanted :: u32 where
  "sec_procbase_wanted = push_bit 1 1 OR push_bit 5 1 OR push_bit 7 1"

definition initialize_vmcs_procbased_control :: "cpu_env \<Rightarrow> monitor \<Rightarrow> monitor result" where
  "initialize_vmcs_procbased_control c s =
     (if fst (msr c IA32_VMX_EPT_VPID_CAP_MSR) AND 1 = 0 then Inl Assertion_failed else
      bind_result (legal_control pri_procbase_wanted (msr c IA32_VMX_PRI_PROCBASED_CTLS_MSR)) (\<lambda>pri.
      bind_result (VMXWRITE CTLS_PRI_PROC_BASED_VM_EXECUTION (ucast pri) s) (\<lambda>s.
      bind_result (legal_control sec_procbase_wanted (msr c IA32_VMX_SEC_PROCBASED_CTLS_MSR)) (\<lambda>sec.
      bind_result (VMXWRITE CTLS_SEC_PROC_BASED_VM_EXECUTION (ucast sec) s) (\<lambda>s.
      VMXWRITES [(CTLS_EXCEPTION_BITMAP, 0), (CTLS_IO_BITMAP_A, io_bitmap_region0 (regions (vm s))),
        (CTLS_IO_BITMAP_B, io_bitmap_region1 (regions (vm s))), (CTLS_CR3_TARGET_COUNT, 0)] s)))))"

definition IOPORT_TO_REGION :: "vmcs_region \<Rightarrow> u16 \<Rightarrow> u64" where
  "IOPORT_TO_REGION r port = (if port \<le> 0x7fff then io_bitmap_region0 r else io_bitmap_region1 r)"

definition ioport_byte :: "vmcs_region \<Rightarrow> u16 \<Rightarrow> u64" where
  "ioport_byte r port =
     IOPORT_TO_REGION r port + ucast (drop_bit 3 (if 0x8000 \<le> port then port - 0x8000 else port))"

definition ioport_mask :: "u16 \<Rightarrow> u8" where
  "ioport_mask port = push_bit (unat ((if 0x8000 \<le> port then port - 0x8000 else port) AND 7)) 1"

definition IOPORT_IS_SET :: "vmcs_region \<Rightarrow> u16 \<Rightarrow> mem \<Rightarrow> bool" where
  "IOPORT_IS_SET r port m \<longleftrightarrow> m (ioport_byte r port) AND ioport_mask port \<noteq> 0"

definition SET_IOPORT :: "vmcs_region \<Rightarrow> u16 \<Rightarrow> mem \<Rightarrow> mem" where
  "SET_IOPORT r port m = m(ioport_byte r port := m (ioport_byte r port) OR ioport_mask port)"

fun enable_ports :: "vmcs_region \<Rightarrow> u16 list \<Rightarrow> mem \<Rightarrow> mem result" where
  "enable_ports r [] m = Inr m"
| "enable_ports r (port # ports) m =
     (let m = SET_IOPORT r port m in if IOPORT_IS_SET r port m then enable_ports r ports m else Inl Assertion_failed)"

definition initialize_vmcs_io_bitmap :: "monitor \<Rightarrow> monitor result" where
  "initialize_vmcs_io_bitmap s =
     bind_result (enable_ports (regions (vm s)) [0x3f8, 0x3f9, 0x3fa, 0x3fb, 0x3fc, 0x3fd, 0x60, 0x64] (kmem (host s))) (\<lambda>m.
     Inr (s\<lparr>host := (host s)\<lparr>kmem := m\<rparr>\<rparr>))"

definition initialize_vmcs_execution_control :: "cpu_env \<Rightarrow> monitor \<Rightarrow> monitor result" where
  "initialize_vmcs_execution_control c s =
     bind_result (initialize_vmcs_pinbased_control c s) (\<lambda>s.
     bind_result (initialize_vmcs_io_bitmap s) (initialize_vmcs_procbased_control c))"

section \<open>Exit and entry controls\<close>

definition store_vmcs_msr :: "cpu_env \<Rightarrow> u64 \<Rightarrow> u32 \<Rightarrow> mem \<Rightarrow> mem" where
  "store_vmcs_msr c a index m =
     store_bytes m a (to_le 4 index @ to_le 4 (0 :: u32) @ to_le 4 (fst (msr c index)) @ to_le 4 (snd (msr c index)))"

fun msr_loop :: "cpu_env \<Rightarrow> u64 \<Rightarrow> u64 \<Rightarrow> u32 list \<Rightarrow> mem \<Rightarrow> mem" where
  "msr_loop c store_slot load_slot [] m = m"
| "msr_loop c store_slot load_slot (index # ms) m =
     msr_loop c (store_slot + 16) (load_slot + 16) ms (store_vmcs_msr c load_slot index (store_vmcs_msr c store_slot index m))"

definition predefined_msrs :: "u32 list" where
  "predefined_msrs = []"

definition initialize_vmcs_vm_exit_msr :: "cpu_env \<Rightarrow> monitor \<Rightarrow> monitor result" where
  "initialize_vmcs_vm_exit_msr c s =
     (let r = regions (vm s);
          m = memset (kmem (host s)) (vm_exit_store_msr_region r) 0 PAGE_SIZE_4K;
          m = memset m (vm_exit_load_msr_region r) 0 PAGE_SIZE_4K;
          nr_msrs = of_nat (length predefined_msrs);
          r = r\<lparr>vm_exit_load_msr_count := nr_msrs, vm_exit_store_msr_count := nr_msrs\<rparr>;
          m = msr_loop c (vm_exit_store_msr_region r) (vm_exit_load_msr_region r) predefined_msrs m
      in VMXWRITES
           [(CTLS_VM_EXIT_MSR_STORE_COUNT, vm_exit_store_msr_count r), (CTLS_VM_EXIT_MSR_LOAD_COUNT, vm_exit_load_msr_count r),
            (CTLS_VM_EXIT_MSR_LOAD, vm_exit_load_msr_region r), (CTLS_VM_EXIT_MSR_STORE, vm_exit_store_msr_region r)]
           (s\<lparr>host := (host s)\<lparr>kmem := m\<rparr>, vm := (vm s)\<lparr>regions := r\<rparr>\<rparr>))"

definition initialize_vmcs_vm_exit_control :: "cpu_env \<Rightarrow> monitor \<Rightarrow> monitor result" where
  "initialize_vmcs_vm_exit_control c s =
     bind_result (legal_control (push_bit 9 1 OR push_bit 15 1 OR push_bit 21 1) (msr c IA32_VMX_VM_EXIT_CTLS_MSR)) (\<lambda>ctls.
     bind_result (VMXWRITE CTLS_VM_EXIT (ucast ctls) s) (initialize_vmcs_vm_exit_msr c))"

definition initialize_vmcs_vm_entry_msr :: "monitor \<Rightarrow> monitor result" where
  "initialize_vmcs_vm_entry_msr s =
     VMXWRITES [(CTLS_VM_ENTRY_MSR_LOAD_COUNT, vm_exit_store_msr_count (regions (vm s))),
       (CTLS_VM_ENTRY_MSR_LOAD, vm_exit_store_msr_region (regions (vm s)))] s"

definition initialize_vmcs_vm_entry_control :: "cpu_env \<Rightarrow> monitor \<Rightarrow> monitor result" where
  "initialize_vmcs_vm_entry_control c s =
     bind_result (legal_control (push_bit 15 1) (msr c IA32_VMX_VM_ENTRY_CTLS_MSR)) (\<lambda>ctls.
     bind_result (VMXWRITE CTLS_VM_ENTRY (ucast ctls) s) (\<lambda>s.
     bind_result (initialize_vmcs_vm_entry_msr s) (VMXWRITE CTLS_VM_ENTRY_INTERRUPT_INFORMATION_FIELD 0)))"

section \<open>Memory of the guest\<close>

definition initialize_vmcs_ept :: "monitor \<Rightarrow> monitor result" where
  "initialize_vmcs_ept s =
     bind_result (setup_basic_physical_memory 0 (16 * 1024 * 1024) (host s)) (\<lambda>(base, k).
     let s = s\<lparr>host := k, vm := (vm s)\<lparr>regions := (regions (vm s))\<lparr>ept_pml4_base := base\<rparr>\<rparr>\<rparr>;
         eptp = base OR 6;
         eptp = eptp OR push_bit 3 3;
         eptp = eptp OR push_bit 6 1
     in bind_result (VMXWRITE CTLS_EPTP eptp s) (\<lambda>s.
        if vpid (vm s) = 0 then Inl Assertion_failed else VMXWRITE CTLS_VPID (vpid (vm s)) s))"

definition get_vmx_revision_id :: "cpu_env \<Rightarrow> u32 result" where
  "get_vmx_revision_id c =
     (let eax = fst (msr c IA32_VMX_BASIC_MSR) in if eax AND 0x80000000 \<noteq> 0 then Inl Assertion_failed else Inr eax)"

definition initialize_vmcs_ealy_state :: "cpu_env \<Rightarrow> monitor \<Rightarrow> monitor result" where
  "initialize_vmcs_ealy_state c s =
     (if drop_bit 18 (snd (msr c IA32_VMX_BASIC_MSR)) AND 0xf \<noteq> 6 then Inl Assertion_failed else Inr s)"

partial_function (option) image_loop :: "u64 \<Rightarrow> u64 \<Rightarrow> u64 \<Rightarrow> u64 \<Rightarrow> kstate \<Rightarrow> kstate result option" where
  "image_loop ept_base image_end img_addr guest_addr k =
     (if img_addr < image_end then
        let host_pa = guestpa_to_hostpa (kmem k) ept_base guest_addr
        in if pa k host_pa \<noteq> host_pa then Some (Inl Assertion_failed)
           else image_loop ept_base image_end (img_addr + PAGE_SIZE_4K) (guest_addr + PAGE_SIZE_4K)
                  (k\<lparr>kmem := memcpy (kmem k) host_pa img_addr PAGE_SIZE_4K\<rparr>)
      else Some (Inr k))"

definition initialize_vmcs_guest_image :: "cpu_env \<Rightarrow> monitor \<Rightarrow> monitor result" where
  "initialize_vmcs_guest_image c s =
     (case image_loop (ept_pml4_base (regions (vm s))) (guest64_end c) (guest64_start c) PAGE_SIZE_4K (host s) of
        None \<Rightarrow> Inl Not_returned
      | Some r \<Rightarrow> bind_result r (\<lambda>k. Inr (s\<lparr>host := k\<rparr>)))"

definition initialize_vmcs_device :: "monitor \<Rightarrow> monitor result" where
  "initialize_vmcs_device s = device_video_init s"

text \<open>
  The whole initialisation, up to the instruction that launches the guest.  \<^verbatim>\<open>vmx_load\<close>
  succeeds or not as the processor decides.
\<close>

definition initialize_vmcs :: "cpu_env \<Rightarrow> monitor \<Rightarrow> monitor result" where
  "initialize_vmcs c s =
     bind_result (get_vmx_revision_id c) (\<lambda>revision.
     let s = s\<lparr>host := (host s)\<lparr>kmem := store_bytes (kmem (host s)) (guest_region (regions (vm s))) (to_le 4 revision)\<rparr>\<rparr> in
     if \<not> vmptrld_succeeds c then Inl Assertion_failed else
     bind_result (initialize_vmcs_ealy_state c s) (\<lambda>s.
     bind_result (initialize_vmcs_host_state c s) (\<lambda>s.
     bind_result (initialize_vmcs_guest_state c s) (\<lambda>s.
     bind_result (initialize_vmcs_execution_control c s) (\<lambda>s.
     bind_result (initialize_vmcs_vm_exit_control c s) (\<lambda>s.
     bind_result (initialize_vmcs_vm_entry_control c s) (\<lambda>s.
     bind_result (initialize_vmcs_ept s) (\<lambda>s.
     bind_result (initialize_vmcs_guest_image c s) (\<lambda>s.
     bind_result (initialize_vmcs_device s) (\<lambda>s.
     Inr (s\<lparr>current_vm := True\<rparr>)))))))))))"

section \<open>Capability loops\<close>

lemma mask_set: "(x AND push_bit idx 1 \<noteq> 0) = bit x idx" for x :: "'a::len word"
  by (simp add: push_bit_of_1 and_exp_eq_0_iff_not_bit)

lemma fix_1_loop_bit: "n < 32 \<Longrightarrow> bit (fix_1_loop idx t a) n \<longleftrightarrow> bit t n \<or> idx \<le> n \<and> bit a n"
proof (induction idx t a rule: fix_1_loop.induct)
  case (1 idx t a)
  show ?case
  proof (cases "idx < 32")
    case True
    let ?t = "if bit a idx \<and> \<not> bit t idx then t OR push_bit idx 1 else t"
    have "bit (fix_1_loop idx t a) n = bit (fix_1_loop (idx + 1) ?t a) n"
      using True by (subst fix_1_loop.simps) (simp only: mask_set Let_def if_True)
    also have "\<dots> \<longleftrightarrow> bit ?t n \<or> idx + 1 \<le> n \<and> bit a n"
      using 1(1) [OF True refl refl refl refl 1(2)] by (simp only: mask_set)
    also have "\<dots> \<longleftrightarrow> bit t n \<or> idx \<le> n \<and> bit a n"
      using 1(2) by (cases "n = idx") (auto simp: bit_or_iff bit_exp_iff)
    finally show ?thesis .
  next
    case False
    then show ?thesis using 1(2) by (subst fix_1_loop.simps) simp
  qed
qed

lemma fix_0_loop_bit: "n < 32 \<Longrightarrow> bit (fix_0_loop idx t a) n \<longleftrightarrow> bit t n \<and> (idx \<le> n \<longrightarrow> bit a n)"
proof (induction idx t a rule: fix_0_loop.induct)
  case (1 idx t a)
  show ?case
  proof (cases "idx < 32")
    case True
    let ?t = "if \<not> bit a idx \<and> bit t idx then t AND NOT (push_bit idx 1) else t"
    have "bit (fix_0_loop idx t a) n = bit (fix_0_loop (idx + 1) ?t a) n"
      using True by (subst fix_0_loop.simps) (simp only: mask_set Let_def if_True)
    also have "\<dots> \<longleftrightarrow> bit ?t n \<and> (idx + 1 \<le> n \<longrightarrow> bit a n)"
      using 1(1) [OF True refl refl refl refl 1(2)] by (simp only: mask_set)
    also have "\<dots> \<longleftrightarrow> bit t n \<and> (idx \<le> n \<longrightarrow> bit a n)"
      using 1(2) by (cases "n = idx") (auto simp: bit_and_iff bit_not_iff bit_exp_iff)
    finally show ?thesis .
  next
    case False
    then show ?thesis using 1(2) by (subst fix_0_loop.simps) simp
  qed
qed

lemma validate_loop_eq:
  "validate_loop idx t a0 a1 = (if \<forall>n < 32. idx \<le> n \<longrightarrow> (bit a0 n \<longrightarrow> bit t n) \<and> (bit t n \<longrightarrow> bit a1 n) then 0 else - errno ERROR_INVALID)"
proof (induction idx t a0 a1 rule: validate_loop.induct)
  case (1 idx t a0 a1)
  show ?case
  proof (cases "idx < 32")
    case True
    have m: "(t AND ucast (push_bit idx 1 :: u32) \<noteq> 0) = bit t idx"
    proof -
      have "ucast (push_bit idx 1 :: u32) = (push_bit idx 1 :: u64)"
        using True by (intro bit_word_eqI) (auto simp: bit_ucast_iff bit_exp_iff)
      then show ?thesis by (simp only: mask_set)
    qed
    let ?bad = "bit a0 idx \<and> \<not> bit t idx \<or> \<not> bit a1 idx \<and> bit t idx"
    have eq: "validate_loop idx t a0 a1 = (if ?bad then - errno ERROR_INVALID else validate_loop (idx + 1) t a0 a1)"
      using True by (subst validate_loop.simps) (simp only: mask_set m Let_def if_True)
    show ?thesis
    proof (cases ?bad)
      case bad: True
      then show ?thesis using True eq by auto
    next
      case False
      have "(\<forall>n < 32. idx \<le> n \<longrightarrow> P n) \<longleftrightarrow> P idx \<and> (\<forall>n < 32. idx + 1 \<le> n \<longrightarrow> P n)" for P :: "nat \<Rightarrow> bool"
        using True by (metis Suc_eq_plus1 Suc_leD le_neq_implies_less le_refl Suc_leI)
      moreover have "validate_loop (idx + 1) t a0 a1 =
          (if \<forall>n < 32. idx + 1 \<le> n \<longrightarrow> (bit a0 n \<longrightarrow> bit t n) \<and> (bit t n \<longrightarrow> bit a1 n) then 0 else - errno ERROR_INVALID)"
        using 1 [OF True refl refl refl refl] False by (simp only: mask_set m simp_thms)
      ultimately show ?thesis using False eq by auto
    qed
  next
    case False
    then show ?thesis by (subst validate_loop.simps) simp
  qed
qed

lemma fix_reserved_1_bits_eq: "fix_reserved_1_bits t a = t OR a"
  by (rule bit_word_eqI) (simp add: fix_reserved_1_bits_def fix_1_loop_bit bit_or_iff)

lemma fix_reserved_0_bits_eq: "fix_reserved_0_bits t a = t AND a"
  by (rule bit_word_eqI) (simp add: fix_reserved_0_bits_def fix_0_loop_bit bit_and_iff)

text \<open>
  C32 (control fields). What the monitor programs into each of the five control fields of the
  processor, for every capability register the processor can report: the wanted bits, with every bit
  that must be one set and every bit that may not be one cleared.  The check that follows passes
  exactly when the processor's two masks are consistent, so it never rejects a wanted feature that the
  processor lacks.
\<close>

theorem control_field_adjusted:
  "legal_control wanted (must, may) = (if must AND NOT may = 0 then Inr ((wanted OR must) AND may) else Inl Assertion_failed)"
proof -
  let ?c = "(wanted OR must) AND may"
  have "validate_vmx_capability (ucast ?c) must may = 0 \<longleftrightarrow> (\<forall>n < 32. bit must n \<longrightarrow> bit may n)"
    by (auto simp: validate_vmx_capability_def validate_loop_eq bit_ucast_iff bit_or_iff bit_and_iff errno_def)
  also have "\<dots> \<longleftrightarrow> must AND NOT may = 0"
    by (auto simp: bit_eq_iff [of "must AND NOT may"] bit_and_iff bit_not_iff dest: bit_imp_le_length)
  finally show ?thesis
    by (simp add: legal_control_def Let_def fix_reserved_1_bits_eq fix_reserved_0_bits_eq errno_def)
qed

section \<open>Sequences of writes\<close>

definition write_field :: "u64 \<Rightarrow> u64 \<Rightarrow> (u64 \<Rightarrow> u64) \<Rightarrow> u64 \<Rightarrow> u64" where
  "write_field e v f = (if bit e 0 then f(e - 1 := bf_set 32 32 v (f (e - 1))) else f(e := take_bit (field_width e) v))"

definition writable :: "monitor \<Rightarrow> u64 \<times> u64 \<Rightarrow> bool" where
  "writable s w \<longleftrightarrow> (case w of (e, v) \<Rightarrow> vmcs_supported s e \<and> bf_get 10 2 e \<noteq> 1 \<and>
     (if bit e 0 then take_bit 32 v = v else take_bit (field_width e) v = v))"

lemma high_half: "drop_bit 32 (bf_set 32 32 v w) = take_bit 32 v" for v w :: u64
  by (rule bit_word_eqI) (auto simp: bf_set_def bit_simps)

lemma VMXWRITE_ok: "writable s (e, v) \<Longrightarrow> VMXWRITE e v s = Inr (s\<lparr>vmcs := write_field e v (vmcs s)\<rparr>)"
  by (auto simp: writable_def VMXWRITE_def vmx_write_def vmx_read_def write_field_def errno_def high_half)


lemma writable_supported [simp]: "vmcs_supported s' = vmcs_supported s \<Longrightarrow> writable s' w = writable s w"
  by (simp add: writable_def)














text \<open>A concrete processor, on which the witnesses evaluate.\<close>

definition sample_env :: cpu_env where
  "sample_env = \<lparr>msr = (\<lambda>_. (0, 0))(IA32_VMX_CR0_FIXED0_MSR := (0x80000021, 0), IA32_VMX_CR4_FIXED0_MSR := (0x2000, 0)),
     env_cr0 = 0x80000021, env_cr3 = 0x1000000, env_cr4 = 0x2020, env_efer = 0x500, env_idtr_base = 0x100000, env_gdtr_base = 0x101000,
     env_fs_base = 0, env_gs_base = 0, env_tss_base = 0x102000, env_vm_exit_handler = 0x103000,
     guest64_start = 0, guest64_end = 0x10, vmptrld_succeeds = True, eax_junk = 0xdead, edx_junk = 0xbeef\<rparr>"



section \<open>Copying the guest's image\<close>

text \<open>
  Guest pages from \<open>a\<close> on are the host pages \<open>ps\<close>, which are no tables: what \<^const>\<open>backed\<close> says of
  the translation, without the content of the pages.
\<close>

definition frames :: "u64 set \<Rightarrow> u64 set \<Rightarrow> u64 \<Rightarrow> nat \<Rightarrow> u64 list \<Rightarrow> kstate \<Rightarrow> bool" where
  "frames S T base a ps k \<longleftrightarrow> ewf S T base k \<and> distinct ps \<and> set ps \<inter> (S \<union> T) = {} \<and>
     (\<forall>p \<in> set ps. aligned 12 p \<and> unat p < 2 ^ 31) \<and>
     (\<forall>g. ept_pte (kmem k) base g =
        (if a \<le> gfn g \<and> gfn g < a + length ps
         then Some (ept_page_entry (ps ! (gfn g - a)) PAGE_SYSTEM_MEMORY) else None))"

lemma backed_frames: "backed L m0 S T base a ps k \<Longrightarrow> frames S T base a ps k"
  unfolding backed_def frames_def by blast

lemma frames_translate:
  assumes "frames S T base a ps k" "a \<le> gfn g" "gfn g < a + length ps"
  shows "guestpa_to_hostpa (kmem k) base g = ps ! (gfn g - a) OR take_bit 12 g"
proof -
  let ?p = "ps ! (gfn g - a)"
  have "?p \<in> set ps" using assms(2,3) by simp
  then have p: "aligned 12 ?p" "unat ?p < 2 ^ 31" using assms(1) by (auto simp: frames_def)
  have "ept_pte (kmem k) base g = Some (ept_page_entry ?p PAGE_SYSTEM_MEMORY)"
    using assms by (simp add: frames_def)
  then show ?thesis
    using ept_pte_Some p by (simp add: guestpa_to_hostpa_eq ept_page_entry_props take_bit_40_small)
qed

lemma frames_write:
  assumes f: "frames S T base a ps k" and p: "p \<in> set ps"
    and same: "\<And>x. pfn x \<noteq> pfn p \<Longrightarrow> m x = kmem k x"
  shows "frames S T base a ps (k\<lparr>kmem := m\<rparr>)" "pa (k\<lparr>kmem := m\<rparr>) va = pa k va"
proof -
  let ?k = "k\<lparr>kmem := m\<rparr>"
  have wf: "ewf S T base k" using f by (simp add: frames_def)
  have ap: "aligned 12 p" "p \<notin> S \<union> T" using f p by (auto simp: frames_def)
  have T: "pfn p \<notin> pfn ` T" using wf ap page_eq_iff by (auto simp: ewf_def)
  have S: "pfn p \<notin> pfn ` S" using pfn_in_tables [OF ewf_kwf [OF wf] ap(1)] ap(2) by simp
  have sameS: "kmem ?k x = kmem k x" if "pfn x \<in> pfn ` S" for x
  proof -
    have "pfn x \<noteq> pfn p" using S that by metis
    then show ?thesis using same by simp
  qed
  have b: "pml4_base ?k = pml4_base k" "pm_ok ?k" "unat (current_avail_page k) \<le> unat (current_avail_page ?k)"
    using ewf_kwf [OF wf] by (simp_all add: kwf_def pm_ok_def)
  have h: "kwf S ?k" "pa ?k va = pa k va" for va
    by (rule kwf_frame [OF ewf_kwf [OF wf] sameS b], assumption)+
  show "pa ?k va = pa k va" by (rule h(2))
  have ld: "load64 (kmem ?k) (t + 8 * j) = load64 (kmem k) (t + 8 * j)" if "t \<in> T" "aligned 12 t" "j < 512" for t j
  proof (rule load64_cong)
    fix i :: nat assume i: "i < 8"
    have "pfn t \<noteq> pfn p" using that(1) T by (metis imageI)
    then have "pfn (t + 8 * j + of_nat i) \<noteq> pfn p" using that(2,3) i by (simp add: pfn_add_small pfn_entry_addr aligned_entry_addr)
    then show "kmem ?k (t + 8 * j + of_nat i) = kmem k (t + 8 * j + of_nat i)" using same by simp
  qed
  have "ewf S T base ?k"
    using wf h(1) ept.wf_frame [OF ewf_wf [OF wf] ld] by (simp add: ewf_def)
  moreover have "ept_pte (kmem ?k) base g = ept_pte (kmem k) base g" for g
    using ept.entry_frame [OF ewf_wf [OF wf] ld path_ok_idx(3) index_less(4)] by (simp add: ept_pte_def)
  ultimately show "frames S T base a ps ?k" using f by (simp add: frames_def)
qed

lemma memcpy_page:
  assumes p: "aligned 12 p" and src: "\<And>i. i < 4096 \<Longrightarrow> pfn (src + of_nat i) \<noteq> pfn p"
  shows "memcpy m p src PAGE_SIZE_4K x = (if pfn x = pfn p then m (src + (x - p)) else m x)"
proof -
  have dis: "p + of_int i \<noteq> src + of_int j" if i: "0 \<le> i" "i < 4096" and j: "0 \<le> j" "j < 4096" for i j :: int
  proof
    assume eq: "p + of_int i = src + of_int j"
    have "nat i < 4096" using i by linarith
    then have "pfn (p + of_nat (nat i)) = pfn p"
      using in_page_iff [OF p, of "p + of_nat (nat i)"] by (simp add: word_less_nat_alt unat_of_nat_u64 del: of_nat_nat)
    moreover have "pfn (src + of_nat (nat j)) \<noteq> pfn p" using src [of "nat j"] j by simp
    ultimately show False using eq i j by simp
  qed
  have "memcpy_loop 0 m p src 4096 x = (if 0 \<le> uint (x - p) \<and> uint (x - p) < 4096 then m (src + (x - p)) else m x)"
    by (rule memcpy_loop_disjoint) (simp_all add: dis)
  moreover have "uint (x - p) < 4096 \<longleftrightarrow> pfn x = pfn p" using in_page_iff [OF p, of x] by (simp add: word_less_def)
  ultimately show ?thesis by (simp add: memcpy_def)
qed

lemma image_loop_law:
  assumes "frames S T base a ps k" "id_ok k" "a \<le> j" "j + n \<le> a + length ps" "a + length ps < 2 ^ 36"
    "n = (unat image_end - unat img + 4095) div 4096" "unat img + 4096 * n < 2 ^ 64"
    "\<And>i. i < 4096 * n \<Longrightarrow> pfn (img + of_nat i) \<notin> pfn ` set ps"
  shows "\<exists>m. image_loop base image_end img (gpa_of j) k = Some (Inr (k\<lparr>kmem := m\<rparr>)) \<and> frames S T base a ps (k\<lparr>kmem := m\<rparr>) \<and>
    (\<forall>x. pfn x \<notin> pfn ` set (drop (j - a) ps) \<longrightarrow> m x = kmem k x) \<and>
    (\<forall>i < n. \<forall>x. pfn x = pfn (ps ! (j - a + i)) \<longrightarrow> m x = kmem k (img + of_nat (4096 * i) + (x - ps ! (j - a + i))))"
  using assms
proof (induction n arbitrary: img j k)
  case 0
  then have "\<not> img < image_end" by (simp add: word_less_nat_alt)
  then have "image_loop base image_end img (gpa_of j) k = Some (Inr (k\<lparr>kmem := kmem k\<rparr>))"
    by (subst image_loop.simps) simp
  then show ?case using 0 by (intro exI [of _ "kmem k"]) simp
next
  case (Suc n)
  let ?p = "ps ! (j - a)"
  have lt: "img < image_end"
  proof (rule ccontr)
    assume "\<not> img < image_end"
    then have "Suc n = 0" unfolding Suc.prems(6) by (simp add: word_less_nat_alt)
    then show False by simp
  qed
  have ji: "j - a < length ps" using Suc.prems(3,4) by simp
  then have pin: "?p \<in> set ps" by simp
  have ap: "aligned 12 ?p" "unat ?p < 2 ^ 31" using Suc.prems(1) pin by (auto simp: frames_def)
  have g: "gfn (gpa_of j) = j" using Suc.prems(3-5) by (simp add: gfn_gpa_of)
  have "take_bit 12 (4096 * j) = 0" by (simp add: take_bit_eq_mod)
  then have "take_bit 12 (gpa_of j) = 0" unfolding gpa_of_def take_bit_of_nat by simp
  then have host: "guestpa_to_hostpa (kmem k) base (gpa_of j) = ?p"
    using frames_translate [OF Suc.prems(1), of "gpa_of j"] g Suc.prems(3,4) by simp
  have id: "pa k ?p = ?p" using Suc.prems(2) ap(2) by (simp add: id_ok_def)
  let ?m = "memcpy (kmem k) ?p img PAGE_SIZE_4K"
  let ?k = "k\<lparr>kmem := ?m\<rparr>"
  have src: "pfn (img + of_nat i) \<noteq> pfn ?p" if "i < 4096" for i using Suc.prems(8) [of i] that pin by auto
  note cp = memcpy_page [OF ap(1) src]
  have fk: "frames S T base a ps ?k" "pa ?k va = pa k va" for va
    by (rule frames_write [OF Suc.prems(1) pin], simp add: cp)+
  have ik: "id_ok ?k" by (rule id_ok_kept [OF Suc.prems(2) fk(2)]) simp
  have step: "image_loop base image_end img (gpa_of j) k = image_loop base image_end (img + PAGE_SIZE_4K) (gpa_of (Suc j)) ?k"
  proof -
    have "gpa_of j + PAGE_SIZE_4K = gpa_of (Suc j)" by (simp add: gpa_of_def algebra_simps)
    then show ?thesis using lt by (subst image_loop.simps) (simp add: host id Let_def)
  qed
  have u: "unat (img + PAGE_SIZE_4K) = unat img + 4096" using Suc.prems(7) by (simp add: unat_word_ariths)
  have n: "n = (unat image_end - unat (img + PAGE_SIZE_4K) + 4095) div 4096" using Suc.prems(6) unfolding u by simp
  have dis: "pfn (img + PAGE_SIZE_4K + of_nat i) \<notin> pfn ` set ps" if "i < 4096 * n" for i
    using Suc.prems(8) [of "4096 + i"] that by (simp add: add.assoc)
  have j: "a \<le> Suc j" "Suc j + n \<le> a + length ps" "unat (img + PAGE_SIZE_4K) + 4096 * n < 2 ^ 64"
    using Suc.prems(3,4,7) u by simp_all
  from Suc.IH [OF fk(1) ik j(1,2) Suc.prems(5) n j(3) dis] obtain m where
    m: "image_loop base image_end (img + PAGE_SIZE_4K) (gpa_of (Suc j)) ?k = Some (Inr (?k\<lparr>kmem := m\<rparr>))"
    "frames S T base a ps (?k\<lparr>kmem := m\<rparr>)"
    "\<forall>x. pfn x \<notin> pfn ` set (drop (Suc j - a) ps) \<longrightarrow> m x = kmem ?k x"
    "\<forall>i < n. \<forall>x. pfn x = pfn (ps ! (Suc j - a + i)) \<longrightarrow>
       m x = kmem ?k (img + PAGE_SIZE_4K + of_nat (4096 * i) + (x - ps ! (Suc j - a + i)))"
    by blast
  have drop: "drop (j - a) ps = ?p # drop (Suc j - a) ps" using Cons_nth_drop_Suc [OF ji] Suc.prems(3) by (simp add: Suc_diff_le)
  have "m x = kmem k x" if "pfn x \<notin> pfn ` set (drop (j - a) ps)" for x
    using that m(3) cp [of "kmem k" x] by (simp add: drop)
  moreover have "m x = kmem k (img + of_nat (4096 * i) + (x - ps ! (j - a + i)))"
    if i: "i < Suc n" and x: "pfn x = pfn (ps ! (j - a + i))" for i x
  proof (cases i)
    case 0
    have "?p \<notin> set (drop (Suc j - a) ps)" using Suc.prems(1) distinct_drop [of ps "j - a"] by (simp add: frames_def drop)
    moreover have "aligned 12 q" if "q \<in> set (drop (Suc j - a) ps)" for q
      using Suc.prems(1) in_set_dropD [OF that] by (auto simp: frames_def)
    ultimately have "pfn x \<notin> pfn ` set (drop (Suc j - a) ps)" using x 0 page_eq_iff [OF ap(1)] by fastforce
    then show ?thesis using m(3) cp [of "kmem k" x] x 0 by simp
  next
    case (Suc i')
    let ?q = "ps ! (Suc j - a + i')"
    have ix: "j - a + i = Suc j - a + i'" "i' < n" using Suc i Suc.prems(3) by simp_all
    let ?y = "img + of_nat (4096 * i) + (x - ?q)"
    have "m x = ?m (img + PAGE_SIZE_4K + of_nat (4096 * i') + (x - ?q))" using m(4) ix x by simp
    also have "img + PAGE_SIZE_4K + of_nat (4096 * i') + (x - ?q) = ?y" by (simp add: Suc algebra_simps)
    finally have "m x = ?m ?y" .
    moreover have "pfn (img + of_nat (4096 * i) + (x - ?q)) \<noteq> pfn ?p"
    proof -
      have "?q \<in> set ps" using ix Suc.prems(3,4) i by (intro nth_mem) simp
      then have "aligned 12 ?q" using Suc.prems(1) by (auto simp: frames_def)
      then have o: "unat (x - ?q) < 4096" using in_page_iff [of ?q x] x ix(1) by (simp add: word_less_nat_alt)
      have "img + of_nat (4096 * i) + (x - ?q) = img + of_nat (4096 * i + unat (x - ?q))" by (simp add: add.assoc)
      moreover have "4096 * i + unat (x - ?q) < 4096 * Suc n" using o i by simp
      ultimately show ?thesis using Suc.prems(8) [of "4096 * i + unat (x - ?q)"] pin by (metis imageI)
    qed
    ultimately show ?thesis by (simp add: cp ix(1))
  qed
  ultimately show ?case using step m(1,2) by (intro exI [of _ m]) simp
qed

lemma guest_byte:
  assumes f: "frames S T base 0 ps k" "length ps \<le> 2 ^ 30" "1 + x div 4096 < length ps"
  shows "guestpa_to_hostpa (kmem k) base (PAGE_SIZE_4K + of_nat x) = ps ! (1 + x div 4096) + of_nat (x mod 4096)"
    "pfn (ps ! (1 + x div 4096) + of_nat (x mod 4096)) = pfn (ps ! (1 + x div 4096))"
proof -
  let ?i = "1 + x div 4096" and ?o = "x mod 4096" and ?g = "PAGE_SIZE_4K + of_nat x :: u64"
  let ?p = "ps ! ?i"
  have "?p \<in> set ps" using f(3) by simp
  then have p: "aligned 12 ?p" using f(1) by (simp add: frames_def)
  have x: "x < 2 ^ 43" using f(2,3) by (simp add: div_less_iff_less_mult)
  have u: "unat ?g = 4096 + x" using x by (simp add: unat_word_ariths unat_of_nat_u64)
  have "unat (drop_bit 12 ?g) = ?i" by (simp add: unat_drop_bit_div u)
  then have g: "gfn ?g = ?i" using f(2,3) by (simp add: gfn_def unsigned_take_bit_eq take_bit_nat_eq_self)
  have "unat (take_bit 12 ?g) = ?o" unfolding unsigned_take_bit_eq u by (simp add: take_bit_eq_mod)
  moreover have "unat (of_nat ?o :: u64) = ?o" by (simp add: unat_of_nat_u64)
  ultimately have o: "take_bit 12 ?g = of_nat ?o" by (simp only: u64_eq_iff)
  have "\<not> bit ?p n \<or> \<not> bit (take_bit 12 ?g) n" for n
    using p by (auto simp: aligned_def bit_take_bit_iff dest: arg_cong [where f = "\<lambda>w. bit w n"])
  then have op: "?p OR of_nat ?o = ?p + of_nat ?o" unfolding o [symmetric] by (rule disjunctive_add [symmetric])
  have "guestpa_to_hostpa (kmem k) base ?g = ?p OR of_nat ?o"
    using frames_translate [OF f(1), of ?g] f(3) by (simp add: g o)
  then show "guestpa_to_hostpa (kmem k) base ?g = ?p + of_nat ?o" using op by (rule trans)
  show "pfn (?p + of_nat ?o) = pfn ?p"
    using in_page_iff [OF p, of "?p + of_nat ?o"] by (simp add: word_less_nat_alt unat_of_nat_u64)
qed

text \<open>
  C9 (the guest's image). Building the guest's memory and copying the image succeed, and the guest
  finds the image at its address \<open>0x1000\<close>: reading any byte of it through the extended page tables gives
  the byte of the image in the monitor's own memory.  It holds for every image of up to 16 MiB that
  lies below the pages still free, at any alignment.
\<close>

theorem guest_image_loaded:
  assumes "kwf S (host s)" "id_ok (host s)" "avail (host s) (1 + 4 * 4097)"
    "vmcs_supported s CTLS_EPTP" "vmcs_supported s CTLS_VPID" "vpid (vm s) \<noteq> 0" "vpid (vm s) < 2 ^ 16"
    "n = (unat (guest64_end c) - unat (guest64_start c) + 4095) div 4096" "n \<le> 4096"
    "unat (guest64_start c) + 4096 * n \<le> unat (current_avail_page (host s))"
  shows "\<exists>s1 s2. initialize_vmcs_ept s = Inr s1 \<and> initialize_vmcs_guest_image c s1 = Inr s2 \<and>
    (\<forall>x < unat (guest64_end c) - unat (guest64_start c).
       kmem (host s2) (guestpa_to_hostpa (kmem (host s2)) (ept_pml4_base (regions (vm s2))) (PAGE_SIZE_4K + of_nat x)) =
       kmem (host s) (guest64_start c + of_nat x))"
proof -
  let ?L = "unat (current_avail_page (host s))"
  have "avail (host s) (1 + 4 * (4097 - 0) + 0)" using assms(3) by simp
  from setup_memory_backed [OF assms(1,2) _ _ _ this, of "16 * 1024 * 1024"] obtain base k T ps where
    k: "setup_basic_physical_memory (gpa_of 0) (16 * 1024 * 1024) (host s) = Inr (base, k)"
      "backed ?L (kmem (host s)) S T base 0 ps k" "length ps = 4097" "id_ok k" by auto
  have fr: "frames S T base 0 ps k" by (rule backed_frames [OF k(2)])
  have low: "kmem k x = kmem (host s) x" if "unat x < ?L" for x using k(2) that by (simp add: backed_def)
  have u: "unat (guest64_start c + of_nat i) = unat (guest64_start c) + i" if "i < 4096 * n" for i
    using that assms(10) unat_u64_less [of "current_avail_page (host s)"] by (simp add: unat_word_ariths unat_of_nat_u64)
  have dis: "pfn (guest64_start c + of_nat i) \<notin> pfn ` set ps" if i: "i < 4096 * n" for i
  proof
    assume "pfn (guest64_start c + of_nat i) \<in> pfn ` set ps"
    then obtain p where p: "p \<in> set ps" "pfn (guest64_start c + of_nat i) = pfn p" by blast
    then have "aligned 12 p" "?L \<le> unat p" using k(2) by (auto simp: backed_def)
    then show False using page_above p(2) u [OF i] i assms(10) by fastforce
  qed
  let ?v = "(vm s)\<lparr>regions := (regions (vm s))\<lparr>ept_pml4_base := base\<rparr>\<rparr>"
  obtain f where ept: "initialize_vmcs_ept s = Inr (s\<lparr>host := k, vm := ?v, vmcs := f\<rparr>)"
  proof -
    have "take_bit 16 (vpid (vm s)) = vpid (vm s)" using assms(7)
      by (simp add: u64_eq_iff unsigned_take_bit_eq take_bit_nat_eq_self word_less_nat_alt)
    then show thesis using that assms(4-6) k(1)
      by (simp add: initialize_vmcs_ept_def gpa_of_def Let_def VMXWRITE_ok writable_def field_width_def bf_get_def)
  qed
  have "unat (guest64_start c) + 4096 * n < 2 ^ 64"
    using assms(10) unat_u64_less [of "current_avail_page (host s)"] by simp
  from image_loop_law [OF fr k(4) _ _ _ assms(8) this dis, of 1] obtain m where
    m: "image_loop base (guest64_end c) (guest64_start c) (gpa_of 1) k = Some (Inr (k\<lparr>kmem := m\<rparr>))"
      "frames S T base 0 ps (k\<lparr>kmem := m\<rparr>)"
      "\<And>i x. i < n \<Longrightarrow> pfn x = pfn (ps ! (1 + i)) \<Longrightarrow> m x = kmem k (guest64_start c + of_nat (4096 * i) + (x - ps ! (1 + i)))"
    using assms(9) k(3) by auto
  let ?s2 = "s\<lparr>host := k\<lparr>kmem := m\<rparr>, vm := ?v, vmcs := f\<rparr>"
  have img: "initialize_vmcs_guest_image c (s\<lparr>host := k, vm := ?v, vmcs := f\<rparr>) = Inr ?s2"
    using m(1) by (simp add: initialize_vmcs_guest_image_def gpa_of_def)
  have "m (guestpa_to_hostpa m base (PAGE_SIZE_4K + of_nat x)) = kmem (host s) (guest64_start c + of_nat x)"
    if x: "x < unat (guest64_end c) - unat (guest64_start c)" for x
  proof -
    let ?i = "x div 4096" and ?o = "x mod 4096"
    have i: "?i < n" using x assms(8) by (simp add: div_less_iff_less_mult)
    have len: "length ps \<le> 2 ^ 30" "1 + ?i < length ps" using k(3) i assms(9) by simp_all
    note g = guest_byte [OF m(2) len, simplified]
    have "m (ps ! (1 + ?i) + of_nat ?o) = kmem k (guest64_start c + of_nat (4096 * ?i) + of_nat ?o)"
      using m(3) [OF i, of "ps ! (1 + ?i) + of_nat ?o"] g(2) by simp
    also have "guest64_start c + of_nat (4096 * ?i) + of_nat ?o = guest64_start c + of_nat x"
      by (simp only: add.assoc flip: of_nat_add) simp
    also have "kmem k (guest64_start c + of_nat x) = kmem (host s) (guest64_start c + of_nat x)"
    proof (rule low)
      have "x < 4096 * n" using i by (simp add: div_less_iff_less_mult mult.commute)
      then show "unat (guest64_start c + of_nat x) < ?L" using u [of x] assms(10) by simp
    qed
    finally show ?thesis using g(1) by simp
  qed
  then show ?thesis using ept img by simp
qed

lemma kwf_room: "kwf S s \<Longrightarrow> 4096 \<le> unat (current_avail_page s)"
  using host.wf_walkD(1) [OF kwf_wf path_ok_Nil] by (fastforce simp: kwf_def)

theorem guest_image_loaded_witness:
  "\<exists>s s1 s2. initialize_vmcs_ept s = Inr s1 \<and> initialize_vmcs_guest_image sample_env s1 = Inr s2 \<and>
     kmem (host s2) (guestpa_to_hostpa (kmem (host s2)) (ept_pml4_base (regions (vm s2))) 0x1003) = kmem (host s) 3"
proof -
  obtain S k where k: "kwf S k" "id_ok k" "avail k 100000" by (rule sample_machine)
  let ?s = "sample_monitor\<lparr>host := k\<rparr>"
  have "4096 \<le> unat (current_avail_page k)" using kwf_room [OF k(1)] .
  moreover have "avail k (1 + 4 * 4097)" using avail_mono [OF k(3)] by simp
  moreover have "host ?s = k" "vpid (vm ?s) = 1" "\<And>e. vmcs_supported ?s e" "guest64_start sample_env = 0" "guest64_end sample_env = 16"
    by (simp_all add: sample_monitor_def sample_env_def)
  moreover define s where "s = ?s"
  ultimately obtain s1 s2 where r: "initialize_vmcs_ept s = Inr s1" "initialize_vmcs_guest_image sample_env s1 = Inr s2"
    "\<forall>x < unat (16 :: u64) - unat (0 :: u64).
       kmem (host s2) (guestpa_to_hostpa (kmem (host s2)) (ept_pml4_base (regions (vm s2))) (PAGE_SIZE_4K + of_nat x)) =
       kmem (host s) (0 + of_nat x)"
    using guest_image_loaded [of S s 1 sample_env] k(1,2) by auto
  from r(3) [rule_format, of 3] have
    "kmem (host s2) (guestpa_to_hostpa (kmem (host s2)) (ept_pml4_base (regions (vm s2))) 0x1003) = kmem (host s) 3" by simp
  with r(1,2) show ?thesis by blast
qed

end
