(* ===== verification/Boot.thy ===== *)
theory Boot
  imports Identity_Map Interrupts Local_Storage Vmcs_Init
begin

text \<open>
  The boot sequence of \<open>init/kernel_main.c\<close>: the stages of the bootstrap processor and the entry of the
  others, composed of the operations of the components, with the feature checks of \<open>x86_64/cpuid.c\<close>
  and \<open>vm_monitor/vmx_misc.c\<close>.
\<close>

section \<open>State\<close>

text \<open>The addresses the linker chose.\<close>

record linkage =
  gdt_at :: u64
  tss_at :: u64
  image_end :: u64
  idt_at :: u64
  isr :: "nat \<Rightarrow> u64"
  constructor_start :: u64
  constructor_end :: u64

record kernel =
  mon :: monitor
  desc :: descriptor_state
  ints :: interrupt_state
  locals :: local_state
  hist :: history
  is_x2apic_supported :: bool
  cr0_reg :: u64
  cr4_reg :: u64

abbreviation set_host :: "kstate \<Rightarrow> kernel \<Rightarrow> kernel" where
  "set_host k s \<equiv> s\<lparr>mon := (mon s)\<lparr>host := k\<rparr>\<rparr>"

section \<open>Constructors\<close>

text \<open>The functions between two linker symbols are called in turn; what a call does is a parameter.\<close>

partial_function (option) pre_init_loop :: "(u64 \<Rightarrow> kernel \<Rightarrow> kernel) \<Rightarrow> u64 \<Rightarrow> u64 \<Rightarrow> kernel \<Rightarrow> kernel option" where
  "pre_init_loop call func_container end_addr s =
     (if func_container < end_addr
      then pre_init_loop call (func_container + 8) end_addr (call (load64 (kmem (host (mon s))) func_container) s)
      else Some s)"

definition pre_init :: "(u64 \<Rightarrow> kernel \<Rightarrow> kernel) \<Rightarrow> linkage \<Rightarrow> kernel \<Rightarrow> kernel result" where
  "pre_init call l s =
     (case pre_init_loop call (constructor_start l) (constructor_end l) s of None \<Rightarrow> Inl Not_returned | Some s \<Rightarrow> Inr s)"

section \<open>Checks of the processor\<close>

abbreviation CPUID_FEAT_ECX_VMX :: u32 where "CPUID_FEAT_ECX_VMX \<equiv> 0x20"
abbreviation CPUID_FEAT_ECX_x2APIC :: u32 where "CPUID_FEAT_ECX_x2APIC \<equiv> 0x200000"
abbreviation CPUID_FEAT_EDX_MSR :: u32 where "CPUID_FEAT_EDX_MSR \<equiv> 0x20"
abbreviation CPUID_FEAT_EDX_APIC :: u32 where "CPUID_FEAT_EDX_APIC \<equiv> 0x200"
abbreviation IA32_FEATURE_CONTROL_MSR :: u32 where "IA32_FEATURE_CONTROL_MSR \<equiv> 0x3a"
abbreviation VMXON_LOCK_FLAG :: u32 where "VMXON_LOCK_FLAG \<equiv> 0x1"
abbreviation VMXON_ENABLE_FLAG :: u32 where "VMXON_ENABLE_FLAG \<equiv> 0x4"
abbreviation VMX_ENABLE_FLAG :: u64 where "VMX_ENABLE_FLAG \<equiv> 0x2000"

definition check_basic_cpu_features :: "platform \<Rightarrow> unit result" where
  "check_basic_cpu_features p =
     (case cpuid_value p 1 of (eax, ebx, ecx, edx) \<Rightarrow>
      if edx AND CPUID_FEAT_EDX_MSR = 0 then Inl Assertion_failed
      else if edx AND CPUID_FEAT_EDX_APIC = 0 then Inl Assertion_failed else Inr ())"

definition check_x2apic_mode :: "platform \<Rightarrow> kernel \<Rightarrow> kernel" where
  "check_x2apic_mode p s =
     (case cpuid_value p 1 of (eax, ebx, ecx, edx) \<Rightarrow> s\<lparr>is_x2apic_supported := ecx AND CPUID_FEAT_ECX_x2APIC \<noteq> 0\<rparr>)"

definition is_vmx_support :: "platform \<Rightarrow> bool" where
  "is_vmx_support p = (case cpuid_value p 1 of (eax, ebx, ecx, edx) \<Rightarrow> ecx AND CPUID_FEAT_ECX_VMX \<noteq> 0)"

definition enable_vmxon :: "platform \<Rightarrow> history \<Rightarrow> history result" where
  "enable_vmxon p h =
     (case RDMSR p IA32_FEATURE_CONTROL_MSR h of ((eax, edx), h) \<Rightarrow>
      bind_result
        (if eax AND VMXON_LOCK_FLAG \<noteq> 0
         then if eax AND VMXON_ENABLE_FLAG = 0 then Inl Assertion_failed else Inr h
         else Inr (WRMSR IA32_FEATURE_CONTROL_MSR (eax OR VMXON_LOCK_FLAG OR VMXON_ENABLE_FLAG) edx h)) (\<lambda>h.
      case RDMSR p IA32_FEATURE_CONTROL_MSR h of ((eax, edx), h) \<Rightarrow>
      if eax AND VMXON_ENABLE_FLAG = 0 then Inl Assertion_failed else Inr h))"

definition read_fixed_bits :: "platform \<Rightarrow> history \<Rightarrow> history" where
  "read_fixed_bits p h = fold (\<lambda>m h. snd (RDMSR p m h)) [0x486, 0x487, 0x488, 0x489] h"

text \<open>The page for \<open>vmxon\<close>; whether the instruction succeeds is a parameter.\<close>

definition enter_vmx_root :: "cpu_env \<Rightarrow> bool \<Rightarrow> kstate \<Rightarrow> kstate result" where
  "enter_vmx_root c vmxon_succeeds k =
     bind_result (get_vmx_revision_id c) (\<lambda>revision_id.
     bind_result (get_physical_page k) (\<lambda>(vmxon_region, k).
     if vmxon_region = 0 then Inl Assertion_failed
     else let m = store_bytes (memset (kmem k) vmxon_region 0 PAGE_SIZE_4K) vmxon_region (to_le 4 revision_id)
          in if vmxon_succeeds then Inr (k\<lparr>kmem := m\<rparr>) else Inl Assertion_failed))"

definition vm_monitor_init :: "platform \<Rightarrow> cpu_env \<Rightarrow> bool \<Rightarrow> kernel \<Rightarrow> kernel result" where
  "vm_monitor_init p c vmxon_succeeds s =
     (if \<not> is_vmx_support p then Inr s else
      bind_result (enable_vmxon p (hist s)) (\<lambda>h.
      let s = s\<lparr>hist := read_fixed_bits p h, cr0_reg := cr0_reg s OR 0x20, cr4_reg := cr4_reg s OR VMX_ENABLE_FLAG\<rparr> in
      bind_result (enter_vmx_root c vmxon_succeeds (host (mon s))) (\<lambda>k.
      bind_result (device_preinit (portio_ops (mon s))) (\<lambda>ops.
      Inr (s\<lparr>mon := (mon s)\<lparr>host := k, portio_ops := ops\<rparr>\<rparr>)))))"

section \<open>The stages\<close>

definition init0 :: "platform \<Rightarrow> linkage \<Rightarrow> kernel \<Rightarrow> kernel result" where
  "init0 p l s =
     bind_result (task_register_init (cpu p) (gdt64_init (gdt_at l) (tss_at l) (desc s))) (\<lambda>d.
     bind_result (physical_memory_init (image_end l) (host (mon s))) (\<lambda>k.
     bind_result (paging_init k) (\<lambda>k.
     Inr (set_host k (s\<lparr>desc := d\<rparr>)))))"

definition init1 :: "platform \<Rightarrow> linkage \<Rightarrow> kernel \<Rightarrow> kernel result" where
  "init1 p l s =
     bind_result (check_basic_cpu_features p) (\<lambda>_.
     let s = check_x2apic_mode p s in
     bind_result (local_apic_init p (host (mon s)) (hist s)) (\<lambda>(k, h).
     bind_result (io_apic_init p k h) (\<lambda>(k, h).
     let i = interrupt_init (isr l) (idt_at l) (ints s) in
     case start_other_processors p h of
       None \<Rightarrow> Inl Not_returned
     | Some h \<Rightarrow>
         bind_result (processor_local_storage_init (cpu p) (locals s)) (\<lambda>ls.
         Inr (set_host k (s\<lparr>ints := i, locals := ls, hist := h\<rparr>))))))"

definition init2 :: "kernel \<Rightarrow> kernel result" where
  "init2 s =
     bind_result (lapic_timer_init (ints s)) (\<lambda>i.
     bind_result (keyboard_init i (hist s)) (\<lambda>(i, h). Inr (s\<lparr>ints := i, hist := h\<rparr>)))"

definition init3 :: "platform \<Rightarrow> cpu_env \<Rightarrow> bool \<Rightarrow> kernel \<Rightarrow> kernel result" where
  "init3 p c vmxon_succeeds s =
     bind_result (vm_monitor_init p c vmxon_succeeds s) (\<lambda>s.
     bind_result (pre_initialize_vmcs (mon s)) (\<lambda>m.
     bind_result (initialize_vmcs c (m\<lparr>vm := (vm m)\<lparr>vpid := 1\<rparr>\<rparr>)) (\<lambda>m.
     Inr (s\<lparr>mon := m\<rparr>))))"

text \<open>
  The stack for interrupts from ring 3 is set last; then the processor halts for good.
\<close>

definition kernel_main :: "(u64 \<Rightarrow> kernel \<Rightarrow> kernel) \<Rightarrow> platform \<Rightarrow> linkage \<Rightarrow> cpu_env \<Rightarrow> bool \<Rightarrow> kernel \<Rightarrow> kernel result" where
  "kernel_main call p l c vmxon_succeeds s =
     bind_result (pre_init call l s) (\<lambda>s.
     bind_result (init0 p l s) (\<lambda>s.
     bind_result (init1 p l s) (\<lambda>s.
     bind_result (init2 s) (\<lambda>s.
     bind_result (init3 p c vmxon_succeeds s) (\<lambda>s.
     bind_result (get_physical_pages 1024 (host (mon s))) (\<lambda>(stack, k).
     bind_result (set_pl0_rsp 0 stack (desc s)) (\<lambda>d.
     Inr (set_host k (s\<lparr>desc := d\<rparr>)))))))))"

definition kernel_ap_main :: "platform \<Rightarrow> linkage \<Rightarrow> kernel \<Rightarrow> kernel result" where
  "kernel_ap_main p l s =
     bind_result (local_apic_ap_init p (ap_paging_init (host (mon s))) (hist s)) (\<lambda>(k, h).
     bind_result (processor_local_storage_ap_init (cpu p) (locals s)) (\<lambda>ls.
     Inr (set_host k (s\<lparr>desc := gdt64_ap_init (gdt_at l) (desc s), ints := interrupt_ap_init (idt_at l) (ints s),
       locals := ls, hist := h\<rparr>))))"

section \<open>Lemmas on the stages\<close>

text \<open>The boot loader's memory list is terminated and leaves \<open>r\<close> pages below 4 GiB after the kernel's image and the bitmap.\<close>

definition boot_memory :: "u64 \<Rightarrow> nat \<Rightarrow> kstate \<Rightarrow> bool" where
  "boot_memory img r k \<longleftrightarrow> aligned 12 img \<and> unat img + 0x200000 \<le> 2 ^ 36 \<and>
     (\<exists>n. list_all (\<lambda>d. seg_length d \<noteq> 0) (segments (kmem k) MEMORY_LIST_LONG_MODE_BASE n) \<and>
        seg_length (load_segment (kmem k) (MEMORY_LIST_LONG_MODE_BASE + 24 * of_nat n)) = 0 \<and>
        (let t = (fold note_segment (segments (kmem k) MEMORY_LIST_LONG_MODE_BASE n) k)\<lparr>current_avail_page := img + 0x201000\<rparr>
         in pm_ok t \<and> avail t r))"

lemma boot_memory_init:
  assumes "boot_memory img r k"
  obtains k' where "physical_memory_init img k = Inr k'" "pm_ok k'" "avail k' r" "current_avail_page k' \<noteq> 0"
proof -
  from assms obtain n where n: "list_all (\<lambda>d. seg_length d \<noteq> 0) (segments (kmem k) MEMORY_LIST_LONG_MODE_BASE n)"
    "seg_length (load_segment (kmem k) (MEMORY_LIST_LONG_MODE_BASE + 24 * of_nat n)) = 0" "aligned 12 img" "unat img + 0x200000 \<le> 2 ^ 36"
    and t: "pm_ok ((fold note_segment (segments (kmem k) MEMORY_LIST_LONG_MODE_BASE n) k)\<lparr>current_avail_page := img + 0x201000\<rparr>)"
      "avail ((fold note_segment (segments (kmem k) MEMORY_LIST_LONG_MODE_BASE n) k)\<lparr>current_avail_page := img + 0x201000\<rparr>) r"
    by (auto simp: boot_memory_def Let_def)
  from physical_memory_init_ok_law [OF n] obtain k' m where k': "physical_memory_init img k = Inr k'"
    "k' = (fold note_segment (segments (kmem k) MEMORY_LIST_LONG_MODE_BASE n) k)\<lparr>kmem := m, current_avail_page := img + 0x201000\<rparr>"
    by blast
  have "pm_ok k'" "avail k' r" using t k'(2) by (simp_all add: pm_ok_def avail_def)
  moreover have "unat (img + 0x201000) = unat img + 0x201000" using n(4) by (simp add: unat_word_ariths)
  then have "current_avail_page k' \<noteq> 0" using k'(2) by (auto simp: unat_eq_0 [symmetric] simp del: unat_eq_0)
  ultimately show thesis using k'(1) that by blast
qed

lemma device_page:
  fixes a va :: u64
  assumes "aligned 12 a" "take_bit 48 a = a" "same_page 12 a va"
  shows "a OR take_bit 12 va = take_bit 48 va"
proof (rule bit_word_eqI)
  fix n assume "n < LENGTH(64)"
  have lo: "\<not> bit a n" if "n < 12" using aligned_bitD [OF assms(1), of n] that by auto
  have hi: "\<not> bit a n" if "48 \<le> n" using assms(2) that by (metis bit_take_bit_iff not_le)
  have mid: "bit a n = bit va n" if "12 \<le> n" "n < 48"
  proof -
    have "bit (take_bit 36 (drop_bit 12 va)) (n - 12) = bit (take_bit 36 (drop_bit 12 a)) (n - 12)" using assms(3) by (simp add: same_page_def)
    moreover have "n - 12 < 36" using that by linarith
    ultimately show ?thesis using that by (simp add: bit_simps)
  qed
  show "bit (a OR take_bit 12 va) n = bit (take_bit 48 va) n"
    using lo hi mid by (cases "n < 12"; cases "n < 48") (auto simp: bit_simps)
qed

text \<open>The translation after the first stages: the first 2 GiB and the pages of the two controllers, and nothing else.\<close>

definition boot_space :: "kstate \<Rightarrow> bool" where
  "boot_space k \<longleftrightarrow> (\<forall>va. pa k va =
     (if take_bit 48 va < 0x80000000 \<or> take_bit 36 (drop_bit 12 va) \<in> {0xfee00, 0xfec00} then take_bit 48 va else - 1))"

lemma boot_space_ok:
  assumes "\<forall>va. pa k va = (if take_bit 48 va < 0x80000000 then take_bit 48 va else - 1)"
    and "\<forall>va. pa k1 va = (if same_page 12 APIC_BASE va then APIC_BASE OR take_bit 12 va else pa k va)"
    and "\<forall>va. pa k2 va = (if same_page 12 IOAPIC_BASE va then IOAPIC_BASE OR take_bit 12 va else pa k1 va)"
  shows "boot_space k2"
proof -
  have m: "aligned 12 APIC_BASE" "take_bit 48 APIC_BASE = APIC_BASE" "aligned 12 (IOAPIC_BASE :: u64)"
    "take_bit 48 (IOAPIC_BASE :: u64) = IOAPIC_BASE" by (simp_all add: aligned_iff_dvd take_bit_eq_mask mask_numeral)
  have s: "same_page 12 APIC_BASE va \<longleftrightarrow> take_bit 36 (drop_bit 12 va) = 0xfee00"
    "same_page 12 IOAPIC_BASE va \<longleftrightarrow> take_bit 36 (drop_bit 12 va) = 0xfec00" for va
    by (simp_all add: same_page_def take_bit_eq_mask mask_numeral)
  show ?thesis using assms device_page [OF m(1,2)] device_page [OF m(3,4)] by (simp add: boot_space_def s)
qed

text \<open>One line of the redirection table is open, the keyboard's; it goes to vector 33 on processor 0.\<close>

definition keyboard_line_open :: "u32 \<Rightarrow> history \<Rightarrow> bool" where
  "keyboard_line_open n h \<longleftrightarrow>
     ioapic_reg h (IOAPIC_OFFSET_RED_TBL 1) = Some 33 \<and> ioapic_reg h (IOAPIC_OFFSET_RED_TBL 1 + 1) = Some 0 \<and>
     (\<forall>e \<le> n. e \<noteq> 1 \<longrightarrow> ioapic_reg h (IOAPIC_OFFSET_RED_TBL e) = Some (IOAPIC_REDIRECT_ENTRY_MASKED OR (0x20 + e)))"

lemma keyboard_line_ok:
  assumes "redirect_masked (drop_bit 16 v) h"
  shows "keyboard_line_open (drop_bit 16 v) (ioapic_redirect_entry 1 0 h)"
proof -
  have top: "e \<le> drop_bit 16 0xffff0000" if "e \<le> drop_bit 16 v" for e :: u32
  proof -
    have "drop_bit 16 v \<le> drop_bit 16 (0xffff0000 :: u32)" unfolding word_le_nat_alt using unat_last_entry [of v] by simp
    with that show ?thesis by (rule order_trans)
  qed
  have one: "(1 :: u32) \<le> drop_bit 16 0xffff0000" by simp
  show ?thesis unfolding keyboard_line_open_def redirect_entry_reg
    using assms red_tbl_eq_iff [OF top one] red_tbl_eq_iff [OF one one] by (auto simp: redirect_masked_def)
qed

lemma init0_ok:
  assumes "boot_memory (image_end l) (4 + r) (host (mon s))" "unat (cpu p) < 64" "even (unat (cpu p))"
    "gdt_table (desc s) = gdt_entries"
  obtains S k d where "init0 p l s = Inr (set_host k (s\<lparr>desc := d\<rparr>))" "kwf S k" "avail k r"
    "\<forall>va. pa k va = (if take_bit 48 va < 0x80000000 then take_bit 48 va else - 1)"
    "task_register_init (cpu p) (gdt64_init (gdt_at l) (tss_at l) (desc s)) = Inr d"
proof -
  from boot_memory_init [OF assms(1)] obtain k1 where k1: "physical_memory_init (image_end l) (host (mon s)) = Inr k1"
    "pm_ok k1" "avail k1 (4 + r)" "current_avail_page k1 \<noteq> 0" .
  from paging_init_identity_law [OF k1(2,4,3)] obtain k S where k: "paging_init k1 = Inr k" "kwf S k" "avail k r"
    "\<forall>va. pa k va = (if take_bit 48 va < 0x80000000 then take_bit 48 va else - 1)" by blast
  have "sint (cpu p) = int (unat (cpu p))" using uint_nat [of "cpu p"] area_offset(4) [OF assms(2)] by simp
  then obtain d where d: "task_register_init (cpu p) (gdt64_init (gdt_at l) (tss_at l) (desc s)) = Inr d"
    using load_pl0_task_law [OF assms(4,2)] assms(3) by (simp add: task_register_init_def)
  then have "init0 p l s = Inr (set_host k (s\<lparr>desc := d\<rparr>))" using k1(1) k(1) by (simp add: init0_def)
  then show thesis using k(2-4) d by (rule that)
qed

text \<open>What the first stages rely on: the platform, the processor's number and features, the tables as the image holds them.\<close>

definition stage1_ready :: "platform \<Rightarrow> u32 \<Rightarrow> kernel \<Rightarrow> bool" where
  "stage1_ready p v s \<longleftrightarrow> apic_documented p \<and> ipi_delivered p \<and> (\<forall>h. last_redirect p h = drop_bit 16 v) \<and>
     unat (cpu p) < 64 \<and> check_basic_cpu_features p = Inr () \<and>
     length (interrupt_desc_table (ints s)) = 256 \<and> length (pls_blob (locals s)) = 64"

text \<open>
  The task selector suits an even processor number only, so the boot processor has one; its number is 0 on
  the machines the kernel is made for.
\<close>

definition bootable :: "platform \<Rightarrow> u32 \<Rightarrow> kernel \<Rightarrow> bool" where
  "bootable p v s \<longleftrightarrow> stage1_ready p v s \<and> even (unat (cpu p)) \<and> gdt_table (desc s) = gdt_entries"

lemma init1_ok:
  assumes b: "stage1_ready p v s" and k: "kwf S (host (mon s))" "avail (host (mon s)) (6 + r)"
    "\<forall>va. pa (host (mon s)) va = (if take_bit 48 va < 0x80000000 then take_bit 48 va else - 1)"
  obtains S' s' where "init1 p l s = Inr s'" "kwf S' (host (mon s'))" "avail (host (mon s')) r" "boot_space (host (mon s'))"
    "ints s' = interrupt_init (isr l) (idt_at l) (ints s)" "apic_ready p (hist s')" "redirect_masked (drop_bit 16 v) (hist s')"
    "owns_area (locals s') (cpu p)" "length (pls_blob (locals s')) = 64"
proof -
  have av: "avail (host (mon s)) (3 + (3 + r))" using k(2) by simp
  have u: "pa (host (mon s)) APIC_BASE = - 1" using k(3) by (simp add: take_bit_eq_mask mask_numeral)
  have doc: "apic_documented p" and del: "ipi_delivered p" and lr: "\<forall>h. last_redirect p h = drop_bit 16 v" using b by (simp_all add: stage1_ready_def)
  from local_apic_init_ok [OF k(1) av u doc, of "hist s"] obtain S1 k1 h1 where
    1: "local_apic_init p (host (mon s)) (hist s) = Inr (k1, h1)" "kwf S1 k1" "avail k1 (3 + r)"
    "\<forall>va. pa k1 va = (if same_page 12 APIC_BASE va then APIC_BASE OR take_bit 12 va else pa (host (mon s)) va)"
    and r1: "apic_only (hist s) h1" "apic_enabled p h1" "apic_programmed h1" .
  have u1: "pa k1 IOAPIC_BASE = - 1" using 1(4) k(3) by (simp add: take_bit_eq_mask mask_numeral same_page_def)
  from io_apic_init_ok [OF 1(2,3) u1, of p h1] obtain S2 k2 h2 where
    2: "io_apic_init p k1 h1 = Inr (k2, h2)" "kwf S2 k2" "avail k2 r"
    "\<forall>va. pa k2 va = (if same_page 12 IOAPIC_BASE va then IOAPIC_BASE OR take_bit 12 va else pa k1 va)"
    "redirect_masked (last_redirect p h1) h2" "\<exists>n. h2 = n @ h1 \<and> list_all apic_quiet n" .
  from start_other_processors_frame [OF del, of h2] obtain h3 n where
    3: "start_other_processors p h2 = Some h3" "h3 = n @ h2" "list_all apic_quiet n" "apic_only h2 h3" .
  have "length (pls_blob (locals s)) = 64" "unat (cpu p) < 64" using b by (simp_all add: stage1_ready_def)
  from storage_init_ok [OF this] obtain ls where
    4: "processor_local_storage_init (cpu p) (locals s) = Inr ls" "length (pls_blob ls) = 64" "owns_area ls (cpu p)" by blast
  have "apic_ready p h1" using r1(2,3) by (simp add: apic_ready_def)
  then have "apic_ready p h3" using apic_ready_quiet [OF doc] 2(6) 3(2,3) by metis
  moreover have "redirect_masked (drop_bit 16 v) h3" using 2(5) lr apic_only_frame(1) [OF 3(4)] by (simp add: redirect_masked_def)
  moreover have "boot_space k2" by (rule boot_space_ok [OF k(3) 1(4) 2(4)])
  moreover let ?s = "check_x2apic_mode p s"
  have c: "host (mon ?s) = host (mon s)" "hist ?s = hist s" "ints ?s = ints s" "locals ?s = locals s" "mon ?s = mon s"
    by (simp_all add: check_x2apic_mode_def split: prod.splits)
  let ?t = "set_host k2 (?s\<lparr>ints := interrupt_init (isr l) (idt_at l) (ints s), locals := ls, hist := h3\<rparr>)"
  have "init1 p l s = Inr (set_host k2 (?s\<lparr>ints := interrupt_init (isr l) (idt_at l) (ints s), locals := ls, hist := h3\<rparr>))"
    using b 1(1) 2(1) 3(1) 4(1) by (simp add: init1_def stage1_ready_def c)
  ultimately show thesis using 2(2,3) 4(2,3) by (intro that [where s' = ?t and S' = S2]) simp_all
qed

section \<open>Main properties\<close>

lemma kernel_boots_law:
  assumes "bootable p v s" "boot_memory (image_end l) (10 + r) (host (mon s))"
  shows "\<exists>s1 s2 s3 S. init0 p l s = Inr s1 \<and> init1 p l s1 = Inr s2 \<and> init2 s2 = Inr s3 \<and>
    kwf S (host (mon s3)) \<and> avail (host (mon s3)) r \<and> boot_space (host (mon s3)) \<and>
    apic_enabled p (hist s2) \<and> apic_programmed (hist s3) \<and> keyboard_line_open (drop_bit 16 v) (hist s3) \<and>
    interrupts_wired (isr l) (idt_at l) (ints s3) \<and> owns_area (locals s3) (cpu p) \<and>
    length (pls_blob (locals s3)) = 64"
proof -
  have c: "unat (cpu p) < 64" "length (interrupt_desc_table (ints s)) = 256" "even (unat (cpu p))" "gdt_table (desc s) = gdt_entries"
    using assms(1) by (simp_all add: bootable_def stage1_ready_def)
  have "boot_memory (image_end l) (4 + (6 + r)) (host (mon s))" using assms(2) by simp
  from init0_ok [OF this c(1,3,4)] obtain S k d where 0: "init0 p l s = Inr (set_host k (s\<lparr>desc := d\<rparr>))" "kwf S k" "avail k (6 + r)"
    "\<forall>va. pa k va = (if take_bit 48 va < 0x80000000 then take_bit 48 va else - 1)"
    "task_register_init (cpu p) (gdt64_init (gdt_at l) (tss_at l) (desc s)) = Inr d" .
  let ?s1 = "set_host k (s\<lparr>desc := d\<rparr>)"
  have "stage1_ready p v ?s1" "kwf S (host (mon ?s1))" "avail (host (mon ?s1)) (6 + r)"
    "\<forall>va. pa (host (mon ?s1)) va = (if take_bit 48 va < 0x80000000 then take_bit 48 va else - 1)"
    using assms(1) 0 by (simp_all add: bootable_def stage1_ready_def)
  from init1_ok [OF this, of l] obtain S' s2 where
    2: "init1 p l ?s1 = Inr s2" "kwf S' (host (mon s2))" "avail (host (mon s2)) r" "boot_space (host (mon s2))"
    and i: "ints s2 = interrupt_init (isr l) (idt_at l) (ints ?s1)" and h: "apic_ready p (hist s2)"
      "redirect_masked (drop_bit 16 v) (hist s2)" "owns_area (locals s2) (cpu p)" "length (pls_blob (locals s2)) = 64" .
  from interrupts_wired_init [of "ints s" "isr l" "idt_at l" "hist s2"] c(2) obtain i1 i2 where
    "lapic_timer_init (ints s2) = Inr i1" "keyboard_init i1 (hist s2) = Inr (i2, ioapic_redirect_entry 1 0 (hist s2))"
    and w: "interrupts_wired (isr l) (idt_at l) i2" using i by auto
  then have 3: "init2 s2 = Inr (s2\<lparr>ints := i2, hist := ioapic_redirect_entry 1 0 (hist s2)\<rparr>)" by (simp add: init2_def)
  have "apic_programmed (ioapic_redirect_entry 1 0 (hist s2))"
    using h(1) by (simp add: apic_ready_def apic_programmed_def ioapic_redirect_entry_def ioapic_write_def)
  then show ?thesis using 0(1) 2 3 w h keyboard_line_ok [OF h(2)]
    by (intro exI [of _ ?s1] exI [of _ s2] exI [of _ "s2\<lparr>ints := i2, hist := ioapic_redirect_entry 1 0 (hist s2)\<rparr>"] exI [of _ S'])
      (simp add: apic_ready_def)
qed

text \<open>
  C16 (boot). On a platform that behaves as documented and whose boot processor has an even number, with ten and \<open>r\<close> pages free after the image and
  the bitmap, the first three stages return.  Then exactly the first 2 GiB and the pages of the two
  interrupt controllers are translated, each to itself; the local controller is enabled and programmed;
  of the redirection entries only the keyboard's is open, to vector 33 on processor 0; every gate leads
  to its entry code, the timer and the keyboard have their handlers and no other vector has one; and
  the processor has its own area.
\<close>

theorem kernel_boots:
  assumes "bootable p v s" "boot_memory (image_end l) (10 + r) (host (mon s))"
  shows "\<exists>s1 s2 s3 S. init0 p l s = Inr s1 \<and> init1 p l s1 = Inr s2 \<and> init2 s2 = Inr s3 \<and>
    kwf S (host (mon s3)) \<and> avail (host (mon s3)) r \<and> boot_space (host (mon s3)) \<and>
    apic_enabled p (hist s2) \<and> apic_programmed (hist s3) \<and> keyboard_line_open (drop_bit 16 v) (hist s3) \<and>
    interrupts_wired (isr l) (idt_at l) (ints s3) \<and> owns_area (locals s3) (cpu p) \<and>
    length (pls_blob (locals s3)) = 64"
  using assms by (rule kernel_boots_law)

text \<open>
  C17 (the other processors). A processor started after the boot joins the address space as it is,
  without a change to the page tables, enables its own local controller, finds its own area and leaves
  the areas of the others alone.
\<close>

theorem processor_joins:
  assumes "kwf S (host (mon s))" "boot_space (host (mon s))" "apic_documented q" "unat (cpu q) < 64" "length (pls_blob (locals s)) = 64"
  shows "\<exists>s'. kernel_ap_main q l s = Inr s' \<and>
    host (mon s') = (host (mon s))\<lparr>cr3 := pml4_base (host (mon s))\<rparr> \<and> boot_space (host (mon s')) \<and>
    apic_enabled q (hist s') \<and> owns_area (locals s') (cpu q) \<and> (\<forall>d. d \<noteq> cpu q \<longrightarrow> owns_area (locals s') d = owns_area (locals s) d) \<and>
    snd (idt (ints s')) = idt_at l \<and> snd (gdtr (desc s')) = gdt_at l"
proof -
  let ?k = "ap_paging_init (host (mon s))"
  have pa: "pa ?k va = pa (host (mon s)) va" for va by (simp add: pa_def ap_paging_init_def)
  have wf: "kwf S ?k" using assms(1) by (simp add: kwf_def pm_ok_def ap_paging_init_def)
  have "pa ?k APIC_BASE \<noteq> - 1" "pa ?k (APIC_BASE + 0x1000) = - 1" "same_page 21 APIC_BASE (APIC_BASE + 0x1000)"
    using assms(2) by (simp_all add: pa boot_space_def same_page_def take_bit_eq_mask mask_numeral)
  then have m: "map_address APIC_BASE APIC_BASE PAGE_SIZE_4K ?k = Inr (- errno ERROR_DUPLICATION, ?k)" by (rule map_4k_again [OF wf])
  from enable_checked_ok [OF assms(3), of "disable_pics (hist s)"] obtain h where
    h: "enable_checked q (disable_pics (hist s)) = Inr h" "apic_enabled q h" by blast
  from start_one [OF assms(5,4)] obtain ls where ls: "processor_local_storage_ap_init (cpu q) (locals s) = Inr ls" "owns_area ls (cpu q)"
    "\<forall>d. d \<noteq> cpu q \<longrightarrow> owns_area ls d = owns_area (locals s) d" by blast
  have "boot_space ?k" using assms(2) by (simp add: boot_space_def pa)
  then show ?thesis using m h ls
    by (simp add: kernel_ap_main_def local_apic_ap_init_def interrupt_ap_init_def load_idt_def gdt64_ap_init_def load_gdt_def ap_paging_init_def)
qed

text \<open>A concrete machine: one memory segment of 1 GiB, and the platform of the interrupt controllers.\<close>

definition sample_linkage :: linkage where
  "sample_linkage = \<lparr>gdt_at = 0x110000, tss_at = 0x112000, image_end = 0x200000, idt_at = 0x114000,
     isr = \<lambda>v. 0x100000 + 16 * of_nat v, constructor_start = 0x120000, constructor_end = 0x120000\<rparr>"

definition sample_kernel :: kernel where
  "sample_kernel = \<lparr>mon = sample_monitor\<lparr>host := sample_kstate\<lparr>kmem := sample_list\<rparr>\<rparr>, desc = sample_descriptors,
     ints = sample_interrupts, locals = processor_local_storage_pre_init sample_local, hist = [],
     is_x2apic_supported = False, cr0_reg = 0x80000011, cr4_reg = 0x20\<rparr>"

lemma sample_bootable: "bootable sample_platform 0x170011 sample_kernel"
proof -
  have "last_redirect sample_platform h = drop_bit 16 0x170011" for h
    by (simp add: last_redirect_def ioapic_read_def Let_def sample_platform_def)
  moreover have "cpu sample_platform = 0" "check_basic_cpu_features sample_platform = Inr ()"
    by (simp_all add: cpu_def check_basic_cpu_features_def sample_platform_def)
  ultimately show ?thesis using sample_platform_documented sample_platform_delivers
    by (simp add: bootable_def stage1_ready_def sample_descriptors_def sample_kernel_def sample_interrupts_def processor_local_storage_pre_init_def)
qed

lemma sample_boot_memory: "boot_memory (image_end sample_linkage) (10 + 8) (host (mon sample_kernel))"
proof -
  let ?k = "sample_kstate\<lparr>kmem := sample_list\<rparr>"
  have seg: "load_segment sample_list 0x10000 = \<lparr>seg_address = 0x100000, seg_length = 0x40000000, seg_type = 1\<rparr>"
    "seg_length (load_segment sample_list 0x10018) = 0"
    by (simp_all add: load_segment_def load64_def load32_def load_bytes_def sample_list_def upt_rec)
  have "segments (kmem ?k) MEMORY_LIST_LONG_MODE_BASE 1 = [load_segment sample_list 0x10000]" by (simp add: segments_def)
  then show ?thesis unfolding boot_memory_def using seg
    by (auto simp: sample_linkage_def sample_kernel_def aligned_iff_dvd note_segment_def pm_ok_def avail_def sample_kstate_def
        intro!: exI [of _ 1])
qed

theorem kernel_boots_witness:
  "\<exists>s1 s2 s3. init0 sample_platform sample_linkage sample_kernel = Inr s1 \<and> init1 sample_platform sample_linkage s1 = Inr s2 \<and>
     init2 s2 = Inr s3 \<and> pa (host (mon s3)) 0xfee00320 = 0xfee00320 \<and> pa (host (mon s3)) 0x80000000 = - 1 \<and>
     handlers (ints s3) ! 33 = Some Keyboard_device_interrupt_handler"
proof -
  from kernel_boots [OF sample_bootable sample_boot_memory] obtain s1 s2 s3 where
    "init0 sample_platform sample_linkage sample_kernel = Inr s1" "init1 sample_platform sample_linkage s1 = Inr s2" "init2 s2 = Inr s3"
    "boot_space (host (mon s3))" "interrupts_wired (isr sample_linkage) (idt_at sample_linkage) (ints s3)" by blast
  then show ?thesis
    by (intro exI conjI) (assumption | simp add: boot_space_def interrupts_wired_def take_bit_eq_mask mask_numeral)+
qed

theorem processor_joins_witness:
  "\<exists>s s'. kernel_ap_main (sample_platform\<lparr>cpuid_value := \<lambda>_. (0, 0x05000000, 0, 0xffffffff)\<rparr>) sample_linkage s = Inr s' \<and>
     owns_area (locals s') 5 \<and> owns_area (locals s') 0"
proof -
  let ?q = "sample_platform\<lparr>cpuid_value := \<lambda>_. (0, 0x05000000, 0, 0xffffffff)\<rparr>"
  have z: "cpu sample_platform = 0" by (simp add: cpu_def sample_platform_def)
  from kernel_boots_law [OF sample_bootable sample_boot_memory] obtain s :: kernel and S where
    s: "kwf S (host (mon s))" "boot_space (host (mon s))" "length (pls_blob (locals s)) = 64" "owns_area (locals s) 0"
    unfolding z by blast
  have q: "apic_documented ?q" "cpu ?q = 5" "unat (cpu ?q) < 64"
    using sample_platform_documented by (simp_all add: apic_documented_def cpu_def)
  from processor_joins [OF s(1,2) q(1,3) s(3), of sample_linkage] obtain s' where
    "kernel_ap_main ?q sample_linkage s = Inr s'" "owns_area (locals s') 5"
    "\<forall>d. d \<noteq> 5 \<longrightarrow> owns_area (locals s') d = owns_area (locals s) d" unfolding q(2) by blast
  moreover from this(3) s(4) have "owns_area (locals s') 0" by simp
  ultimately show ?thesis by blast
qed

end
