(* ===== verification/Guest_Video.thy ===== *)
theory Guest_Video
  imports Mem_Ops
begin

text \<open>
  The guest's text screen, \<open>guest/video.c\<close> and \<open>guest/video.h\<close>: 25 rows of 80 cells at the guest
  virtual address \<open>0x1000b8000\<close>, two bytes to a cell, the character and its colours.  The
  functions are functions of the guest's memory.
\<close>

abbreviation guest_VIDEO_BUFFER_BASE :: int where "guest_VIDEO_BUFFER_BASE \<equiv> 0x1000b8000"
abbreviation guest_VIDEO_BUFFER_ROW :: nat where "guest_VIDEO_BUFFER_ROW \<equiv> 25"
abbreviation guest_VIDEO_BUFFER_COL :: nat where "guest_VIDEO_BUFFER_COL \<equiv> 80"
abbreviation COLOR_BLACK :: int where "COLOR_BLACK \<equiv> 0x0"
abbreviation COLOR_BLUE :: int where "COLOR_BLUE \<equiv> 0x1"
abbreviation COLOR_GREEN :: int where "COLOR_GREEN \<equiv> 0x2"
abbreviation COLOR_CYAN :: int where "COLOR_CYAN \<equiv> 0x3"
abbreviation COLOR_RED :: int where "COLOR_RED \<equiv> 0x4"
abbreviation COLOR_PURPLE :: int where "COLOR_PURPLE \<equiv> 0x5"
abbreviation COLOR_BROWN :: int where "COLOR_BROWN \<equiv> 0x6"
abbreviation COLOR_GRAY :: int where "COLOR_GRAY \<equiv> 0x7"
abbreviation COLOR_YELLOW :: int where "COLOR_YELLOW \<equiv> 0xe"
abbreviation COLOR_WHITE :: int where "COLOR_WHITE \<equiv> 0xf"

definition CHAR_VIDEO_ADDR :: "int \<Rightarrow> int \<Rightarrow> u64" where
  "CHAR_VIDEO_ADDR row col = of_int (guest_VIDEO_BUFFER_BASE + 2 * (row * int guest_VIDEO_BUFFER_COL + col))"

definition MAKE_BYTE :: "int \<Rightarrow> int \<Rightarrow> int" where
  "MAKE_BYTE hi lo = (push_bit 4 hi AND 0xf0) OR (lo AND 0xf)"

definition set_font_color :: "int \<Rightarrow> int \<Rightarrow> mem \<Rightarrow> mem" where
  "set_font_color background_color front_color m =
     fold (\<lambda>idx_row. fold (\<lambda>idx_col m. m(CHAR_VIDEO_ADDR (int idx_row) (int idx_col) + 1 :=
         of_int (push_bit 4 background_color OR front_color)))
       [0..<guest_VIDEO_BUFFER_COL]) [0..<guest_VIDEO_BUFFER_ROW] m"

definition reset_text :: "mem \<Rightarrow> mem" where
  "reset_text m =
     fold (\<lambda>idx_row. fold (\<lambda>idx_col m. m(CHAR_VIDEO_ADDR (int idx_row) (int idx_col) := 0))
       [0..<guest_VIDEO_BUFFER_COL]) [0..<guest_VIDEO_BUFFER_ROW] m"

fun text_loop :: "u64 \<Rightarrow> string \<Rightarrow> mem \<Rightarrow> mem" where
  "text_loop ptr [] m = m"
| "text_loop ptr (c # cs) m = text_loop (ptr + 2) cs (m(ptr := of_char c))"

definition print_text :: "int \<Rightarrow> int \<Rightarrow> string \<Rightarrow> mem \<Rightarrow> mem" where
  "print_text idx_row idx_col text m = text_loop (CHAR_VIDEO_ADDR idx_row idx_col) text m"

fun colored_text_loop :: "u64 \<Rightarrow> string \<Rightarrow> int \<Rightarrow> mem \<Rightarrow> mem" where
  "colored_text_loop ptr [] color m = m"
| "colored_text_loop ptr (c # cs) color m = colored_text_loop (ptr + 2) cs color (m(ptr := of_char c, ptr + 1 := of_int color))"

definition print_text_with_color :: "int \<Rightarrow> int \<Rightarrow> string \<Rightarrow> int \<Rightarrow> mem \<Rightarrow> mem" where
  "print_text_with_color idx_row idx_col text color m = colored_text_loop (CHAR_VIDEO_ADDR idx_row idx_col) text color m"

definition banner :: "string list" where
  "banner =
     [''________________________________________________'',
      ''     ___                               __       '',
      ''        /          /       /         /    )     '',
      ''-------/-----__---/----__-/----__---/----/---__-'',
      ''      /    /___) /   /   /   /   ) /    /   (_ '' @ [CHR 0x60],
      ''____(_____(___ _/___(___/___(___(_(____/___(__)_'',
      ''    /                                           '',
      ''(_ /   Copyright (c) 2019 Jie Zheng             '',
      '''',
      ''https://github.com/chillancezen/ZeldaOS.x86_64'',
      ''================================================'']"

definition video_remap :: "mem \<Rightarrow> mem" where
  "video_remap m =
     (let m = set_font_color COLOR_BLACK COLOR_GREEN m;
          m = reset_text m;
          m = fold (\<lambda>idx. print_text (int idx) 0 (banner ! idx)) [0..<length banner] m;
          yellow = MAKE_BYTE COLOR_BLACK COLOR_YELLOW;
          m = print_text_with_color 15 2 ''Instructions:'' yellow m;
          m = print_text_with_color 16 2 ''  [ Enter ] suspend/resume the game'' yellow m;
          m = print_text_with_color 17 2 ''  [ Ctrl+R] reset the game'' yellow m;
          m = print_text_with_color 18 2 ''  [ blank]  rotate the shape'' yellow m;
          m = print_text_with_color 19 2 ''  [ down arrow ]  adjust the axis Y position by +1'' yellow m;
          m = print_text_with_color 20 2 ''  [ left arrow ]  adjust the axis X position by -1'' yellow m
      in print_text_with_color 21 2 ''  [ right arrow]  adjust the axis X position by +1'' yellow m)"

section \<open>Cells\<close>

text \<open>A cell of the screen, and what it shows: the character and the colours.\<close>

definition on_screen :: "int \<Rightarrow> int \<Rightarrow> bool" where
  "on_screen row col \<longleftrightarrow> 0 \<le> row \<and> row < 25 \<and> 0 \<le> col \<and> col < 80"

definition cell :: "mem \<Rightarrow> int \<Rightarrow> int \<Rightarrow> u8 \<times> u8" where
  "cell m row col = (m (CHAR_VIDEO_ADDR row col), m (CHAR_VIDEO_ADDR row col + 1))"

definition put_cell :: "u8 \<Rightarrow> u8 \<Rightarrow> int \<Rightarrow> int \<Rightarrow> mem \<Rightarrow> mem" where
  "put_cell ch attr row col m = m(CHAR_VIDEO_ADDR row col := ch, CHAR_VIDEO_ADDR row col + 1 := attr)"

lemma unat_video_addr:
  assumes "on_screen row col"
  shows "unat (CHAR_VIDEO_ADDR row col) = 0x1000b8000 + 2 * nat (row * 80 + col)"
proof -
  let ?k = "guest_VIDEO_BUFFER_BASE + 2 * (row * 80 + col)"
  have k: "0 \<le> ?k" "?k < 2 ^ 64" using assms by (auto simp: on_screen_def)
  have "uint (CHAR_VIDEO_ADDR row col) = ?k"
    unfolding CHAR_VIDEO_ADDR_def uint_word_of_int_eq using k by (simp add: take_bit_int_eq_self)
  moreover have "0 \<le> row * 80 + col" using assms by (simp add: on_screen_def)
  ultimately show ?thesis by (simp add: unat_eq_nat_uint nat_add_distrib nat_mult_distrib)
qed

lemma unat_video_addr1:
  "on_screen row col \<Longrightarrow> unat (CHAR_VIDEO_ADDR row col + 1) = 0x1000b8001 + 2 * nat (row * 80 + col)"
  using unat_video_addr [of row col] by (auto simp: unat_word_ariths on_screen_def nat_less_iff)

lemma screen_index_inject:
  assumes "on_screen r c" "on_screen r' c'"
  shows "r * 80 + c = r' * 80 + c' \<longleftrightarrow> r = r' \<and> c = c'"
proof -
  have "(r * 80 + c) div 80 = r" "(r' * 80 + c') div 80 = r'"
    using assms by (simp_all add: on_screen_def div_pos_pos_trivial)
  then have "r = r'" if "r * 80 + c = r' * 80 + c'" using that by metis
  then show ?thesis by auto
qed

lemma video_addr_inject:
  assumes "on_screen r c" "on_screen r' c'"
  shows "CHAR_VIDEO_ADDR r c = CHAR_VIDEO_ADDR r' c' \<longleftrightarrow> r = r' \<and> c = c'"
    "CHAR_VIDEO_ADDR r c + 1 = CHAR_VIDEO_ADDR r' c' + 1 \<longleftrightarrow> r = r' \<and> c = c'"
    "CHAR_VIDEO_ADDR r c + 1 \<noteq> CHAR_VIDEO_ADDR r' c'"
proof -
  have n: "0 \<le> r * 80 + c" "0 \<le> r' * 80 + c'" using assms by (simp_all add: on_screen_def)
  show 1: "CHAR_VIDEO_ADDR r c = CHAR_VIDEO_ADDR r' c' \<longleftrightarrow> r = r' \<and> c = c'"
    using screen_index_inject [OF assms] n by (simp add: word_unat_eq_iff unat_video_addr assms eq_nat_nat_iff)
  then show "CHAR_VIDEO_ADDR r c + 1 = CHAR_VIDEO_ADDR r' c' + 1 \<longleftrightarrow> r = r' \<and> c = c'" by simp
  have "1 + 2 * a \<noteq> 2 * b" for a b :: nat by presburger
  then show "CHAR_VIDEO_ADDR r c + 1 \<noteq> CHAR_VIDEO_ADDR r' c'"
    by (simp add: word_unat_eq_iff unat_video_addr unat_video_addr1 assms)
qed

lemma cell_put_cell:
  assumes "on_screen r c" "on_screen r' c'"
  shows "cell (put_cell ch attr r c m) r' c' = (if r = r' \<and> c = c' then (ch, attr) else cell m r' c')"
  using video_addr_inject [OF assms] video_addr_inject(3) [OF assms(2,1)]
  by (auto simp: cell_def put_cell_def)

text \<open>Two memories that agree outside the screen.\<close>

definition off_screen_same :: "mem \<Rightarrow> mem \<Rightarrow> bool" where
  "off_screen_same m m' \<longleftrightarrow> (\<forall>a. unat a < 0x1000b8000 \<or> 0x1000b8000 + 4000 \<le> unat a \<longrightarrow> m' a = m a)"

lemma off_screen_refl [simp]: "off_screen_same m m"
  by (simp add: off_screen_same_def)

lemma off_screen_trans [trans]: "off_screen_same m m' \<Longrightarrow> off_screen_same m' m'' \<Longrightarrow> off_screen_same m m''"
  by (simp add: off_screen_same_def)

lemma off_screen_update:
  assumes "off_screen_same m m'" "on_screen r c"
  shows "off_screen_same m (m'(CHAR_VIDEO_ADDR r c := v))" "off_screen_same m (m'(CHAR_VIDEO_ADDR r c + 1 := v))"
proof -
  have "nat (r * 80 + c) < 2000" using assms(2) by (simp add: on_screen_def nat_less_iff)
  then show "off_screen_same m (m'(CHAR_VIDEO_ADDR r c := v))" "off_screen_same m (m'(CHAR_VIDEO_ADDR r c + 1 := v))"
    using assms(1) unat_video_addr [OF assms(2)] unat_video_addr1 [OF assms(2)] by (auto simp: off_screen_same_def)
qed

lemma off_screen_put_cell: "off_screen_same m m' \<Longrightarrow> on_screen r c \<Longrightarrow> off_screen_same m (put_cell ch attr r c m')"
  unfolding put_cell_def by (intro off_screen_update)

lemma off_screen_fold:
  "(\<And>p m'. p \<in> set ps \<Longrightarrow> off_screen_same m m' \<Longrightarrow> off_screen_same m (f p m')) \<Longrightarrow> off_screen_same m m' \<Longrightarrow> off_screen_same m (fold f ps m')"
  by (induction ps arbitrary: m') simp_all

lemma next_cell: "CHAR_VIDEO_ADDR r c + 2 = CHAR_VIDEO_ADDR r (c + 1)"
  by (simp add: CHAR_VIDEO_ADDR_def algebra_simps)

lemma off_screen_text_loop:
  assumes "0 \<le> r" "r < 25" "0 \<le> c" "c + int (length cs) \<le> 80" "off_screen_same m m'"
  shows "off_screen_same m (text_loop (CHAR_VIDEO_ADDR r c) cs m')"
  using assms by (induction cs arbitrary: c m') (simp_all add: next_cell off_screen_update on_screen_def)

lemma off_screen_colored_text_loop:
  assumes "0 \<le> r" "r < 25" "0 \<le> c" "c + int (length cs) \<le> 80" "off_screen_same m m'"
  shows "off_screen_same m (colored_text_loop (CHAR_VIDEO_ADDR r c) cs color m')"
  using assms by (induction cs arbitrary: c m') (simp_all add: next_cell off_screen_update on_screen_def)

lemma off_screen_print_text:
  "0 \<le> r \<Longrightarrow> r < 25 \<Longrightarrow> 0 \<le> c \<Longrightarrow> c + int (length text) \<le> 80 \<Longrightarrow> off_screen_same m m' \<Longrightarrow> off_screen_same m (print_text r c text m')"
  unfolding print_text_def by (rule off_screen_text_loop)

lemma off_screen_print_text_with_color:
  "0 \<le> r \<Longrightarrow> r < 25 \<Longrightarrow> 0 \<le> c \<Longrightarrow> c + int (length text) \<le> 80 \<Longrightarrow> off_screen_same m m' \<Longrightarrow>
   off_screen_same m (print_text_with_color r c text color m')"
  unfolding print_text_with_color_def by (rule off_screen_colored_text_loop)

lemma off_screen_font: "off_screen_same m (set_font_color b f m)" "off_screen_same m (reset_text m)"
  unfolding set_font_color_def reset_text_def
  by (intro off_screen_fold off_screen_update; simp add: on_screen_def)+

lemma banner_length: "length banner = 11"
  by (simp add: banner_def)

lemma banner_width: "idx < length banner \<Longrightarrow> length (banner ! idx) \<le> 48"
  by (auto simp: banner_def less_Suc_eq)

lemma off_screen_video_remap: "off_screen_same m (video_remap m)"
proof -
  let ?m1 = "set_font_color COLOR_BLACK COLOR_GREEN m"
  let ?m2 = "fold (\<lambda>idx. print_text (int idx) 0 (banner ! idx)) [0..<length banner] (reset_text ?m1)"
  have "off_screen_same m ?m1" "off_screen_same ?m1 (reset_text ?m1)" by (rule off_screen_font)+
  then have "off_screen_same m (reset_text ?m1)" by (rule off_screen_trans)
  then have "off_screen_same m ?m2"
  proof (rule off_screen_fold [rotated])
    fix idx m' assume i: "idx \<in> set [0..<length banner]" and m': "off_screen_same m m'"
    then have "idx < length banner" by simp
    then have "length (banner ! idx) \<le> 48" "idx < 11" using banner_width [of idx] by (simp_all add: banner_length)
    then show "off_screen_same m (print_text (int idx) 0 (banner ! idx) m')" using m' by (intro off_screen_print_text) simp_all
  qed
  then show ?thesis unfolding video_remap_def Let_def by (intro off_screen_print_text_with_color) simp_all
qed

end
