(* ===== verification/Tetris.thy ===== *)
theory Tetris
  imports Guest_Video
begin

text \<open>
  The game the guest runs, \<open>guest/tetris.c\<close>, with the interrupt handlers that drive it: the keyboard's
  (\<open>guest/keyboard.c\<close>) and the timer's (\<open>guest/timer.c\<close>).  The static objects of the three files are
  the fields of one record.  A shape is named by the object it is, and a pointer to any other
  address is \<^const>\<open>None\<close>; following it, and an index outside the grid, is a fault.
\<close>

abbreviation GRID_WIDTH :: nat where "GRID_WIDTH \<equiv> 16"
abbreviation GRID_HEIGHT :: nat where "GRID_HEIGHT \<equiv> 20"
abbreviation GRID_AXIS_X :: int where "GRID_AXIS_X \<equiv> 62"
abbreviation GRID_ASIS_Y :: int where "GRID_ASIS_Y \<equiv> 4"
abbreviation NR_SHAPE_TYPE :: nat where "NR_SHAPE_TYPE \<equiv> 4"

definition LOW_NIBBLE :: "u8 \<Rightarrow> u8" where
  "LOW_NIBBLE by = by AND 0xf"

definition HIGH_NIBBLE :: "u8 \<Rightarrow> u8" where
  "HIGH_NIBBLE by = drop_bit 4 by AND 0xf"

section \<open>Shapes\<close>

datatype shape_name = Shape0 | Shape1 | Shape2 | Shape3 | Shape4 | Shape5 | Shape6 | Shape7 | Shape8

datatype group_name = Grp0 | Grp1 | Grp2 | Grp3

record shape =
  nr_point :: nat
  points :: "u8 list"

record shape_group =
  nr_shapes :: nat
  shapes :: "shape_name list"

definition point :: "int \<Rightarrow> int \<Rightarrow> u8" where
  "point a b = of_int (MAKE_BYTE a b)"

fun shape_object :: "shape_name \<Rightarrow> shape" where
  "shape_object Shape0 = \<lparr>nr_point = 4, points = [point 0 0, point 0 1, point 1 1, point 1 2, 0, 0, 0, 0]\<rparr>"
| "shape_object Shape1 = \<lparr>nr_point = 4, points = [point 0 1, point 1 1, point 1 0, point 2 0, 0, 0, 0, 0]\<rparr>"
| "shape_object Shape2 = \<lparr>nr_point = 4, points = [point 0 0, point 1 0, point 2 0, point 3 0, 0, 0, 0, 0]\<rparr>"
| "shape_object Shape3 = \<lparr>nr_point = 4, points = [point 0 0, point 0 1, point 0 2, point 0 3, 0, 0, 0, 0]\<rparr>"
| "shape_object Shape4 = \<lparr>nr_point = 4, points = [point 0 1, point 1 0, point 1 1, point 1 2, 0, 0, 0, 0]\<rparr>"
| "shape_object Shape5 = \<lparr>nr_point = 4, points = [point 0 0, point 1 0, point 1 1, point 2 0, 0, 0, 0, 0]\<rparr>"
| "shape_object Shape6 = \<lparr>nr_point = 4, points = [point 0 0, point 0 1, point 0 2, point 1 1, 0, 0, 0, 0]\<rparr>"
| "shape_object Shape7 = \<lparr>nr_point = 4, points = [point 0 1, point 1 0, point 1 1, point 2 1, 0, 0, 0, 0]\<rparr>"
| "shape_object Shape8 = \<lparr>nr_point = 4, points = [point 0 0, point 0 1, point 1 0, point 1 1, 0, 0, 0, 0]\<rparr>"

fun group_object :: "group_name \<Rightarrow> shape_group" where
  "group_object Grp0 = \<lparr>nr_shapes = 2, shapes = [Shape0, Shape1]\<rparr>"
| "group_object Grp1 = \<lparr>nr_shapes = 2, shapes = [Shape2, Shape3]\<rparr>"
| "group_object Grp2 = \<lparr>nr_shapes = 4, shapes = [Shape4, Shape5, Shape6, Shape7]\<rparr>"
| "group_object Grp3 = \<lparr>nr_shapes = 1, shapes = [Shape8]\<rparr>"

definition shape_grps :: "group_name list" where
  "shape_grps = [Grp0, Grp1, Grp2, Grp3]"

section \<open>State\<close>

record block =
  plotted :: int
  x_pos :: int
  y_pos :: int
  color :: int
  shp :: "shape_name option"
  grp :: "group_name option"

record grid_elem =
  is_set :: u8
  elem_color :: u8

type_synonym grid = "grid_elem list list"

datatype message = Current_score u32 | Teris_running bool

record tetris =
  grid :: grid
  blk :: block
  is_running :: bool
  started :: bool
  score :: u32
  gmem :: mem
  console :: "message list"
  ctrl_down :: u8
  tsc_last :: u64
  cpu_freq :: u64

text \<open>
  Where the linker placed the static shapes and groups, which decides what an address read from
  memory points to.
\<close>

record image =
  shape_at :: "u64 \<Rightarrow> shape_name option"
  group_at :: "u64 \<Rightarrow> group_name option"

text \<open>
  The guest's \<open>memset\<close> copies bytes from the address given as its second argument, so that
  \<open>memset(p, 0x0, n)\<close> fills the object with what lies at address \<open>0\<close>.
\<close>

definition grid_from :: "mem \<Rightarrow> grid" where
  "grid_from m = map (\<lambda>y. map (\<lambda>x. \<lparr>is_set = m (of_nat (2 * (GRID_WIDTH * y + x))),
     elem_color = m (of_nat (2 * (GRID_WIDTH * y + x) + 1))\<rparr>) [0..<GRID_WIDTH]) [0..<GRID_HEIGHT]"

definition block_from :: "image \<Rightarrow> mem \<Rightarrow> block" where
  "block_from i m = \<lparr>plotted = sint (load32 m 0), x_pos = sint (load32 m 4), y_pos = sint (load32 m 8),
     color = sint (load32 m 12), shp = shape_at i (load64 m 16), grp = group_at i (load64 m 24)\<rparr>"

section \<open>Drawing\<close>

text \<open>The points of a shape, as the loops over \<open>points[0..nr_point)\<close> read them: column and row offsets.\<close>

definition offsets :: "shape_name \<Rightarrow> (int \<times> int) list" where
  "offsets n = map (\<lambda>p. (uint (LOW_NIBBLE p), uint (HIGH_NIBBLE p))) (take (nr_point (shape_object n)) (points (shape_object n)))"

fun plot_loop :: "u8 \<Rightarrow> u8 \<Rightarrow> int \<Rightarrow> int \<Rightarrow> (int \<times> int) list \<Rightarrow> mem \<Rightarrow> mem" where
  "plot_loop ch attr x_base y_base [] m = m"
| "plot_loop ch attr x_base y_base ((x_offset, y_offset) # ps) m =
     plot_loop ch attr x_base y_base ps (put_cell ch attr (y_base + y_offset) (x_base + x_offset) m)"

definition plot_shape :: "shape_name \<Rightarrow> int \<Rightarrow> int \<Rightarrow> int \<Rightarrow> mem \<Rightarrow> mem" where
  "plot_shape n c x y m =
     plot_loop 0x20 (of_int (MAKE_BYTE c COLOR_WHITE)) (x + GRID_AXIS_X) (y + GRID_ASIS_Y) (offsets n) m"

definition unplot_shape :: "shape_name \<Rightarrow> int \<Rightarrow> int \<Rightarrow> mem \<Rightarrow> mem" where
  "unplot_shape n x y m =
     plot_loop 0x2e (of_int (MAKE_BYTE COLOR_BLACK COLOR_BLUE)) (x + GRID_AXIS_X) (y + GRID_ASIS_Y) (offsets n) m"

definition plot_block :: "tetris \<Rightarrow> tetris result" where
  "plot_block s =
     (let b = blk s in
      case shp b of None \<Rightarrow> Inl Wild_access
      | Some n \<Rightarrow> Inr (s\<lparr>gmem := plot_shape n (color b) (x_pos b) (y_pos b) (gmem s), blk := b\<lparr>plotted := 1\<rparr>\<rparr>))"

definition unplot_block :: "tetris \<Rightarrow> tetris result" where
  "unplot_block s =
     (let b = blk s in
      if plotted b = 0 then Inr s else
      case shp b of None \<Rightarrow> Inl Wild_access
      | Some n \<Rightarrow> Inr (s\<lparr>gmem := unplot_shape n (x_pos b) (y_pos b) (gmem s), blk := b\<lparr>plotted := 0\<rparr>\<rparr>))"

section \<open>The block\<close>

fun shape_loop :: "int \<Rightarrow> shape_name list \<Rightarrow> shape_name option \<Rightarrow> int" where
  "shape_loop idx [] p = - 1"
| "shape_loop idx (n # ns) p = (if Some n = p then idx else shape_loop (idx + 1) ns p)"

definition rotate_block :: "block \<Rightarrow> block result" where
  "rotate_block b =
     (case grp b of None \<Rightarrow> Inl Wild_access
      | Some gn \<Rightarrow>
          let g = group_object gn;
              current_index = shape_loop 0 (take (nr_shapes g) (shapes g)) (shp b);
              next_index = (if current_index < 0 then 0 else (current_index + 1) mod int (nr_shapes g))
          in Inr (b\<lparr>shp := Some (shapes g ! nat next_index)\<rparr>))"

definition inside :: "int \<Rightarrow> int \<Rightarrow> bool" where
  "inside x y \<longleftrightarrow> 0 \<le> x \<and> x < int GRID_WIDTH \<and> 0 \<le> y \<and> y < int GRID_HEIGHT"

fun clash_loop :: "grid \<Rightarrow> int \<Rightarrow> int \<Rightarrow> (int \<times> int) list \<Rightarrow> bool" where
  "clash_loop g x y [] = False"
| "clash_loop g x y ((x_offset, y_offset) # ps) =
     (if \<not> inside (x + x_offset) (y + y_offset) then True
      else if is_set (g ! nat (y + y_offset) ! nat (x + x_offset)) \<noteq> 0 then True
      else clash_loop g x y ps)"

definition is_block_clashing :: "grid \<Rightarrow> block \<Rightarrow> bool result" where
  "is_block_clashing g b =
     (case shp b of None \<Rightarrow> Inl Wild_access | Some n \<Rightarrow> Inr (clash_loop g (x_pos b) (y_pos b) (offsets n)))"

fun finalize_loop :: "int \<Rightarrow> int \<Rightarrow> int \<Rightarrow> (int \<times> int) list \<Rightarrow> grid \<Rightarrow> grid result" where
  "finalize_loop c x y [] g = Inr g"
| "finalize_loop c x y ((x_offset, y_offset) # ps) g =
     (if \<not> inside (x + x_offset) (y + y_offset) then Inl Wild_access
      else finalize_loop c x y ps (g[nat (y + y_offset) := (g ! nat (y + y_offset))
             [nat (x + x_offset) := \<lparr>is_set = 1, elem_color = of_int c\<rparr>]]))"

definition finalize_block :: "tetris \<Rightarrow> tetris result" where
  "finalize_block s =
     (let b = blk s in
      case shp b of None \<Rightarrow> Inl Wild_access
      | Some n \<Rightarrow> bind_result (finalize_loop (color b) (x_pos b) (y_pos b) (offsets n) (grid s)) (\<lambda>g. Inr (s\<lparr>grid := g\<rparr>)))"

section \<open>Removing full rows\<close>

definition row_full :: "grid_elem list \<Rightarrow> bool" where
  "row_full r \<longleftrightarrow> list_all (\<lambda>e. is_set e \<noteq> 0) r"

text \<open>The first loop, from the last row up: the rows that stay, and how many do not.\<close>

primrec rows_left_loop :: "nat \<Rightarrow> grid \<Rightarrow> nat list \<Rightarrow> nat \<Rightarrow> nat list \<times> nat" where
  "rows_left_loop 0 g rows_left purged_count = (rows_left, purged_count)"
| "rows_left_loop (Suc idx) g rows_left purged_count =
     (if row_full (g ! idx) then rows_left_loop idx g rows_left (purged_count + 1)
      else rows_left_loop idx g (rows_left @ [idx]) purged_count)"

text \<open>The second loop copies them down in place, from the last row up.\<close>

fun copy_loop :: "int \<Rightarrow> nat list \<Rightarrow> grid \<Rightarrow> int \<times> grid" where
  "copy_loop target_row [] g = (target_row, g)"
| "copy_loop target_row (source_row # rows) g = copy_loop (target_row - 1) rows (g[nat target_row := g ! source_row])"

text \<open>The third loop empties the rows above, leaving their colours.\<close>

primrec empty_loop :: "nat \<Rightarrow> grid \<Rightarrow> grid" where
  "empty_loop 0 g = g"
| "empty_loop (Suc target_row) g =
     empty_loop target_row (g[target_row := map (\<lambda>e. e\<lparr>is_set := 0\<rparr>) (g ! target_row)])"

definition purge_grid :: "tetris \<Rightarrow> tetris" where
  "purge_grid s =
     (case rows_left_loop GRID_HEIGHT (grid s) [] 0 of (rows_left, purged_count) \<Rightarrow>
        if purged_count = 0 then s
        else let sc = score s + of_nat purged_count in
          case copy_loop (int GRID_HEIGHT - 1) rows_left (grid s) of (target_row, g) \<Rightarrow>
            s\<lparr>score := sc, console := console s @ [Current_score sc], grid := empty_loop (nat (target_row + 1)) g\<rparr>)"

section \<open>New blocks\<close>

definition rand :: "u64 \<Rightarrow> u64 \<Rightarrow> int" where
  "rand tsc upper = sint (ucast (tsc mod upper) :: u32)"

definition colors :: "int list" where
  "colors = [COLOR_RED, COLOR_PURPLE, COLOR_GRAY, COLOR_CYAN, COLOR_YELLOW, COLOR_BROWN]"

text \<open>\<^verbatim>\<open>tsc\<close> holds the readings of the time stamp counter, in order.\<close>

definition new_block :: "(nat \<Rightarrow> u64) \<Rightarrow> block \<Rightarrow> block" where
  "new_block tsc b =
     (let grp_index = rand (tsc 0) (of_nat NR_SHAPE_TYPE);
          g = shape_grps ! nat grp_index;
          shp_index = rand (tsc 1) (of_nat (nr_shapes (group_object g)));
          color_index = rand (tsc 2) (of_nat (length colors))
      in b\<lparr>grp := Some g, shp := Some (shapes (group_object g) ! nat shp_index), color := colors ! nat color_index,
           x_pos := int GRID_WIDTH div 2, y_pos := 0\<rparr>)"

section \<open>The grid on the screen\<close>

definition elem_cell :: "grid_elem \<Rightarrow> u8 \<times> u8" where
  "elem_cell e = (if is_set e \<noteq> 0 then 0x20 else 0x2e,
     of_int (if is_set e \<noteq> 0 then MAKE_BYTE (uint (elem_color e)) COLOR_BLUE else MAKE_BYTE COLOR_BLACK COLOR_BLUE))"

definition frame_cell :: "int \<Rightarrow> int \<Rightarrow> mem \<Rightarrow> mem" where
  "frame_cell y x m = put_cell 0x3d (of_int (MAKE_BYTE COLOR_BLACK COLOR_WHITE)) y x m"

definition init_grid :: "bool \<Rightarrow> grid \<Rightarrow> mem \<Rightarrow> mem" where
  "init_grid inner_frame_only g m =
     (let m = fold (\<lambda>y. fold (\<lambda>x. case elem_cell (g ! y ! x) of (ch, attr) \<Rightarrow>
                put_cell ch attr (int y + GRID_ASIS_Y) (int x + GRID_AXIS_X)) [0..<GRID_WIDTH]) [0..<GRID_HEIGHT] m
      in if inner_frame_only then m
         else let m = fold (frame_cell 24) [GRID_AXIS_X - 1 .. GRID_AXIS_X + int GRID_WIDTH] m
              in fold (\<lambda>y m. frame_cell y (GRID_AXIS_X + int GRID_WIDTH) (frame_cell y (GRID_AXIS_X - 1) m))
                   [GRID_ASIS_Y .. GRID_ASIS_Y + int GRID_HEIGHT - 1] m)"

section \<open>Keys\<close>

definition on_key_blank :: "tetris \<Rightarrow> tetris result" where
  "on_key_blank s =
     (if \<not> is_running s then Inr s else
      bind_result (rotate_block (blk s)) (\<lambda>tmp.
      bind_result (is_block_clashing (grid s) tmp) (\<lambda>clash.
      if clash then Inr s else
      bind_result (unplot_block s) (\<lambda>s.
      bind_result (rotate_block (blk s)) (\<lambda>b.
      plot_block (s\<lparr>blk := b\<rparr>))))))"

definition on_key_arrow_down :: "(nat \<Rightarrow> u64) \<Rightarrow> tetris \<Rightarrow> tetris result" where
  "on_key_arrow_down tsc s =
     (if \<not> is_running s then Inr s else
      let tmp = (blk s)\<lparr>y_pos := y_pos (blk s) + 1\<rparr> in
      bind_result (is_block_clashing (grid s) tmp) (\<lambda>clash.
      if clash then
        bind_result (finalize_block s) (\<lambda>s.
        let s = purge_grid s;
            s = s\<lparr>gmem := init_grid True (grid s) (gmem s)\<rparr>;
            s = s\<lparr>blk := new_block tsc (blk s)\<rparr>
        in bind_result (is_block_clashing (grid s) (blk s)) (\<lambda>clash.
           if clash then Inr (s\<lparr>is_running := False, console := console s @ [Teris_running False]\<rparr>)
           else plot_block s))
      else
        bind_result (unplot_block s) (\<lambda>s.
        plot_block (s\<lparr>blk := (blk s)\<lparr>y_pos := y_pos (blk s) + 1\<rparr>\<rparr>))))"

definition on_key_arrow_left :: "tetris \<Rightarrow> tetris result" where
  "on_key_arrow_left s =
     (if \<not> is_running s then Inr s else
      let tmp = (blk s)\<lparr>x_pos := x_pos (blk s) - 1\<rparr> in
      bind_result (is_block_clashing (grid s) tmp) (\<lambda>clash.
      if clash then Inr s else
      bind_result (unplot_block s) (\<lambda>s.
      plot_block (s\<lparr>blk := (blk s)\<lparr>x_pos := x_pos (blk s) - 1\<rparr>\<rparr>))))"

definition on_key_arrow_right :: "tetris \<Rightarrow> tetris result" where
  "on_key_arrow_right s =
     (if \<not> is_running s then Inr s else
      let tmp = (blk s)\<lparr>x_pos := x_pos (blk s) + 1\<rparr> in
      bind_result (is_block_clashing (grid s) tmp) (\<lambda>clash.
      if clash then Inr s else
      bind_result (unplot_block s) (\<lambda>s.
      plot_block (s\<lparr>blk := (blk s)\<lparr>x_pos := x_pos (blk s) + 1\<rparr>\<rparr>))))"

definition tetris_start :: "(nat \<Rightarrow> u64) \<Rightarrow> tetris \<Rightarrow> tetris" where
  "tetris_start tsc s =
     (let s = (if started s then s
               else let m = video_remap (gmem s);
                        m = init_grid False (grid s) m
                    in s\<lparr>gmem := m, blk := new_block tsc (blk s), started := True\<rparr>);
          s = s\<lparr>is_running := \<not> is_running s\<rparr>
      in s\<lparr>console := console s @ [Teris_running (is_running s)]\<rparr>)"

definition tetris_reset :: "(nat \<Rightarrow> u64) \<Rightarrow> tetris \<Rightarrow> tetris" where
  "tetris_reset tsc s =
     (if \<not> started s then s
      else let s = s\<lparr>grid := grid_from (gmem s)\<rparr>;
               s = s\<lparr>gmem := init_grid False (grid s) (gmem s)\<rparr>
           in s\<lparr>blk := new_block tsc (blk s), is_running := True\<rparr>)"

definition tetris_init :: "image \<Rightarrow> tetris \<Rightarrow> tetris" where
  "tetris_init i s =
     (let s = s\<lparr>grid := grid_from (gmem s)\<rparr>;
          s = s\<lparr>blk := block_from i (gmem s)\<rparr>;
          yellow = MAKE_BYTE COLOR_BLACK COLOR_YELLOW;
          m = print_text_with_color 19 15 ''Press [Enter] to start the Demo: {Game: TETRIS}'' yellow (gmem s);
          m = print_text_with_color 15 15 ''VM STATE     :   READY'' yellow m;
          m = print_text_with_color 16 15 ''Hypervisor   :   ZeldaOS'' yellow m;
          m = print_text_with_color 17 15 ''Acrhitecture :   x86_64'' yellow m
      in s\<lparr>gmem := m\<rparr>)"

section \<open>Interrupt handlers\<close>

text \<open>\<^verbatim>\<open>inb\<close> is the byte read from the keyboard's port, \<^verbatim>\<open>junk\<close> what the uninitialised variable holds.\<close>

definition guest_try_retrieve_scancode :: "u8 \<Rightarrow> u8 \<Rightarrow> u8 \<times> u8" where
  "guest_try_retrieve_scancode inb scancode = (if inb = 0 then (0, scancode) else (1, inb))"

definition keyboard_interrupt_handler :: "u8 \<Rightarrow> u8 \<Rightarrow> (nat \<Rightarrow> u64) \<Rightarrow> tetris \<Rightarrow> tetris result" where
  "keyboard_interrupt_handler inb junk tsc s =
     (let code = snd (guest_try_retrieve_scancode inb junk) in
      if code = 0x1c then Inr (tetris_start tsc s)
      else if code = 0x13 then (if ctrl_down s \<noteq> 0 then Inr (tetris_reset tsc s) else Inr s)
      else if code = 0x1d then Inr (s\<lparr>ctrl_down := 1\<rparr>)
      else if code = 0x9d then Inr (s\<lparr>ctrl_down := 0\<rparr>)
      else if code = 0x50 then on_key_arrow_down tsc s
      else if code = 0x4b then on_key_arrow_left s
      else if code = 0x4d then on_key_arrow_right s
      else if code = 0x39 then on_key_blank s
      else Inr s)"

definition timer_interrupt_handler :: "u64 \<Rightarrow> (nat \<Rightarrow> u64) \<Rightarrow> tetris \<Rightarrow> tetris result" where
  "timer_interrupt_handler tsc_now tsc s =
     (let s = (if tsc_last s = 0 then s\<lparr>tsc_last := tsc_now\<rparr> else s);
          tsc_diff = tsc_now - tsc_last s
      in if cpu_freq s = 0 then Inl Divide_error
         else let msec = 1000 * tsc_diff div cpu_freq s
              in if 500 \<le> msec then on_key_arrow_down tsc (s\<lparr>tsc_last := tsc_now\<rparr>) else Inr s)"

section \<open>Well-formed games\<close>

text \<open>
  The grid keeps its dimensions; a started game has a block of the shape and group it claims, whose
  cells lie inside the grid; and a game that runs has been started.
\<close>

definition grid_ok :: "grid \<Rightarrow> bool" where
  "grid_ok g \<longleftrightarrow> length g = GRID_HEIGHT \<and> (\<forall>r \<in> set g. length r = GRID_WIDTH)"

definition cells :: "shape_name \<Rightarrow> int \<Rightarrow> int \<Rightarrow> (int \<times> int) set" where
  "cells n x y = (\<lambda>(dx, dy). (x + dx, y + dy)) ` set (offsets n)"

definition block_ok :: "block \<Rightarrow> bool" where
  "block_ok b \<longleftrightarrow> (\<exists>gn n. grp b = Some gn \<and> shp b = Some n \<and> n \<in> set (shapes (group_object gn)) \<and>
     (\<forall>x y. (x, y) \<in> cells n (x_pos b) (y_pos b) \<longrightarrow> inside x y))"

definition tetris_ok :: "tetris \<Rightarrow> bool" where
  "tetris_ok s \<longleftrightarrow> grid_ok (grid s) \<and> (started s \<longrightarrow> block_ok (blk s)) \<and> (is_running s \<longrightarrow> started s) \<and> cpu_freq s \<noteq> 0"

lemma offsets_simps [simp]:
  "offsets Shape0 = [(0, 0), (1, 0), (1, 1), (2, 1)]" "offsets Shape1 = [(1, 0), (1, 1), (0, 1), (0, 2)]"
  "offsets Shape2 = [(0, 0), (0, 1), (0, 2), (0, 3)]" "offsets Shape3 = [(0, 0), (1, 0), (2, 0), (3, 0)]"
  "offsets Shape4 = [(1, 0), (0, 1), (1, 1), (2, 1)]" "offsets Shape5 = [(0, 0), (0, 1), (1, 1), (0, 2)]"
  "offsets Shape6 = [(0, 0), (1, 0), (2, 0), (1, 1)]" "offsets Shape7 = [(1, 0), (0, 1), (1, 1), (1, 2)]"
  "offsets Shape8 = [(0, 0), (1, 0), (0, 1), (1, 1)]"
  by (simp_all add: offsets_def point_def MAKE_BYTE_def LOW_NIBBLE_def HIGH_NIBBLE_def)

lemma offsets_box: "(dx, dy) \<in> set (offsets n) \<Longrightarrow> 0 \<le> dx \<and> dx \<le> 3 \<and> 0 \<le> dy \<and> dy \<le> 3"
  by (cases n) auto

lemma cells_iff: "(x, y) \<in> cells n a b \<longleftrightarrow> (x - a, y - b) \<in> set (offsets n)"
  by (force simp: cells_def)

lemma rand_bounds:
  assumes "0 < k" "k < 2 ^ 31"
  shows "nat (rand t (of_nat k)) < k"
proof -
  have "unat (of_nat k :: u64) = k" using assms by (simp add: unat_of_nat_u64)
  then have m: "unat (t mod of_nat k) < k" using assms by (simp add: unat_mod)
  then have "unat (ucast (t mod of_nat k) :: u32) = unat (t mod of_nat k)"
    using assms by (simp add: unsigned_ucast_eq take_bit_nat_eq_self)
  moreover have "sint w = int (unat w)" if "unat w < 2 ^ 31" for w :: u32
    unfolding sint_uint using that by (simp add: signed_take_bit_int_eq_self uint_nat del: of_nat_unat)
  ultimately show ?thesis using m assms by (simp add: rand_def)
qed

lemma group_shapes [simp]: "length (shapes (group_object g)) = nr_shapes (group_object g)" "0 < nr_shapes (group_object g)"
    "nr_shapes (group_object g) \<le> 4"
  by (cases g; simp)+

lemma new_block_ok: "block_ok (new_block tsc b)"
proof -
  let ?g = "shape_grps ! nat (rand (tsc 0) (of_nat NR_SHAPE_TYPE))"
  let ?k = "nr_shapes (group_object ?g)"
  have "?k < 2 ^ 31" by (rule le_less_trans [OF group_shapes(3)]) simp
  then have "shapes (group_object ?g) ! nat (rand (tsc 1) (of_nat ?k)) \<in> set (shapes (group_object ?g))"
    using rand_bounds [of ?k] by simp
  then show ?thesis
    by (auto simp: block_ok_def new_block_def Let_def cells_def inside_def dest!: offsets_box)
qed

lemma plotted_new_block [simp]: "plotted (new_block tsc b) = plotted b"
  by (simp add: new_block_def Let_def)

lemma clash_loop_iff:
  "clash_loop g x y ps \<longleftrightarrow>
     (\<exists>(dx, dy) \<in> set ps. inside (x + dx) (y + dy) \<longrightarrow> is_set (g ! nat (y + dy) ! nat (x + dx)) \<noteq> 0)"
  by (induction ps) auto

lemma not_clashing:
  "is_block_clashing g b = Inr False \<longleftrightarrow> (\<exists>n. shp b = Some n \<and>
     (\<forall>x y. (x, y) \<in> cells n (x_pos b) (y_pos b) \<longrightarrow> inside x y \<and> is_set (g ! nat y ! nat x) = 0))"
  by (fastforce simp: is_block_clashing_def clash_loop_iff cells_def split: option.splits)

lemma rotate_block_ok:
  assumes "block_ok b"
  obtains n where "rotate_block b = Inr (b\<lparr>shp := Some n\<rparr>)" "n \<in> set (shapes (group_object (the (grp b))))"
proof -
  obtain gn where g: "grp b = Some gn" using assms by (auto simp: block_ok_def)
  let ?k = "nr_shapes (group_object gn)"
  let ?c = "shape_loop 0 (take ?k (shapes (group_object gn))) (shp b)"
  let ?i = "if ?c < 0 then 0 else (?c + 1) mod int ?k"
  have "?i < int ?k" using group_shapes(2) [of gn] by simp
  then have "nat ?i < ?k" using group_shapes(2) [of gn] by (simp add: nat_less_iff)
  then have "shapes (group_object gn) ! nat ?i \<in> set (shapes (group_object gn))" by simp
  then show thesis using that g by (simp add: rotate_block_def Let_def)
qed

lemma clashing_cases:
  assumes "shp b = Some n"
  obtains "is_block_clashing g b = Inr True" | "is_block_clashing g b = Inr False"
  using assms that by (auto simp: is_block_clashing_def)

lemma finalize_loop_ok:
  assumes "grid_ok g" "\<And>dx dy. (dx, dy) \<in> set ps \<Longrightarrow> inside (x + dx) (y + dy)"
  shows "\<exists>g'. finalize_loop c x y ps g = Inr g' \<and> grid_ok g'"
  using assms
proof (induction ps arbitrary: g)
  case (Cons p ps)
  obtain dx dy where p: "p = (dx, dy)" by (cases p)
  let ?i = "nat (y + dy)"
  have i: "?i < GRID_HEIGHT" using Cons.prems(2) [of dx dy] by (simp add: p inside_def nat_less_iff)
  have "grid_ok (g[?i := (g ! ?i)[nat (x + dx) := e]])" for e
    using Cons.prems(1) i by (auto simp: grid_ok_def dest!: set_update_subset_insert [THEN subsetD])
  then show ?case using Cons by (simp add: p)
qed simp

lemma finalize_block_ok:
  assumes "grid_ok (grid s)" "block_ok (blk s)"
  obtains g where "finalize_block s = Inr (s\<lparr>grid := g\<rparr>)" "grid_ok g"
proof -
  obtain n where n: "shp (blk s) = Some n" "\<And>x y. (x, y) \<in> cells n (x_pos (blk s)) (y_pos (blk s)) \<Longrightarrow> inside x y"
    using assms(2) by (auto simp: block_ok_def)
  then have "inside (x_pos (blk s) + dx) (y_pos (blk s) + dy)" if "(dx, dy) \<in> set (offsets n)" for dx dy
    using that by (simp add: cells_iff)
  from finalize_loop_ok [OF assms(1) this] obtain g where
    "finalize_loop (color (blk s)) (x_pos (blk s)) (y_pos (blk s)) (offsets n) (grid s) = Inr g" "grid_ok g" by blast
  then show thesis using that n(1) by (simp add: finalize_block_def Let_def)
qed

section \<open>Purging\<close>

lemma rows_left_loop_eq:
  "rows_left_loop n g rl k = (rl @ rev (filter (\<lambda>i. \<not> row_full (g ! i)) [0..<n]), k + length (filter (\<lambda>i. row_full (g ! i)) [0..<n]))"
  by (induction n arbitrary: rl k) simp_all

text \<open>Copying in place is safe because a row never moves up: its source is not below its target.\<close>

lemma copy_loop_law:
  assumes "sorted_wrt (>) rows" "\<forall>r \<in> set rows. r < n" "length rows \<le> n" "n \<le> length g"
  shows "\<exists>g'. copy_loop (int n - 1) rows g = (int n - 1 - int (length rows), g') \<and> length g' = length g \<and>
    (\<forall>i < length g. g' ! i = (if i < n \<and> n - length rows \<le> i then g ! (rows ! (n - 1 - i)) else g ! i))"
  using assms
proof (induction rows arbitrary: n g)
  case (Cons r rows)
  obtain k where n: "n = Suc k" using Cons.prems(3) by (cases n) simp_all
  let ?g = "g[k := g ! r]"
  have lt: "\<forall>s \<in> set rows. s < k" using Cons.prems(1,2) by (auto simp: n)
  have p: "sorted_wrt (>) rows" "length rows \<le> k" "k \<le> length ?g" using Cons.prems by (simp_all add: n)
  from Cons.IH [OF p(1) lt p(2,3)] obtain g' where
    g': "copy_loop (int k - 1) rows ?g = (int k - 1 - int (length rows), g')" "length g' = length g"
      "\<And>i. i < length g \<Longrightarrow> g' ! i = (if i < k \<and> k - length rows \<le> i then ?g ! (rows ! (k - 1 - i)) else ?g ! i)"
    by auto
  have k: "k < length g" "r \<le> k" using Cons.prems(2,4) by (auto simp: n)
  have "g' ! i = (if i < n \<and> n - length (r # rows) \<le> i then g ! ((r # rows) ! (n - 1 - i)) else g ! i)"
    if i: "i < length g" for i
  proof (cases "i < k \<and> k - length rows \<le> i")
    case True
    then have j: "k - 1 - i < length rows" "k - i = Suc (k - 1 - i)" by arith+
    then have "rows ! (k - 1 - i) < k" using lt by simp
    then show ?thesis using g'(3) [OF i] True j by (simp add: n)
  next
    case False
    then show ?thesis using g'(3) [OF i] k by (auto simp: n nth_list_update)
  qed
  then show ?case using g'(1,2) by (simp add: n)
qed auto

lemma length_empty_loop [simp]: "length (empty_loop n g) = length g"
  by (induction n arbitrary: g) simp_all

lemma empty_loop_nth:
  "n \<le> length g \<Longrightarrow> i < length g \<Longrightarrow> empty_loop n g ! i = (if i < n then map (\<lambda>e. e\<lparr>is_set := 0\<rparr>) (g ! i) else g ! i)"
  by (induction n arbitrary: g) (auto simp: nth_list_update less_Suc_eq)

lemma filter_nth: "filter P xs = map ((!) xs) (filter (\<lambda>i. P (xs ! i)) [0..<length xs])"
proof -
  have "filter P xs = filter P (map ((!) xs) [0..<length xs])" by (simp add: map_nth)
  then show ?thesis by (simp add: filter_map comp_def)
qed

text \<open>What purging does to the rows: those that are not full move down in order, the rest are empty.\<close>

lemma purge_rows:
  assumes "grid_ok g" "0 < k"
    and k: "k = length (filter row_full g)"
    and r: "rows = rev (filter (\<lambda>i. \<not> row_full (g ! i)) [0..<GRID_HEIGHT])"
    and c: "copy_loop (int GRID_HEIGHT - 1) rows g = (t, g')"
  shows "nat (t + 1) = k" "drop k (empty_loop (nat (t + 1)) g') = filter (\<lambda>r. \<not> row_full r) g"
    "list_all (list_all (\<lambda>e. is_set e = 0)) (take k (empty_loop (nat (t + 1)) g'))" "grid_ok (empty_loop (nat (t + 1)) g')"
proof -
  have len: "length g = GRID_HEIGHT" using assms(1) by (simp add: grid_ok_def)
  have "length rows = length (filter (\<lambda>r. \<not> row_full r) g)" using filter_nth [of "\<lambda>r. \<not> row_full r" g] by (simp add: r len)
  then have lr: "length rows + k = GRID_HEIGHT" using sum_length_filter_compl [of row_full g] k len by simp
  have "sorted_wrt (>) rows" unfolding r sorted_wrt_rev by (rule sorted_wrt_filter) simp
  moreover have rows: "\<forall>i \<in> set rows. i < GRID_HEIGHT" by (simp add: r)
  ultimately obtain h where h: "copy_loop (int GRID_HEIGHT - 1) rows g = (int GRID_HEIGHT - 1 - int (length rows), h)" "length h = length g"
      "\<And>i. i < length g \<Longrightarrow> h ! i = (if i < GRID_HEIGHT \<and> GRID_HEIGHT - length rows \<le> i then g ! (rows ! (GRID_HEIGHT - 1 - i)) else g ! i)"
    using copy_loop_law [of rows GRID_HEIGHT g] lr len by auto
  have t: "g' = h" "t = int GRID_HEIGHT - 1 - int (length rows)" using c h(1) by simp_all
  then show tk: "nat (t + 1) = k" using lr by simp
  have e: "empty_loop k h ! i = (if i < k then map (\<lambda>e. e\<lparr>is_set := 0\<rparr>) (g ! i) else g ! (rows ! (GRID_HEIGHT - 1 - i)))"
    if "i < GRID_HEIGHT" for i
    using that lr h(2) h(3) [of i] len by (auto simp: empty_loop_nth)
  show "drop k (empty_loop (nat (t + 1)) g') = filter (\<lambda>r. \<not> row_full r) g"
  proof (rule nth_equalityI)
    show "length (drop k (empty_loop (nat (t + 1)) g')) = length (filter (\<lambda>r. \<not> row_full r) g)"
      using lr h(2) len \<open>length rows = _\<close> by (simp add: t(1))
    fix q assume "q < length (drop k (empty_loop (nat (t + 1)) g'))"
    then have q: "q < length rows" using lr h(2) len by (simp add: t(1))
    have "filter (\<lambda>r. \<not> row_full r) g = map ((!) g) (rev rows)" using filter_nth [of "\<lambda>r. \<not> row_full r" g] by (simp add: r len)
    moreover have "GRID_HEIGHT - 1 - (k + q) = length rows - Suc q" using lr by simp
    ultimately show "drop k (empty_loop (nat (t + 1)) g') ! q = filter (\<lambda>r. \<not> row_full r) g ! q"
      using e [of "k + q"] q lr h(2) len by (simp add: tk t(1) rev_nth)
  qed
  show "list_all (list_all (\<lambda>e. is_set e = 0)) (take k (empty_loop (nat (t + 1)) g'))"
    using e lr h(2) len by (auto simp: tk t(1) list_all_length)
  have "length (empty_loop k h ! i) = GRID_WIDTH" if "i < GRID_HEIGHT" for i
    using e [OF that] assms(1) that lr rows by (auto simp: grid_ok_def len)
  then show "grid_ok (empty_loop (nat (t + 1)) g')"
    using h(2) len by (auto simp: grid_ok_def tk t(1) in_set_conv_nth)
qed

lemma purge_grid_eq:
  assumes "grid_ok (grid s)" and k: "k = length (filter row_full (grid s))"
  obtains "k = 0" "purge_grid s = s"
  | t g' where "0 < k" "copy_loop (int GRID_HEIGHT - 1) (rev (filter (\<lambda>i. \<not> row_full (grid s ! i)) [0..<GRID_HEIGHT])) (grid s) = (t, g')"
    "purge_grid s = s\<lparr>score := score s + of_nat k, console := console s @ [Current_score (score s + of_nat k)],
        grid := empty_loop (nat (t + 1)) g'\<rparr>"
proof -
  let ?rows = "rev (filter (\<lambda>i. \<not> row_full (grid s ! i)) [0..<GRID_HEIGHT])"
  have "length (filter (\<lambda>i. row_full (grid s ! i)) [0..<GRID_HEIGHT]) = k"
    using filter_nth [of row_full "grid s"] assms(1) by (simp add: k grid_ok_def)
  then have e: "rows_left_loop GRID_HEIGHT (grid s) [] 0 = (?rows, k)" by (simp add: rows_left_loop_eq)
  obtain t g' where c: "copy_loop (int GRID_HEIGHT - 1) ?rows (grid s) = (t, g')" by fastforce
  show thesis
  proof (cases "k = 0")
    case True
    then show thesis using that(1) e by (simp add: purge_grid_def)
  next
    case False
    then show thesis using that(2) [OF _ c] e c by (simp add: purge_grid_def Let_def)
  qed
qed

lemma purge_grid_ok:
  assumes "grid_ok (grid s)"
  obtains sc c g where "purge_grid s = s\<lparr>score := sc, console := c, grid := g\<rparr>" "grid_ok g"
proof (cases rule: purge_grid_eq [OF assms refl])
  case 1
  then show thesis using that [where sc = "score s" and c = "console s" and g = "grid s"] assms by simp
next
  case (2 t g')
  then show thesis using that purge_rows(4) [OF assms 2(1) refl refl 2(2)] by blast
qed

text \<open>
  C13 (purging). Purging removes exactly the full rows: the rows that are not full keep their order, their
  cells and their colours and move down to the bottom of the grid, as many empty rows as were
  removed appear above them, and the score grows by that number.  A grid without a full row stays
  as it is.
\<close>

theorem purge_removes_full_rows:
  assumes "grid_ok (grid s)" "k = length (filter row_full (grid s))"
  shows "drop k (grid (purge_grid s)) = filter (\<lambda>r. \<not> row_full r) (grid s) \<and>
    list_all (list_all (\<lambda>e. is_set e = 0)) (take k (grid (purge_grid s))) \<and> length (grid (purge_grid s)) = GRID_HEIGHT \<and>
    score (purge_grid s) = score s + of_nat k"
proof (cases rule: purge_grid_eq [OF assms])
  case 1
  then have "filter row_full (grid s) = []" using assms(2) by simp
  then have "filter (\<lambda>r. \<not> row_full r) (grid s) = grid s" by (simp add: filter_empty_conv filter_id_conv)
  then show ?thesis using 1 assms(1) by (simp add: grid_ok_def)
next
  case (2 t g')
  then show ?thesis using purge_rows [OF assms(1) 2(1) assms(2) refl 2(2)] by (simp add: grid_ok_def)
qed

section \<open>What the screen shows\<close>

text \<open>
  Every cell of the grid shows the grid, except that the cells of a plotted block may show the
  block; and a game that runs has a block that overlaps no occupied cell.  The game is drawn when all
  the cells of its block show the block and all others the grid.
\<close>

definition shows_grid :: "grid \<Rightarrow> mem \<Rightarrow> nat \<Rightarrow> nat \<Rightarrow> bool" where
  "shows_grid g m x y \<longleftrightarrow> cell m (int y + GRID_ASIS_Y) (int x + GRID_AXIS_X) = elem_cell (g ! y ! x)"

definition block_cells :: "block \<Rightarrow> (int \<times> int) set" where
  "block_cells b = (case shp b of None \<Rightarrow> {} | Some n \<Rightarrow> cells n (x_pos b) (y_pos b))"

definition shows_block :: "block \<Rightarrow> mem \<Rightarrow> nat \<Rightarrow> nat \<Rightarrow> bool" where
  "shows_block b m x y \<longleftrightarrow> plotted b \<noteq> 0 \<and> (int x, int y) \<in> block_cells b \<and>
     cell m (int y + GRID_ASIS_Y) (int x + GRID_AXIS_X) = (0x20, of_int (MAKE_BYTE (color b) COLOR_WHITE))"

definition coherent :: "tetris \<Rightarrow> bool" where
  "coherent s \<longleftrightarrow>
     (\<forall>x < GRID_WIDTH. \<forall>y < GRID_HEIGHT. shows_grid (grid s) (gmem s) x y \<or> shows_block (blk s) (gmem s) x y) \<and>
     (is_running s \<longrightarrow> is_block_clashing (grid s) (blk s) = Inr False)"

definition drawn :: "tetris \<Rightarrow> bool" where
  "drawn s \<longleftrightarrow> (\<forall>x < GRID_WIDTH. \<forall>y < GRID_HEIGHT.
     if (int x, int y) \<in> block_cells (blk s) then shows_block (blk s) (gmem s) x y else shows_grid (grid s) (gmem s) x y)"

lemma grid_on_screen: "x < GRID_WIDTH \<Longrightarrow> y < GRID_HEIGHT \<Longrightarrow> on_screen (int y + GRID_ASIS_Y) (int x + GRID_AXIS_X)"
  by (simp add: on_screen_def)

lemma inside_on_screen: "inside x y \<Longrightarrow> on_screen (y + GRID_ASIS_Y) (x + GRID_AXIS_X)"
  by (simp add: on_screen_def inside_def)

lemma plot_loop_cell:
  assumes "\<And>dx dy. (dx, dy) \<in> set ps \<Longrightarrow> on_screen (yb + dy) (xb + dx)" "on_screen r c"
  shows "cell (plot_loop ch attr xb yb ps m) r c = (if (c - xb, r - yb) \<in> set ps then (ch, attr) else cell m r c)"
  using assms(1)
proof (induction ps arbitrary: m)
  case (Cons p ps)
  obtain dx dy where p: "p = (dx, dy)" by (cases p)
  have "on_screen (yb + dy) (xb + dx)" using Cons.prems by (simp add: p)
  from cell_put_cell [OF this assms(2)]
  have "cell (put_cell ch attr (yb + dy) (xb + dx) m) r c = (if (dx, dy) = (c - xb, r - yb) then (ch, attr) else cell m r c)"
    by auto
  moreover have "cell (plot_loop ch attr xb yb ps m') r c = (if (c - xb, r - yb) \<in> set ps then (ch, attr) else cell m' r c)" for m'
    using Cons by simp
  ultimately show ?case by (auto simp: p)
qed simp

lemma put_row_cell:
  assumes "\<And>x. x < n \<Longrightarrow> on_screen r (int x + a)" "on_screen r' c'"
  shows "cell (fold (\<lambda>x. case f x of (ch, attr) \<Rightarrow> put_cell ch attr r (int x + a)) [0..<n] m) r' c' =
    (if r = r' \<and> a \<le> c' \<and> c' < a + int n then f (nat (c' - a)) else cell m r' c')"
  using assms(1)
proof (induction n)
  case (Suc n)
  have "on_screen r (int n + a)" using Suc.prems by simp
  note put = cell_put_cell [OF this assms(2)]
  obtain ch attr where f: "f n = (ch, attr)" by fastforce
  show ?case
  proof (cases "r = r' \<and> int n + a = c'")
    case True
    then show ?thesis using f put by auto
  next
    case False
    then show ?thesis using Suc f by (auto simp: put)
  qed
qed auto

lemma put_rows_cell:
  assumes "k \<le> GRID_HEIGHT" "x < GRID_WIDTH" "y < GRID_HEIGHT"
  shows "cell (fold (\<lambda>y. fold (\<lambda>x. case elem_cell (g ! y ! x) of (ch, attr) \<Rightarrow>
      put_cell ch attr (int y + GRID_ASIS_Y) (int x + GRID_AXIS_X)) [0..<GRID_WIDTH]) [0..<k] m)
      (int y + GRID_ASIS_Y) (int x + GRID_AXIS_X) =
    (if y < k then elem_cell (g ! y ! x) else cell m (int y + GRID_ASIS_Y) (int x + GRID_AXIS_X))"
  using assms(1)
proof (induction k)
  case (Suc k)
  have "on_screen (int k + GRID_ASIS_Y) (int x' + GRID_AXIS_X)" if "x' < GRID_WIDTH" for x'
    using that Suc.prems by (intro grid_on_screen) simp_all
  note put_row_cell [OF this grid_on_screen [OF assms(2,3)], of GRID_WIDTH]
  then show ?case using Suc assms(2) by (auto simp: less_Suc_eq)
qed simp

lemma fold_cell_other:
  "(\<And>p m. p \<in> set ps \<Longrightarrow> cell (f p m) r c = cell m r c) \<Longrightarrow> cell (fold f ps m) r c = cell m r c"
  by (induction ps arbitrary: m) auto

lemma frame_cell_other:
  assumes "x < GRID_WIDTH" "y < GRID_HEIGHT" "on_screen r c" "r = 24 \<or> c = 61 \<or> c = 78"
  shows "cell (frame_cell r c m) (int y + GRID_ASIS_Y) (int x + GRID_AXIS_X) = cell m (int y + GRID_ASIS_Y) (int x + GRID_AXIS_X)"
  using assms by (auto simp: frame_cell_def cell_put_cell grid_on_screen)

lemma init_grid_shows:
  assumes "x < GRID_WIDTH" "y < GRID_HEIGHT"
  shows "shows_grid g (init_grid inner g m) x y"
proof -
  have "cell (fold (frame_cell 24) [GRID_AXIS_X - 1 .. GRID_AXIS_X + int GRID_WIDTH] m) (int y + GRID_ASIS_Y) (int x + GRID_AXIS_X) =
      cell m (int y + GRID_ASIS_Y) (int x + GRID_AXIS_X)" for m
    by (rule fold_cell_other, rule frame_cell_other [OF assms]) (auto simp: on_screen_def)
  moreover have "cell (fold (\<lambda>y m. frame_cell y (GRID_AXIS_X + int GRID_WIDTH) (frame_cell y (GRID_AXIS_X - 1) m))
      [GRID_ASIS_Y .. GRID_ASIS_Y + int GRID_HEIGHT - 1] m) (int y + GRID_ASIS_Y) (int x + GRID_AXIS_X) =
      cell m (int y + GRID_ASIS_Y) (int x + GRID_AXIS_X)" for m
  proof (rule fold_cell_other)
    fix p m assume "p \<in> set [GRID_ASIS_Y .. GRID_ASIS_Y + int GRID_HEIGHT - 1]"
    then have "on_screen p 78" "on_screen p 61" by (auto simp: on_screen_def)
    then show "cell (frame_cell p (GRID_AXIS_X + int GRID_WIDTH) (frame_cell p (GRID_AXIS_X - 1) m)) (int y + GRID_ASIS_Y) (int x + GRID_AXIS_X) =
        cell m (int y + GRID_ASIS_Y) (int x + GRID_AXIS_X)"
      using frame_cell_other [OF assms] by simp
  qed
  ultimately show ?thesis
    unfolding shows_grid_def init_grid_def Let_def using put_rows_cell [OF order_refl assms] assms by simp
qed

lemma off_screen_plot_loop:
  "(\<And>dx dy. (dx, dy) \<in> set ps \<Longrightarrow> on_screen (yb + dy) (xb + dx)) \<Longrightarrow> off_screen_same m m' \<Longrightarrow>
   off_screen_same m (plot_loop ch attr xb yb ps m')"
  by (induction ps arbitrary: m') (auto simp: off_screen_put_cell)

lemma off_screen_init_grid: "off_screen_same m (init_grid inner g m)"
proof -
  let ?m = "fold (\<lambda>y. fold (\<lambda>x. case elem_cell (g ! y ! x) of (ch, attr) \<Rightarrow>
      put_cell ch attr (int y + GRID_ASIS_Y) (int x + GRID_AXIS_X)) [0..<GRID_WIDTH]) [0..<GRID_HEIGHT] m"
  have g: "off_screen_same m ?m"
    by (intro off_screen_fold off_screen_refl) (auto intro!: off_screen_put_cell grid_on_screen split: prod.splits)
  let ?m' = "fold (frame_cell 24) [GRID_AXIS_X - 1 .. GRID_AXIS_X + int GRID_WIDTH] ?m"
  have f: "off_screen_same m ?m'"
    unfolding frame_cell_def by (rule off_screen_fold [OF off_screen_put_cell g]) (auto simp: on_screen_def)
  have "off_screen_same m (fold (\<lambda>y m. frame_cell y (GRID_AXIS_X + int GRID_WIDTH) (frame_cell y (GRID_AXIS_X - 1) m))
      [GRID_ASIS_Y .. GRID_ASIS_Y + int GRID_HEIGHT - 1] ?m')"
    by (rule off_screen_fold [OF _ f]) (auto simp: frame_cell_def on_screen_def intro!: off_screen_put_cell)
  then show ?thesis using g unfolding init_grid_def Let_def by simp
qed

abbreviation all_shown :: "grid \<Rightarrow> mem \<Rightarrow> bool" where
  "all_shown g m \<equiv> \<forall>x < GRID_WIDTH. \<forall>y < GRID_HEIGHT. shows_grid g m x y"

lemma cells_on_screen:
  assumes "\<And>x y. (x, y) \<in> cells n a b \<Longrightarrow> inside x y" "(dx, dy) \<in> set (offsets n)"
  shows "on_screen (b + GRID_ASIS_Y + dy) (a + GRID_AXIS_X + dx)"
proof -
  have "inside (a + dx) (b + dy)" using assms by (simp add: cells_iff)
  from inside_on_screen [OF this] show ?thesis by (simp add: algebra_simps)
qed

lemma plot_loop_shows:
  assumes "\<And>x y. (x, y) \<in> cells n a b \<Longrightarrow> inside x y" "x < GRID_WIDTH" "y < GRID_HEIGHT"
  shows "cell (plot_loop ch attr (a + GRID_AXIS_X) (b + GRID_ASIS_Y) (offsets n) m) (int y + GRID_ASIS_Y) (int x + GRID_AXIS_X) =
    (if (int x, int y) \<in> cells n a b then (ch, attr) else cell m (int y + GRID_ASIS_Y) (int x + GRID_AXIS_X))"
  by (subst plot_loop_cell [OF cells_on_screen [OF assms(1)]]) (use assms(2,3) grid_on_screen in \<open>simp_all add: cells_iff\<close>)

lemma unplot_block_ok:
  assumes "block_ok (blk s)"
  obtains m where "unplot_block s = Inr (s\<lparr>gmem := m, blk := (blk s)\<lparr>plotted := 0\<rparr>\<rparr>)"
    "coherent s \<and> is_running s \<longrightarrow> all_shown (grid s) m" "off_screen_same (gmem s) m"
proof (cases "plotted (blk s) = 0")
  case True
  then have "unplot_block s = Inr (s\<lparr>gmem := gmem s, blk := (blk s)\<lparr>plotted := 0\<rparr>\<rparr>)" by (simp add: unplot_block_def)
  moreover have "coherent s \<and> is_running s \<longrightarrow> all_shown (grid s) (gmem s)" using True by (auto simp: coherent_def shows_block_def)
  ultimately show thesis by (rule that) simp
next
  case False
  obtain n where n: "shp (blk s) = Some n" "\<And>x y. (x, y) \<in> cells n (x_pos (blk s)) (y_pos (blk s)) \<Longrightarrow> inside x y"
    using assms by (auto simp: block_ok_def)
  let ?m = "unplot_shape n (x_pos (blk s)) (y_pos (blk s)) (gmem s)"
  have "unplot_block s = Inr (s\<lparr>gmem := ?m, blk := (blk s)\<lparr>plotted := 0\<rparr>\<rparr>)" using False n(1) by (simp add: unplot_block_def Let_def)
  moreover have "shows_grid (grid s) ?m x y"
    if c: "coherent s" "is_running s" and xy: "x < GRID_WIDTH" "y < GRID_HEIGHT" for x y
  proof (cases "(int x, int y) \<in> cells n (x_pos (blk s)) (y_pos (blk s))")
    case True
    moreover have "is_block_clashing (grid s) (blk s) = Inr False" using c by (simp add: coherent_def)
    ultimately have "is_set (grid s ! y ! x) = 0" using n(1) unfolding not_clashing by force
    then show ?thesis using plot_loop_shows [OF n(2) xy] True
      by (simp add: shows_grid_def unplot_shape_def elem_cell_def)
  next
    case False
    then show ?thesis using plot_loop_shows [OF n(2) xy] c(1) xy n(1)
      by (auto simp: shows_grid_def unplot_shape_def coherent_def shows_block_def block_cells_def)
  qed
  moreover have "off_screen_same (gmem s) ?m"
    unfolding unplot_shape_def by (rule off_screen_plot_loop [OF cells_on_screen [OF n(2)] off_screen_refl])
  ultimately show thesis using that by blast
qed

lemma plot_block_ok:
  assumes "shp (blk s) = Some n" "\<And>x y. (x, y) \<in> cells n (x_pos (blk s)) (y_pos (blk s)) \<Longrightarrow> inside x y"
  obtains m where "plot_block s = Inr (s\<lparr>gmem := m, blk := (blk s)\<lparr>plotted := 1\<rparr>\<rparr>)"
    "all_shown (grid s) (gmem s) \<longrightarrow> drawn (s\<lparr>gmem := m, blk := (blk s)\<lparr>plotted := 1\<rparr>\<rparr>)" "off_screen_same (gmem s) m"
proof -
  let ?m = "plot_shape n (color (blk s)) (x_pos (blk s)) (y_pos (blk s)) (gmem s)"
  have "plot_block s = Inr (s\<lparr>gmem := ?m, blk := (blk s)\<lparr>plotted := 1\<rparr>\<rparr>)" using assms(1) by (simp add: plot_block_def Let_def)
  moreover have "all_shown (grid s) (gmem s) \<longrightarrow> drawn (s\<lparr>gmem := ?m, blk := (blk s)\<lparr>plotted := 1\<rparr>\<rparr>)"
    using plot_loop_shows [OF assms(2)] assms(1)
    by (auto simp: drawn_def shows_grid_def plot_shape_def shows_block_def block_cells_def)
  moreover have "off_screen_same (gmem s) ?m"
    unfolding plot_shape_def by (rule off_screen_plot_loop [OF cells_on_screen [OF assms(2)] off_screen_refl])
  ultimately show thesis by (rule that)
qed

lemma drawn_coherent: "drawn s \<Longrightarrow> is_block_clashing (grid s) (blk s) = Inr False \<Longrightarrow> coherent s"
  unfolding drawn_def coherent_def by metis

section \<open>Keys keep the game well formed\<close>

text \<open>Redrawing a running game's block where it does not clash.\<close>

lemma redraw:
  assumes "tetris_ok s" "is_running s" "grp b = grp (blk s)" "shp b = Some n" "n \<in> set (shapes (group_object (the (grp b))))"
    "is_block_clashing (grid s) b = Inr False"
    and k: "\<And>m. k (s\<lparr>gmem := m, blk := (blk s)\<lparr>plotted := 0\<rparr>\<rparr>) = plot_block (s\<lparr>gmem := m, blk := b\<lparr>plotted := 0\<rparr>\<rparr>)"
  obtains s' where "bind_result (unplot_block s) k = Inr s'" "tetris_ok s'" "coherent s \<longrightarrow> coherent s' \<and> drawn s'"
    "off_screen_same (gmem s) (gmem s')"
proof -
  have ok: "block_ok (blk s)" using assms(1,2) by (simp add: tetris_ok_def)
  have ins: "inside x y" if "(x, y) \<in> cells n (x_pos b) (y_pos b)" for x y
    using assms(4,6) that unfolding not_clashing by auto
  from unplot_block_ok [OF ok] obtain m where m: "unplot_block s = Inr (s\<lparr>gmem := m, blk := (blk s)\<lparr>plotted := 0\<rparr>\<rparr>)"
    "coherent s \<and> is_running s \<longrightarrow> all_shown (grid s) m" "off_screen_same (gmem s) m" .
  let ?s = "s\<lparr>gmem := m, blk := b\<lparr>plotted := 0\<rparr>\<rparr>" and ?s' = "\<lambda>m. s\<lparr>gmem := m, blk := b\<lparr>plotted := 1\<rparr>\<rparr>"
  obtain m' where m': "plot_block ?s = Inr (?s' m')" "all_shown (grid s) m \<longrightarrow> drawn (?s' m')" "off_screen_same m m'"
    using plot_block_ok [of ?s n] assms(4) ins by auto
  have "tetris_ok (?s' m')" using assms(1-5) ok ins by (auto simp: tetris_ok_def block_ok_def)
  moreover have "is_block_clashing (grid (?s' m')) (blk (?s' m')) = Inr False" using assms(4,6) by (simp add: is_block_clashing_def)
  then have "coherent s \<longrightarrow> coherent (?s' m') \<and> drawn (?s' m')" using m(2) m'(2) drawn_coherent [of "?s' m'"] assms(2) by simp
  moreover have "off_screen_same (gmem s) (gmem (?s' m'))" using off_screen_trans [OF m(3) m'(3)] by simp
  moreover have "bind_result (unplot_block s) k = Inr (?s' m')" by (simp add: m(1) m'(1) k)
  ultimately show thesis using that by blast
qed

text \<open>
  What an operation of the game leaves: no fault, a well-formed game, a screen that shows it, and
  the rest of the memory as it was.
\<close>

definition keeps_game :: "tetris \<Rightarrow> tetris result \<Rightarrow> bool" where
  "keeps_game s r \<longleftrightarrow> (\<exists>s'. r = Inr s' \<and> tetris_ok s' \<and> off_screen_same (gmem s) (gmem s') \<and>
     (coherent s \<longrightarrow> coherent s' \<and> (s' = s \<or> \<not> is_running s' \<or> drawn s')))"

lemma redraw_keeps_game:
  assumes "tetris_ok s" "is_running s" "grp b = grp (blk s)" "shp b = Some n" "n \<in> set (shapes (group_object (the (grp b))))"
    "is_block_clashing (grid s) b = Inr False"
    "\<And>m. k (s\<lparr>gmem := m, blk := (blk s)\<lparr>plotted := 0\<rparr>\<rparr>) = plot_block (s\<lparr>gmem := m, blk := b\<lparr>plotted := 0\<rparr>\<rparr>)"
  shows "keeps_game s (bind_result (unplot_block s) k)"
  unfolding keeps_game_def by (rule redraw [OF assms]) blast

lemma keeps_game_same: "tetris_ok s \<Longrightarrow> keeps_game s (Inr s)"
  by (simp add: keeps_game_def)

lemma running_block:
  assumes "tetris_ok s" "is_running s"
  obtains n where "shp (blk s) = Some n" "n \<in> set (shapes (group_object (the (grp (blk s)))))"
  using assms that by (auto simp: tetris_ok_def block_ok_def)

lemma plotted_last:
  "b\<lparr>plotted := p, x_pos := v\<rparr> = b\<lparr>x_pos := v, plotted := p\<rparr>" "b\<lparr>plotted := p, y_pos := v\<rparr> = b\<lparr>y_pos := v, plotted := p\<rparr>"
  "b\<lparr>plotted := p, shp := h\<rparr> = b\<lparr>shp := h, plotted := p\<rparr>" for b :: block
  by simp_all

lemma left_ok:
  assumes "tetris_ok s"
  shows "keeps_game s (on_key_arrow_left s)"
proof (cases "is_running s")
  case True
  let ?b = "(blk s)\<lparr>x_pos := x_pos (blk s) - 1\<rparr>"
  from running_block [OF assms True] obtain n where
    "shp (blk s) = Some n" "n \<in> set (shapes (group_object (the (grp (blk s)))))" .
  then have n: "shp ?b = Some n" "n \<in> set (shapes (group_object (the (grp ?b))))" by simp_all
  from n(1) show ?thesis
  proof (cases rule: clashing_cases [where g = "grid s"])
    case 2
    let ?k = "\<lambda>s. plot_block (s\<lparr>blk := (blk s)\<lparr>x_pos := x_pos (blk s) - 1\<rparr>\<rparr>)"
    have "on_key_arrow_left s = bind_result (unplot_block s) ?k" using 2 True by (simp add: on_key_arrow_left_def)
    moreover have "?k (s\<lparr>gmem := m, blk := (blk s)\<lparr>plotted := 0\<rparr>\<rparr>) = plot_block (s\<lparr>gmem := m, blk := ?b\<lparr>plotted := 0\<rparr>\<rparr>)" for m
      by (simp add: plotted_last)
    note redraw_keeps_game [OF assms True _ n 2 this]
    ultimately show ?thesis by simp
  qed (use assms in \<open>simp add: on_key_arrow_left_def True keeps_game_same\<close>)
qed (use assms in \<open>simp add: on_key_arrow_left_def keeps_game_same\<close>)

lemma right_ok:
  assumes "tetris_ok s"
  shows "keeps_game s (on_key_arrow_right s)"
proof (cases "is_running s")
  case True
  let ?b = "(blk s)\<lparr>x_pos := x_pos (blk s) + 1\<rparr>"
  from running_block [OF assms True] obtain n where
    "shp (blk s) = Some n" "n \<in> set (shapes (group_object (the (grp (blk s)))))" .
  then have n: "shp ?b = Some n" "n \<in> set (shapes (group_object (the (grp ?b))))" by simp_all
  from n(1) show ?thesis
  proof (cases rule: clashing_cases [where g = "grid s"])
    case 2
    let ?k = "\<lambda>s. plot_block (s\<lparr>blk := (blk s)\<lparr>x_pos := x_pos (blk s) + 1\<rparr>\<rparr>)"
    have "on_key_arrow_right s = bind_result (unplot_block s) ?k" using 2 True by (simp add: on_key_arrow_right_def)
    moreover have "?k (s\<lparr>gmem := m, blk := (blk s)\<lparr>plotted := 0\<rparr>\<rparr>) = plot_block (s\<lparr>gmem := m, blk := ?b\<lparr>plotted := 0\<rparr>\<rparr>)" for m
      by (simp add: plotted_last)
    note redraw_keeps_game [OF assms True _ n 2 this]
    ultimately show ?thesis by simp
  qed (use assms in \<open>simp add: on_key_arrow_right_def True keeps_game_same\<close>)
qed (use assms in \<open>simp add: on_key_arrow_right_def keeps_game_same\<close>)

lemma blank_ok:
  assumes "tetris_ok s"
  shows "keeps_game s (on_key_blank s)"
proof (cases "is_running s")
  case True
  have "block_ok (blk s)" using assms True by (simp add: tetris_ok_def)
  from rotate_block_ok [OF this] obtain n where r: "rotate_block (blk s) = Inr ((blk s)\<lparr>shp := Some n\<rparr>)"
    and n: "n \<in> set (shapes (group_object (the (grp ((blk s)\<lparr>shp := Some n\<rparr>)))))" by auto
  have r': "rotate_block ((blk s)\<lparr>plotted := 0\<rparr>) = Inr ((blk s)\<lparr>plotted := 0, shp := Some n\<rparr>)"
    using r by (auto simp: rotate_block_def Let_def split: option.splits dest!: arg_cong [where f = shp])
  have sn: "shp ((blk s)\<lparr>shp := Some n\<rparr>) = Some n" by simp
  then show ?thesis
  proof (cases rule: clashing_cases [where g = "grid s"])
    case 2
    let ?k = "\<lambda>s. bind_result (rotate_block (blk s)) (\<lambda>b. plot_block (s\<lparr>blk := b\<rparr>))"
    have "on_key_blank s = bind_result (unplot_block s) ?k" using 2 True by (simp add: on_key_blank_def r)
    moreover have "?k (s\<lparr>gmem := m, blk := (blk s)\<lparr>plotted := 0\<rparr>\<rparr>) =
        plot_block (s\<lparr>gmem := m, blk := (blk s)\<lparr>shp := Some n, plotted := 0\<rparr>\<rparr>)" for m
      by (simp add: plotted_last r')
    note redraw_keeps_game [OF assms True _ sn n 2 this]
    ultimately show ?thesis by simp
  qed (use assms in \<open>simp add: on_key_blank_def True r keeps_game_same\<close>)
qed (use assms in \<open>simp add: on_key_blank_def keeps_game_same\<close>)

text \<open>Landing: the block becomes part of the grid, full rows go, and a new block appears or the game ends.\<close>

lemma land:
  assumes "tetris_ok s" "is_running s"
  obtains g sc c h where "finalize_block s = Inr (s\<lparr>grid := g\<rparr>)"
    "purge_grid (s\<lparr>grid := g\<rparr>) = s\<lparr>score := sc, console := c, grid := h\<rparr>" "grid_ok h"
proof -
  have "grid_ok (grid s)" "block_ok (blk s)" using assms by (simp_all add: tetris_ok_def)
  from finalize_block_ok [OF this] obtain g where g: "finalize_block s = Inr (s\<lparr>grid := g\<rparr>)" "grid_ok g" .
  have "grid_ok (grid (s\<lparr>grid := g\<rparr>))" using g(2) by simp
  from purge_grid_ok [OF this] obtain sc c h where
    h: "purge_grid (s\<lparr>grid := g\<rparr>) = s\<lparr>grid := g, score := sc, console := c, grid := h\<rparr>" "grid_ok h" .
  show thesis by (rule that [OF g(1) _ h(2), where sc = sc and c = c]) (simp add: h(1))
qed

text \<open>What the code does once a new block has been made: it ends the game or shows the block.\<close>

definition enter :: "tetris \<Rightarrow> tetris result" where
  "enter s0 = bind_result (is_block_clashing (grid s0) (blk s0)) (\<lambda>clash.
       if clash then Inr (s0\<lparr>is_running := False, console := console s0 @ [Teris_running False]\<rparr>) else plot_block s0)"

lemma new_game_ok:
  assumes "tetris_ok s" "is_running s" "grid_ok g" "all_shown g m"
    and s0: "s0 = s\<lparr>score := sc, console := c, grid := g, gmem := m, blk := new_block tsc (blk s)\<rparr>"
  obtains s' where
    "enter s0 = Inr s'"
    "tetris_ok s'" "coherent s'" "\<not> is_running s' \<or> drawn s'" "off_screen_same m (gmem s')"
proof -
  have b: "block_ok (blk s0)" by (simp add: s0 new_block_ok)
  then obtain n where n: "shp (blk s0) = Some n" "\<And>x y. (x, y) \<in> cells n (x_pos (blk s0)) (y_pos (blk s0)) \<Longrightarrow> inside x y"
    by (auto simp: block_ok_def)
  have ok: "tetris_ok s0" "all_shown (grid s0) (gmem s0)" using assms(1-4) b by (simp_all add: tetris_ok_def s0 new_block_ok)
  from n(1) show thesis
  proof (cases rule: clashing_cases [where g = "grid s0"])
    case 1
    let ?s = "s0\<lparr>is_running := False, console := console s0 @ [Teris_running False]\<rparr>"
    have "tetris_ok ?s" "coherent ?s" "\<not> is_running ?s \<or> drawn ?s" "off_screen_same m (gmem ?s)" using ok s0 by (simp_all add: coherent_def tetris_ok_def)
    moreover have "enter s0 = Inr ?s" using 1 by (simp add: enter_def)
    ultimately show thesis using that by blast
  next
    case 2
    let ?s = "\<lambda>m. s0\<lparr>gmem := m, blk := (blk s0)\<lparr>plotted := 1\<rparr>\<rparr>"
    from plot_block_ok [OF n] obtain m' where
      m': "plot_block s0 = Inr (?s m')" "all_shown (grid s0) (gmem s0) \<longrightarrow> drawn (?s m')" "off_screen_same (gmem s0) m'" .
    have "is_block_clashing (grid (?s m')) (blk (?s m')) = Inr False" using 2 n(1) by (simp add: is_block_clashing_def)
    then have "coherent (?s m')" "drawn (?s m')" using m'(2) ok(2) drawn_coherent [of "?s m'"] by simp_all
    moreover have "tetris_ok (?s m')" using ok(1) by (simp add: tetris_ok_def block_ok_def)
    moreover have "off_screen_same m (gmem (?s m'))" using m'(3) by (simp add: s0)
    moreover have "enter s0 = Inr (s0\<lparr>gmem := m', blk := (blk s0)\<lparr>plotted := 1\<rparr>\<rparr>)" using 2 m'(1) by (simp add: enter_def)
    ultimately show thesis using that by blast
  qed
qed

lemma landing:
  assumes "tetris_ok s" "is_running s" "is_block_clashing (grid s) ((blk s)\<lparr>y_pos := y_pos (blk s) + 1\<rparr>) = Inr True"
  obtains sc c h s0 where "s0 = s\<lparr>score := sc, console := c, grid := h, gmem := init_grid True h (gmem s), blk := new_block tsc (blk s)\<rparr>"
    "grid_ok h" "on_key_arrow_down tsc s = enter s0"
proof -
  from land [OF assms(1,2)] obtain g sc c h where l: "finalize_block s = Inr (s\<lparr>grid := g\<rparr>)"
    "purge_grid (s\<lparr>grid := g\<rparr>) = s\<lparr>score := sc, console := c, grid := h\<rparr>" "grid_ok h" .
  show thesis
    by (rule that [OF refl l(3)]) (simp add: on_key_arrow_down_def l(1,2) assms(2,3) Let_def enter_def cong: if_cong)
qed

lemma down_ok:
  assumes "tetris_ok s"
  shows "keeps_game s (on_key_arrow_down tsc s)"
proof (cases "is_running s")
  case True
  let ?b = "(blk s)\<lparr>y_pos := y_pos (blk s) + 1\<rparr>"
  from running_block [OF assms True] obtain n where
    "shp (blk s) = Some n" "n \<in> set (shapes (group_object (the (grp (blk s)))))" .
  then have n: "shp ?b = Some n" "n \<in> set (shapes (group_object (the (grp ?b))))" by simp_all
  from n(1) show ?thesis
  proof (cases rule: clashing_cases [where g = "grid s"])
    case 1
    from landing [OF assms True 1] obtain sc c h s0 where
      l: "s0 = s\<lparr>score := sc, console := c, grid := h, gmem := init_grid True h (gmem s), blk := new_block tsc (blk s)\<rparr>"
        "grid_ok h" "on_key_arrow_down tsc s = enter s0" .
    have "all_shown h (init_grid True h (gmem s))" using init_grid_shows by blast
    from new_game_ok [OF assms True l(2) this l(1)] obtain s' where "enter s0 = Inr s'" "tetris_ok s'" "coherent s'"
      "\<not> is_running s' \<or> drawn s'" "off_screen_same (init_grid True h (gmem s)) (gmem s')" .
    moreover have "off_screen_same (gmem s) (init_grid True h (gmem s))" by (rule off_screen_init_grid)
    ultimately show ?thesis using off_screen_trans l(3) by (auto simp: keeps_game_def)
  next
    case 2
    let ?k = "\<lambda>s. plot_block (s\<lparr>blk := (blk s)\<lparr>y_pos := y_pos (blk s) + 1\<rparr>\<rparr>)"
    have "on_key_arrow_down tsc s = bind_result (unplot_block s) ?k" using 2 True by (simp add: on_key_arrow_down_def)
    moreover have "?k (s\<lparr>gmem := m, blk := (blk s)\<lparr>plotted := 0\<rparr>\<rparr>) = plot_block (s\<lparr>gmem := m, blk := ?b\<lparr>plotted := 0\<rparr>\<rparr>)" for m
      by (simp add: plotted_last)
    note redraw_keeps_game [OF assms True _ n 2 this]
    ultimately show ?thesis by simp
  qed
qed (use assms in \<open>simp add: on_key_arrow_down_def keeps_game_same\<close>)

section \<open>Runs of the game\<close>

text \<open>
  C12 (the screen shows the game). In a well-formed game whose screen is in order, every move key and
  every step down returns without a fault and keeps the game and its screen in order, and unless it
  changes nothing or ends the game it leaves the screen exactly drawn: the cells of the block show the
  block in its colour, all other cells of the grid show the grid.
\<close>

theorem moves_draw_game:
  assumes "tetris_ok s" "coherent s"
    and "r \<in> {on_key_arrow_left s, on_key_arrow_right s, on_key_blank s, on_key_arrow_down tsc s}"
  shows "\<exists>s'. r = Inr s' \<and> tetris_ok s' \<and> coherent s' \<and> (s' = s \<or> \<not> is_running s' \<or> drawn s')"
proof -
  have "keeps_game s r" using assms(3) left_ok [OF assms(1)] right_ok [OF assms(1)] blank_ok [OF assms(1)] down_ok [OF assms(1)] by auto
  then show ?thesis using assms(2) by (auto simp: keeps_game_def)
qed

text \<open>The interrupts the game reacts to, and a run of them.\<close>

datatype game_event = Key u8 u8 "nat \<Rightarrow> u64" | Tick u64 "nat \<Rightarrow> u64"

fun handle_event :: "game_event \<Rightarrow> tetris \<Rightarrow> tetris result" where
  "handle_event (Key inb junk tsc) s = keyboard_interrupt_handler inb junk tsc s"
| "handle_event (Tick tsc_now tsc) s = timer_interrupt_handler tsc_now tsc s"

primrec play :: "game_event list \<Rightarrow> tetris \<Rightarrow> tetris result" where
  "play [] s = Inr s"
| "play (e # es) s = bind_result (handle_event e s) (play es)"

definition safe_step :: "tetris \<Rightarrow> tetris result \<Rightarrow> bool" where
  "safe_step s r \<longleftrightarrow> (\<exists>s'. r = Inr s' \<and> tetris_ok s' \<and> off_screen_same (gmem s) (gmem s'))"

lemma keeps_game_safe: "keeps_game s r \<Longrightarrow> safe_step s r"
  by (auto simp: keeps_game_def safe_step_def)

lemma grid_from_ok: "grid_ok (grid_from m)"
  by (auto simp: grid_ok_def grid_from_def)

lemma start_safe:
  assumes "tetris_ok s"
  shows "safe_step s (Inr (tetris_start tsc s))"
proof -
  have "off_screen_same (gmem s) (init_grid False (grid s) (video_remap (gmem s)))"
    by (rule off_screen_trans [OF off_screen_video_remap off_screen_init_grid])
  then show ?thesis using assms by (auto simp: safe_step_def tetris_start_def Let_def tetris_ok_def new_block_ok)
qed

lemma reset_safe:
  assumes "tetris_ok s"
  shows "safe_step s (Inr (tetris_reset tsc s))"
  using assms off_screen_init_grid by (auto simp: safe_step_def tetris_reset_def Let_def tetris_ok_def new_block_ok grid_from_ok)

lemma keyboard_safe:
  assumes "tetris_ok s"
  shows "safe_step s (keyboard_interrupt_handler inb junk tsc s)"
proof -
  have "safe_step s (Inr (s\<lparr>ctrl_down := c\<rparr>))" for c using assms by (simp add: safe_step_def tetris_ok_def)
  moreover have "safe_step s (Inr s)" using assms by (simp add: safe_step_def)
  ultimately show ?thesis
    using start_safe [OF assms] reset_safe [OF assms] keeps_game_safe [OF down_ok [OF assms]] keeps_game_safe [OF left_ok [OF assms]]
      keeps_game_safe [OF right_ok [OF assms]] keeps_game_safe [OF blank_ok [OF assms]]
    by (simp add: keyboard_interrupt_handler_def Let_def)
qed

lemma timer_safe:
  assumes "tetris_ok s"
  shows "safe_step s (timer_interrupt_handler tsc_now tsc s)"
proof -
  have ok: "tetris_ok (s\<lparr>tsc_last := t\<rparr>)" for t using assms by (simp add: tetris_ok_def)
  have "safe_step s (on_key_arrow_down tsc (s\<lparr>tsc_last := t\<rparr>))" for t
    using keeps_game_safe [OF down_ok [OF ok]] by (simp add: safe_step_def)
  moreover have "safe_step s (Inr (s\<lparr>tsc_last := t\<rparr>))" "safe_step s (Inr s)" for t using ok assms by (simp_all add: safe_step_def)
  moreover have "cpu_freq s \<noteq> 0" using assms by (simp add: tetris_ok_def)
  ultimately show ?thesis by (simp add: timer_interrupt_handler_def Let_def)
qed

lemma play_safe: "tetris_ok s \<Longrightarrow> safe_step s (play es s)"
proof (induction es arbitrary: s)
  case (Cons e es)
  have "safe_step s (handle_event e s)" using Cons.prems keyboard_safe timer_safe by (cases e) simp_all
  then obtain s' where s': "handle_event e s = Inr s'" "tetris_ok s'" "off_screen_same (gmem s) (gmem s')"
    by (auto simp: safe_step_def)
  with Cons.IH [OF s'(2)] show ?case using off_screen_trans by (auto simp: safe_step_def)
qed (simp add: safe_step_def)

lemma tetris_init_ok: "\<not> started s \<Longrightarrow> \<not> is_running s \<Longrightarrow> cpu_freq s \<noteq> 0 \<Longrightarrow> tetris_ok (tetris_init i s)"
  by (simp add: tetris_ok_def tetris_init_def Let_def grid_from_ok)

lemma off_screen_tetris_init: "off_screen_same (gmem s) (gmem (tetris_init i s))"
  unfolding tetris_init_def Let_def by (simp, intro off_screen_print_text_with_color) simp_all

text \<open>
  C11 (the game is memory safe). From the moment the game is initialised, whatever the bytes at address
  zero that it copies into its grid, every run of keyboard and timer interrupts, with any scan
  codes, stale values and time stamps, ends without following a stray pointer or leaving an array,
  in a well-formed game, and nothing outside the 4000 bytes of the text screen has been written by
  way of the screen pointers.
\<close>

theorem game_never_faults:
  assumes "\<not> started s" "\<not> is_running s" "cpu_freq s \<noteq> 0"
  shows "\<exists>s'. play es (tetris_init i s) = Inr s' \<and> tetris_ok s' \<and> off_screen_same (gmem s) (gmem s')"
proof -
  from play_safe [OF tetris_init_ok [OF assms]] obtain s' where
    s': "play es (tetris_init i s) = Inr s'" "tetris_ok s'" "off_screen_same (gmem (tetris_init i s)) (gmem s')"
    by (auto simp: safe_step_def)
  from off_screen_trans [OF off_screen_tetris_init s'(3)] show ?thesis using s'(1,2) by blast
qed

text \<open>
  Pressing the start key after the game has ended sets it running again although its block overlaps
  occupied cells: the state the end of the game was meant to rule out.
\<close>

lemma start_after_end_clashes:
  assumes "tetris_ok s" "is_running s" "on_key_arrow_down tsc s = Inr s'" "\<not> is_running s'"
  shows "is_running (tetris_start tsc' s') \<and>
    is_block_clashing (grid (tetris_start tsc' s')) (blk (tetris_start tsc' s')) = Inr True"
proof -
  have st: "started s" using assms(1,2) by (simp add: tetris_ok_def)
  let ?b = "(blk s)\<lparr>y_pos := y_pos (blk s) + 1\<rparr>"
  from running_block [OF assms(1,2)] obtain n where
    "shp (blk s) = Some n" "n \<in> set (shapes (group_object (the (grp (blk s)))))" .
  then have "shp ?b = Some n" by simp
  then have "started s' \<and> is_block_clashing (grid s') (blk s') = Inr True"
  proof (cases rule: clashing_cases [where g = "grid s"])
    case 1
    from landing [OF assms(1,2) 1] obtain sc c h s0 where
      l: "s0 = s\<lparr>score := sc, console := c, grid := h, gmem := init_grid True h (gmem s), blk := new_block tsc (blk s)\<rparr>"
        "grid_ok h" "on_key_arrow_down tsc s = enter s0" .
    then have r: "enter s0 = Inr s'" "is_running s0" "started s0" using assms(2,3) st by simp_all
    have "is_running s'" if "plot_block s0 = Inr s'" using that r(2) by (auto simp: plot_block_def Let_def split: option.splits)
    then show ?thesis using r assms(4) by (auto simp: enter_def bind_result_eq_Inr split: if_splits)
  next
    case 2
    then have "is_running s'" using assms(2,3)
      by (auto simp: on_key_arrow_down_def bind_result_eq_Inr plot_block_def unplot_block_def Let_def split: option.splits if_splits)
    then show ?thesis using assms(4) by simp
  qed
  then show ?thesis using assms(4) by (simp add: tetris_start_def Let_def)
qed

section \<open>A concrete game\<close>

definition sample_block :: block where
  "sample_block = \<lparr>plotted = 0, x_pos = 8, y_pos = 0, color = COLOR_RED, shp = Some Shape8, grp = Some Grp3\<rparr>"

definition sample_game :: tetris where
  "sample_game = \<lparr>grid = replicate GRID_HEIGHT (replicate GRID_WIDTH \<lparr>is_set = 0, elem_color = 0\<rparr>), blk = sample_block, is_running = True,
     started = True, score = 0, gmem = init_grid True (replicate GRID_HEIGHT (replicate GRID_WIDTH \<lparr>is_set = 0, elem_color = 0\<rparr>)) (\<lambda>_. 0),
     console = [], ctrl_down = 0, tsc_last = 0, cpu_freq = 2000000000\<rparr>"

lemma sample_game_ok: "tetris_ok sample_game" "coherent sample_game"
proof -
  have "block_ok sample_block" by (auto simp: block_ok_def sample_block_def cells_def inside_def)
  then show "tetris_ok sample_game" by (simp add: tetris_ok_def sample_game_def grid_ok_def)
  have "is_block_clashing (grid sample_game) sample_block = Inr False"
    by (simp add: sample_game_def is_block_clashing_def sample_block_def inside_def)
  then show "coherent sample_game" using init_grid_shows by (simp add: coherent_def sample_game_def)
qed

theorem moves_draw_game_witness:
  "\<exists>s'. on_key_arrow_left sample_game = Inr s' \<and> coherent s'"
  using moves_draw_game [OF sample_game_ok, of "on_key_arrow_left sample_game"] by auto

theorem game_never_faults_witness:
  "\<exists>s'. play [Key 0x1c 0 (\<lambda>_. 7), Tick 5 (\<lambda>_. 7), Key 0x4b 0 (\<lambda>_. 7)]
     (tetris_init \<lparr>shape_at = (\<lambda>_. None), group_at = (\<lambda>_. None)\<rparr> (sample_game\<lparr>started := False, is_running := False\<rparr>)) = Inr s' \<and> tetris_ok s'"
  using game_never_faults [of "sample_game\<lparr>started := False, is_running := False\<rparr>"
      "[Key 0x1c 0 (\<lambda>_. 7), Tick 5 (\<lambda>_. 7), Key 0x4b 0 (\<lambda>_. 7)]" "\<lparr>shape_at = (\<lambda>_. None), group_at = (\<lambda>_. None)\<rparr>"]
  by (auto simp: sample_game_def)

definition full_row_game :: tetris where
  "full_row_game = sample_game\<lparr>grid := (grid sample_game)[19 := replicate GRID_WIDTH \<lparr>is_set = 1, elem_color = 4\<rparr>,
     18 := (replicate GRID_WIDTH \<lparr>is_set = 1, elem_color = 5\<rparr>)[3 := \<lparr>is_set = 0, elem_color = 0\<rparr>]]\<rparr>"

theorem purge_removes_full_rows_witness:
  "drop 1 (grid (purge_grid full_row_game)) = take 19 (grid full_row_game) \<and> score (purge_grid full_row_game) = 1"
proof -
  have g: "grid full_row_game = replicate 18 (replicate GRID_WIDTH \<lparr>is_set = 0, elem_color = 0\<rparr>) @
      [(replicate GRID_WIDTH \<lparr>is_set = 1, elem_color = 5\<rparr>)[3 := \<lparr>is_set = 0, elem_color = 0\<rparr>], replicate GRID_WIDTH \<lparr>is_set = 1, elem_color = 4\<rparr>]"
    by (simp add: full_row_game_def sample_game_def numeral_eq_Suc)
  have "grid_ok (grid full_row_game)" by (auto simp: g grid_ok_def)
  moreover have "filter row_full (grid full_row_game) = [replicate GRID_WIDTH \<lparr>is_set = 1, elem_color = 4\<rparr>]"
    "filter (\<lambda>r. \<not> row_full r) (grid full_row_game) = take 19 (grid full_row_game)"
    by (simp_all add: g row_full_def filter_replicate numeral_eq_Suc)
  moreover have "score full_row_game = 0" by (simp add: full_row_game_def sample_game_def)
  ultimately show ?thesis using purge_removes_full_rows [of full_row_game 1] by simp
qed

end
