(* ===== verification/Guest_Devices.thy ===== *)
theory Guest_Devices
  imports Vmx_Exit Descriptors Tetris
begin

text \<open>
  The guest's use of its devices: \<open>guest/interrupt.c\<close>, \<open>guest/pit.c\<close>, \<open>guest/serial.c\<close>, \<open>guest/lib.c\<close> and the
  port instructions of \<open>guest/portio.c\<close>.  Every port instruction of the guest exits to
  the monitor, so an access is a run of the monitor's handler of such exits.
\<close>

section \<open>Port instructions\<close>

text \<open>What the processor reports for a one-byte port instruction with the port in a register: bit 3 is the direction.\<close>

definition io_exit :: "u64 \<Rightarrow> u16 \<Rightarrow> vmexit_info" where
  "io_exit direction port = \<lparr>basic_reason = 30, exit_qualification = push_bit 16 (ucast port) OR push_bit 3 direction,
     guest_linear_addr = 0, guest_physical_addr = 0, exit_instruction_length = 1, instruction_info = 0\<rparr>"

definition guest_outb :: "u16 \<Rightarrow> u8 \<Rightarrow> monitor \<Rightarrow> monitor result" where
  "guest_outb port val s =
     io_instruction_exit_sub_handler (io_exit 0 port) (set_vcpu (rax_update (\<lambda>r. bf_set 0 8 (ucast val) r)) s)"

definition guest_inb :: "u16 \<Rightarrow> monitor \<Rightarrow> (u8 \<times> monitor) result" where
  "guest_inb port s =
     bind_result (io_instruction_exit_sub_handler (io_exit 1 port) s) (\<lambda>s. Inr (ucast (rax (vcpu (vm s))), s))"

fun guest_outbs :: "(u16 \<times> u8) list \<Rightarrow> monitor \<Rightarrow> monitor result" where
  "guest_outbs [] s = Inr s"
| "guest_outbs ((port, val) # ws) s = bind_result (guest_outb port val s) (guest_outbs ws)"

section \<open>Interrupt controller and timer\<close>

definition pic_remap :: "monitor \<Rightarrow> monitor result" where
  "pic_remap = guest_outbs
     [(0x21, 0xff), (0xa1, 0xff), (0x20, 0x11), (0xa0, 0x11), (0x21, 0x20), (0xa1, 0x28),
      (0x21, 0x04), (0xa1, 0x02), (0x21, 0x01), (0xa1, 0x01), (0x21, 0x00), (0xa1, 0x00)]"

abbreviation TIMER_RESOLUTION_HZ :: int where "TIMER_RESOLUTION_HZ \<equiv> 100"

definition refresh_pit_channel0 :: "monitor \<Rightarrow> monitor result" where
  "refresh_pit_channel0 =
     (let divisor = 1193182 div TIMER_RESOLUTION_HZ
      in guest_outbs [(0x43, 0x36), (0x40, of_int (divisor mod 256)), (0x40, of_int (divisor div 256 mod 256))])"

section \<open>Serial line\<close>

definition is_transmit_empty :: "monitor \<Rightarrow> (u8 \<times> monitor) result" where
  "is_transmit_empty s = bind_result (guest_inb (0x3f8 + 5) s) (\<lambda>(b, s). Inr (b AND 0x20, s))"

partial_function (option) transmit_wait :: "monitor \<Rightarrow> monitor result option" where
  "transmit_wait s =
     (case is_transmit_empty s of Inl e \<Rightarrow> Some (Inl e) | Inr (b, s) \<Rightarrow> if b = 0 then transmit_wait s else Some (Inr s))"

definition write_serial :: "u8 \<Rightarrow> monitor \<Rightarrow> monitor result" where
  "write_serial a s =
     (case transmit_wait s of None \<Rightarrow> Inl Not_returned | Some r \<Rightarrow> bind_result r (guest_outb 0x3f8 a))"

fun print_string :: "u8 list \<Rightarrow> monitor \<Rightarrow> monitor result" where
  "print_string [] s = Inr s"
| "print_string (c # content) s = bind_result (write_serial c s) (print_string content)"

definition serial_init :: "monitor \<Rightarrow> monitor result" where
  "serial_init = guest_outbs [(0x3f9, 0x01), (0x3fb, 0x80), (0x3f8, 0x03), (0x3f9, 0x00), (0x3fb, 0x03), (0x3fa, 0xc7), (0x3fc, 0x0b)]"

section \<open>Laws of the port instructions\<close>

definition devices :: "monitor \<Rightarrow> bool" where
  "devices s \<longleftrightarrow> device_preinit [] = Inr (portio_ops s)"

lemma device_found:
  assumes "devices s" "device_table (ucast port) = Some x"
  obtains i where "search_portio_callback (ucast (port :: u16)) (portio_ops s) = Inr (Some i)" "portio_ops s ! i = x"
proof -
  from device_ports_law assms have "pio_lookup (ucast port) (portio_ops s) = Inr (Some x)" by (auto simp: devices_def)
  then show thesis using that by (auto simp: pio_lookup_def bind_result_eq_Inr)
qed

lemma io_exit_fields:
  assumes "d = 0 \<or> d = 1"
  shows "exit_qualification (io_exit d port) AND 7 = 0" "drop_bit 3 (exit_qualification (io_exit d port)) AND 1 = d"
    "ucast (drop_bit 16 (exit_qualification (io_exit d port)) AND 0xffff) = port"
    "drop_bit 4 (exit_qualification (io_exit d port)) AND 1 = 0" "drop_bit 5 (exit_qualification (io_exit d port)) AND 1 = 0"
    "drop_bit 6 (exit_qualification (io_exit d port)) AND 1 = 0"
proof -
  let ?q = "exit_qualification (io_exit d port)"
  have b: "bit ?q n = (16 \<le> n \<and> n < 32 \<and> bit port (n - 16) \<or> n = 3 \<and> d = 1)" for n
    using assms bit_imp_le_length [of port "n - 16"] by (auto simp: io_exit_def bit_simps not_le)
  have m: "x AND 7 = take_bit 3 x" "x AND 0xffff = take_bit 16 x" for x :: u64 by (simp_all add: take_bit_eq_mask mask_numeral)
  show "?q AND 7 = 0" unfolding m by (rule bit_word_eqI) (auto simp: b bit_simps)
  show "drop_bit 3 ?q AND 1 = d" using assms by (intro bit_word_eqI) (auto simp: b bit_simps bit_1_iff)
  show "ucast (drop_bit 16 ?q AND 0xffff) = port" unfolding m by (rule bit_word_eqI) (auto simp: b bit_simps)
  show "drop_bit 4 ?q AND 1 = 0" "drop_bit 5 ?q AND 1 = 0" "drop_bit 6 ?q AND 1 = 0"
    by (rule bit_word_eqI, auto simp: b bit_simps bit_1_iff)+
qed

lemma guest_outb_eq:
  assumes "devices s" "device_table (ucast port) = Some x" "call_outb x = Some f"
  shows "guest_outb port val s =
    bind_result (run_outb f (ucast port) val (set_vcpu (rax_update (\<lambda>r. bf_set 0 8 (ucast val) r)) s)) (\<lambda>s. Inr (GOTO_NEXT_INSTRUCTION 1 s))"
proof -
  let ?s = "set_vcpu (rax_update (\<lambda>r. bf_set 0 8 (ucast val) r)) s"
  from device_found [OF assms(1,2)] obtain i where "search_portio_callback (ucast port) (portio_ops ?s) = Inr (Some i)" "portio_ops ?s ! i = x"
    by (auto simp: set_vcpu_def)
  moreover have "ucast (rax (vcpu (vm ?s))) = val" by (rule bit_word_eqI) (auto simp: set_vcpu_def bit_simps bit_bf_set)
  moreover have "exit_instruction_length (io_exit 0 port) = 1" by (simp add: io_exit_def)
  ultimately show ?thesis using assms(3)
    by (simp add: guest_outb_def io_instruction_exit_sub_handler_def io_exit_fields io_access_def)
qed

lemma guest_inb_eq:
  assumes "devices s" "device_table (ucast port) = Some x" "call_inb x = Some f" "run_inb f (ucast port) s = Inr b"
  shows "guest_inb port s = Inr (b, GOTO_NEXT_INSTRUCTION 1 (set_vcpu (rax_update (\<lambda>_. ucast b)) s))"
proof -
  from device_found [OF assms(1,2)] obtain i where "search_portio_callback (ucast port) (portio_ops s) = Inr (Some i)" "portio_ops s ! i = x" .
  moreover have "exit_instruction_length (io_exit 1 port) = 1" by (simp add: io_exit_def)
  moreover have "ucast (ucast b :: u64) = b" by (rule bit_word_eqI) (simp add: bit_simps)
  ultimately show ?thesis using assms(3,4)
    by (simp add: guest_inb_def io_instruction_exit_sub_handler_def io_exit_fields io_access_def set_vcpu_def)
qed

section \<open>What an access leaves alone\<close>

text \<open>
  \<^verbatim>\<open>chip_frame\<close>: an access to the interrupt controller or the timer changes no more than these
  and the state of the virtual processor.  \<^verbatim>\<open>io_frame\<close>: an access to the serial line may also
  use the line buffer and print.
\<close>

definition chip_frame :: "monitor \<Rightarrow> monitor \<Rightarrow> bool" where
  "chip_frame s s' \<longleftrightarrow> (\<exists>f c p t. s' = s\<lparr>vmcs := f, vm := (vm s)\<lparr>vcpu := c, pic := p, pit := t\<rparr>\<rparr>)"

definition io_frame :: "monitor \<Rightarrow> monitor \<Rightarrow> bool" where
  "io_frame s s' \<longleftrightarrow> outside_line s s' \<and>
     (\<exists>m f out n c p t. s' = s\<lparr>host := (host s)\<lparr>kmem := m\<rparr>, vmcs := f, serial_out := out,
       vm := (vm s)\<lparr>serial_line_iptr := n, vcpu := c, pic := p, pit := t\<rparr>\<rparr>)"

lemma chip_frameI: "s' = s\<lparr>vmcs := f, vm := (vm s)\<lparr>vcpu := c, pic := p, pit := t\<rparr>\<rparr> \<Longrightarrow> chip_frame s s'"
  by (auto simp: chip_frame_def)

lemma io_frameI:
  "outside_line s s' \<Longrightarrow> s' = s\<lparr>host := (host s)\<lparr>kmem := m\<rparr>, vmcs := f, serial_out := out,
     vm := (vm s)\<lparr>serial_line_iptr := n, vcpu := c, pic := p, pit := t\<rparr>\<rparr> \<Longrightarrow> io_frame s s'"
  unfolding io_frame_def by blast

lemma io_frameE:
  assumes "io_frame s s'"
  obtains m f out n c p t where "outside_line s s'" "s' = s\<lparr>host := (host s)\<lparr>kmem := m\<rparr>, vmcs := f, serial_out := out,
     vm := (vm s)\<lparr>serial_line_iptr := n, vcpu := c, pic := p, pit := t\<rparr>\<rparr>"
  using assms unfolding io_frame_def by blast

lemma io_frame_refl [simp]: "io_frame s s"
  by (rule io_frameI [where m = "kmem (host s)" and f = "vmcs s" and out = "serial_out s" and n = "serial_line_iptr (vm s)" and
      c = "vcpu (vm s)" and p = "pic (vm s)" and t = "pit (vm s)"])
    (simp_all add: outside_line_def)

lemma outside_line_trans: "outside_line s s' \<Longrightarrow> outside_line s' s'' \<Longrightarrow> outside_line s s''"
  by (simp add: outside_line_def)

lemma io_frame_trans:
  assumes "io_frame s s'" "io_frame s' s''"
  shows "io_frame s s''"
proof -
  have "outside_line s s''" using assms outside_line_trans by (auto simp: io_frame_def)
  with assms show ?thesis by (elim io_frameE) (rule io_frameI, assumption, simp)
qed

lemma chip_io_frame:
  assumes "chip_frame s s'"
  shows "io_frame s s'"
proof -
  from assms obtain f c p t where s': "s' = s\<lparr>vmcs := f, vm := (vm s)\<lparr>vcpu := c, pic := p, pit := t\<rparr>\<rparr>" by (auto simp: chip_frame_def)
  show ?thesis
    by (rule io_frameI [where m = "kmem (host s)" and f = f and out = "serial_out s" and n = "serial_line_iptr (vm s)" and c = c and p = p and t = t])
      (simp_all add: s' outside_line_def)
qed

lemma chip_refl [simp]: "chip_frame s s"
  by (rule chip_frameI [where f = "vmcs s" and c = "vcpu (vm s)" and p = "pic (vm s)" and t = "pit (vm s)"]) simp

lemma chip_trans: "chip_frame s s' \<Longrightarrow> chip_frame s' s'' \<Longrightarrow> chip_frame s s''"
  by (elim chip_frame_def [THEN iffD1, elim_format] exE) (rule chip_frameI, simp)

lemma io_frame_fields:
  assumes "io_frame s s'"
  shows "portio_ops s' = portio_ops s" "kbd (vm s') = kbd (vm s)" "serial_line_buffer (vm s') = serial_line_buffer (vm s)"
    "vm_addr s' = vm_addr s" "vpid (vm s') = vpid (vm s)" "devices s' = devices s" "vmcs_supported s' = vmcs_supported s"
  using assms by (elim io_frameE; simp add: devices_def)+

lemma chip_line: "chip_frame s s' \<Longrightarrow> line_buffered s' l = line_buffered s l \<and> serial_out s' = serial_out s"
  by (auto simp: chip_frame_def line_buffered_def)

lemma next_chip: "chip_frame s (GOTO_NEXT_INSTRUCTION n s)"
proof -
  obtain f where "GOTO_NEXT_INSTRUCTION n s = s\<lparr>vmcs := f\<rparr>"
    using vmwrite_frame [of GUEST_RIP _ s] by (auto simp: GOTO_NEXT_INSTRUCTION_def)
  then show ?thesis by (intro chip_frameI [where f = f and c = "vcpu (vm s)" and p = "pic (vm s)" and t = "pit (vm s)"]) simp
qed

section \<open>Programming the interrupt controller and the timer\<close>

text \<open>The two devices on their own, with the ports they answer to.\<close>

definition device_write :: "u16 \<Rightarrow> u8 \<Rightarrow> pic8259_blob \<times> pit8253_blob \<Rightarrow> (pic8259_blob \<times> pit8253_blob) result" where
  "device_write port val d =
     (case d of (p, t) \<Rightarrow>
        if port \<in> {0x20, 0x21} then bind_result (master_pic_outb (ucast port) val p) (\<lambda>p. Inr (p, t))
        else if port \<in> {0xa0, 0xa1} then bind_result (slave_pic_outb (ucast port) val p) (\<lambda>p. Inr (p, t))
        else bind_result (pit_outb (ucast port) val t) (\<lambda>t. Inr (p, t)))"

fun device_writes :: "(u16 \<times> u8) list \<Rightarrow> pic8259_blob \<times> pit8253_blob \<Rightarrow> (pic8259_blob \<times> pit8253_blob) result" where
  "device_writes [] d = Inr d"
| "device_writes ((port, val) # ws) d = bind_result (device_write port val d) (device_writes ws)"

abbreviation chip_ports :: "u16 set" where "chip_ports \<equiv> {0x20, 0x21, 0xa0, 0xa1, 0x40, 0x43}"

definition chip_callback :: "u16 \<Rightarrow> outb_callback" where
  "chip_callback port = (if port \<in> {0x20, 0x21} then Master_pic_outb else if port \<in> {0xa0, 0xa1} then Slave_pic_outb else Pit_outb)"

lemma chip_table:
  assumes "port \<in> chip_ports"
  shows "\<exists>f. device_table (ucast port) = Some \<lparr>portid = ucast port, call_inb = f, call_outb = Some (chip_callback port)\<rparr>"
  using assms by (elim insertE emptyE; simp add: device_table_def chip_callback_def)

lemma chip_callback_runs:
  assumes "device_write port val (pic (vm s), pit (vm s)) = Inr (p, t)"
  shows "run_outb (chip_callback port) (ucast port) val s = Inr (s\<lparr>vm := (vm s)\<lparr>pic := p, pit := t\<rparr>\<rparr>)"
proof (cases "port \<in> {0x20, 0x21}")
  case True
  then have "master_pic_outb (ucast port) val (pic (vm s)) = Inr p" "t = pit (vm s)"
    using assms by (simp_all add: device_write_def bind_result_eq_Inr)
  then show ?thesis using True by (simp add: chip_callback_def set_pic_def)
next
  case m: False
  show ?thesis
  proof (cases "port \<in> {0xa0, 0xa1}")
    case True
    then have "slave_pic_outb (ucast port) val (pic (vm s)) = Inr p" "t = pit (vm s)"
      using assms m by (simp_all add: device_write_def bind_result_eq_Inr)
    then show ?thesis using True m by (simp add: chip_callback_def set_pic_def)
  next
    case False
    then have "pit_outb (ucast port) val (pit (vm s)) = Inr t" "p = pic (vm s)"
      using assms m by (simp_all add: device_write_def bind_result_eq_Inr)
    then show ?thesis using False m by (simp add: chip_callback_def set_pit_def)
  qed
qed

lemma guest_outb_device:
  assumes "devices s" "port \<in> chip_ports" "device_write port val (pic (vm s), pit (vm s)) = Inr (p, t)"
  shows "\<exists>s'. guest_outb port val s = Inr s' \<and> chip_frame s s' \<and> pic (vm s') = p \<and> pit (vm s') = t"
proof -
  let ?s = "set_vcpu (rax_update (\<lambda>r. bf_set 0 8 (ucast val) r)) s"
  let ?s' = "?s\<lparr>vm := (vm ?s)\<lparr>pic := p, pit := t\<rparr>\<rparr>"
  obtain f where f: "device_table (ucast port) = Some \<lparr>portid = ucast port, call_inb = f, call_outb = Some (chip_callback port)\<rparr>"
    using chip_table [OF assms(2)] by blast
  have v: "pic (vm ?s) = pic (vm s)" "pit (vm ?s) = pit (vm s)" by (simp_all add: set_vcpu_def)
  have "run_outb (chip_callback port) (ucast port) val ?s = Inr ?s'"
    by (rule chip_callback_runs) (use assms(3) in \<open>simp only: v\<close>)
  then have "guest_outb port val s = Inr (GOTO_NEXT_INSTRUCTION 1 ?s')" using guest_outb_eq [OF assms(1) f] by simp
  moreover have "chip_frame s ?s'" by (rule chip_frameI [where f = "vmcs s"]) (simp add: set_vcpu_def)
  then have "chip_frame s (GOTO_NEXT_INSTRUCTION 1 ?s')" by (rule chip_trans [OF _ next_chip])
  moreover have "vm (GOTO_NEXT_INSTRUCTION 1 ?s') = vm ?s'" by simp
  ultimately show ?thesis by simp
qed

lemma guest_outbs_devices:
  assumes "devices s" "set (map fst ws) \<subseteq> chip_ports" "device_writes ws (pic (vm s), pit (vm s)) = Inr (p, t)"
  shows "\<exists>s'. guest_outbs ws s = Inr s' \<and> chip_frame s s' \<and> pic (vm s') = p \<and> pit (vm s') = t"
  using assms
proof (induction ws arbitrary: s)
  case Nil
  then show ?case by simp
next
  case (Cons w ws)
  obtain port val where w: "w = (port, val)" by (cases w)
  with Cons.prems obtain p1 t1 where d: "device_write port val (pic (vm s), pit (vm s)) = Inr (p1, t1)" "device_writes ws (p1, t1) = Inr (p, t)"
    by (auto simp: bind_result_eq_Inr)
  from guest_outb_device [OF Cons.prems(1) _ d(1)] Cons.prems(2) w obtain s1 where
    s1: "guest_outb port val s = Inr s1" "chip_frame s s1" "pic (vm s1) = p1" "pit (vm s1) = t1" by auto
  then have "devices s1" using io_frame_fields(6) [OF chip_io_frame] Cons.prems(1) by blast
  from Cons.IH [OF this] Cons.prems(2) d(2) s1 obtain s2 where
    s2: "guest_outbs ws s1 = Inr s2" "chip_frame s1 s2" "pic (vm s2) = p" "pit (vm s2) = t" by auto
  moreover have "chip_frame s s2" by (rule chip_trans [OF s1(2) s2(2)])
  ultimately show ?case using s1(1) w by simp
qed

definition remapped :: "pic8259_blob \<Rightarrow> pic8259_blob" where
  "remapped p = p\<lparr>master_pic_command := 0x11, slave_pic_command := 0x11, master_pic_data := 0, slave_pic_data := 0,
     is_master_pic_initializing := 0, is_slave_pic_initializing := 0, master_pic_offset := 0x20, slave_pic_offset := 0x28\<rparr>"

lemma pic_remap_ok:
  assumes "devices s"
  shows "\<exists>s'. pic_remap s = Inr s' \<and> chip_frame s s' \<and> pic (vm s') = remapped (pic (vm s)) \<and> pit (vm s') = pit (vm s)"
  unfolding pic_remap_def
  by (rule guest_outbs_devices [OF assms])
    (simp_all add: device_write_def master_pic_outb_def slave_pic_outb_def Let_def remapped_def)

lemma refresh_pit_channel0_ok:
  assumes "devices s"
  shows "\<exists>s'. refresh_pit_channel0 s = Inr s' \<and> chip_frame s s' \<and> pic (vm s') = pic (vm s) \<and>
    pit (vm s') = (pit (vm s))\<lparr>initial_counter := 2, divisor := 11931, threshold := 10\<rparr>"
  unfolding refresh_pit_channel0_def Let_def
  by (rule guest_outbs_devices [OF assms])
    (simp_all add: device_write_def pit_outb_def c_div_def Let_def)

section \<open>Printing\<close>

lemma transmit_wait_ok:
  assumes "devices s"
  shows "\<exists>s'. transmit_wait s = Some (Inr s') \<and> chip_frame s s' \<and> pic (vm s') = pic (vm s) \<and> pit (vm s') = pit (vm s)"
proof -
  let ?s = "GOTO_NEXT_INSTRUCTION 1 (set_vcpu (rax_update (\<lambda>_. 0x20)) s)"
  have t: "device_table (ucast (0x3fd :: u16)) = Some \<lparr>portid = 0x3fd, call_inb = Some Device_serial_inb, call_outb = Some Device_serial_outb\<rparr>"
    by (simp add: device_table_def)
  have "guest_inb 0x3fd s = Inr (0x20, ?s)"
    using guest_inb_eq [OF assms t, of Device_serial_inb "0x20"] by (simp add: device_serial_inb_def)
  then have "transmit_wait s = Some (Inr ?s)" by (subst transmit_wait.simps) (simp add: is_transmit_empty_def)
  moreover have "chip_frame s (set_vcpu (rax_update (\<lambda>_. 0x20)) s)"
    by (rule chip_frameI [where f = "vmcs s" and p = "pic (vm s)" and t = "pit (vm s)"]) (simp add: set_vcpu_def)
  then have "chip_frame s ?s" by (rule chip_trans [OF _ next_chip])
  moreover have "pic (vm ?s) = pic (vm s)" "pit (vm ?s) = pit (vm s)" by (simp_all add: set_vcpu_def)
  ultimately show ?thesis by blast
qed

lemma device_serial_frame:
  assumes "device_serial_outb port b s = Inr s'"
  shows "\<exists>m out n. s' = s\<lparr>host := (host s)\<lparr>kmem := m\<rparr>, vm := (vm s)\<lparr>serial_line_iptr := n\<rparr>, serial_out := out\<rparr>"
proof -
  let ?m = "(kmem (host s))(serial_line_buffer (vm s) + of_int (serial_line_iptr (vm s)) := b)"
  let ?s = "s\<lparr>host := (host s)\<lparr>kmem := ?m\<rparr>, vm := (vm s)\<lparr>serial_line_iptr := serial_line_iptr (vm s) + 1\<rparr>\<rparr>"
  consider "s' = ?s"
    | out where "s' = ?s\<lparr>serial_out := out, host := (host s)\<lparr>kmem := memset ?m (serial_line_buffer (vm s)) 0 PAGE_SIZE_4K\<rparr>,
        vm := (vm s)\<lparr>serial_line_iptr := 0\<rparr>\<rparr>"
    using assms unfolding device_serial_outb_def Let_def
    by (auto simp: bind_result_eq_Inr split: if_splits)
  then show ?thesis
  proof cases
    case 1
    then show ?thesis by (intro exI [of _ ?m] exI [of _ "serial_out s"] exI [of _ "serial_line_iptr (vm s) + 1"]) simp
  next
    case 2
    then show ?thesis
      by (intro exI [of _ "memset ?m (serial_line_buffer (vm s)) 0 PAGE_SIZE_4K"] exI [of _ out] exI [of _ 0]) simp
  qed
qed

lemma device_serial_io:
  assumes "device_serial_outb port b s = Inr s'" "outside_line s s'"
  shows "io_frame s s' \<and> pic (vm s') = pic (vm s) \<and> pit (vm s') = pit (vm s)"
proof -
  from device_serial_frame [OF assms(1)] obtain m out n where
    s': "s' = s\<lparr>host := (host s)\<lparr>kmem := m\<rparr>, vm := (vm s)\<lparr>serial_line_iptr := n\<rparr>, serial_out := out\<rparr>" by blast
  have "io_frame s s'"
    by (rule io_frameI [where m = m and f = "vmcs s" and out = out and n = n and c = "vcpu (vm s)" and p = "pic (vm s)" and t = "pit (vm s)"])
      (use assms(2) s' in simp_all)
  then show ?thesis using s' by simp
qed

lemma write_serial_ok:
  assumes "devices s" "line_buffered s pend"
  shows "\<exists>s'. write_serial b s = Inr s' \<and> io_frame s s' \<and> pic (vm s') = pic (vm s) \<and> pit (vm s') = pit (vm s) \<and>
    (if b = of_char (CHR 0x0A) \<or> length pend = 4094
     then line_buffered s' [] \<and>
       serial_out s' = serial_out s @ serial_prefix (vm_addr s) (vpid (vm s)) @ takeWhile (\<lambda>x. x \<noteq> 0) (pend @ [b])
     else line_buffered s' (pend @ [b]) \<and> serial_out s' = serial_out s)"
proof -
  from transmit_wait_ok [OF assms(1)] obtain s1 where
    s1: "transmit_wait s = Some (Inr s1)" "chip_frame s s1" "pic (vm s1) = pic (vm s)" "pit (vm s1) = pit (vm s)" by blast
  let ?s2 = "set_vcpu (rax_update (\<lambda>r. bf_set 0 8 (ucast b) r)) s1"
  have "chip_frame s1 ?s2"
    by (rule chip_frameI [where f = "vmcs s1" and p = "pic (vm s1)" and t = "pit (vm s1)"]) (simp add: set_vcpu_def)
  then have q2: "chip_frame s ?s2" by (rule chip_trans [OF s1(2)])
  note f2 = io_frame_fields [OF chip_io_frame [OF q2]]
  have l2: "line_buffered ?s2 pend" "serial_out ?s2 = serial_out s" using chip_line [OF q2] assms(2) by simp_all
  from serial_step [OF l2(1), of COM1_PORT_BASE b] obtain s3 where
    s3: "device_serial_outb COM1_PORT_BASE b ?s2 = Inr s3" "outside_line ?s2 s3"
      "if b = of_char (CHR 0x0A) \<or> length pend = 4094
       then line_buffered s3 [] \<and>
         serial_out s3 = serial_out ?s2 @ serial_prefix (vm_addr ?s2) (vpid (vm ?s2)) @ takeWhile (\<lambda>x. x \<noteq> 0) (pend @ [b])
       else line_buffered s3 (pend @ [b]) \<and> serial_out s3 = serial_out ?s2" by blast
  let ?s' = "GOTO_NEXT_INSTRUCTION 1 s3"
  have t: "device_table (ucast (0x3f8 :: u16)) = Some \<lparr>portid = 0x3f8, call_inb = Some Device_serial_inb, call_outb = Some Device_serial_outb\<rparr>"
    by (simp add: device_table_def)
  have "devices s1" using io_frame_fields(6) [OF chip_io_frame [OF s1(2)]] assms(1) by simp
  from guest_outb_eq [OF this t, of Device_serial_outb b] s3(1)
  have "write_serial b s = Inr ?s'" by (simp add: write_serial_def s1(1))
  moreover note io3 = device_serial_io [OF s3(1,2)]
  have "io_frame s ?s'"
    using io_frame_trans [OF io_frame_trans [OF chip_io_frame [OF q2]] chip_io_frame [OF next_chip]] io3 by blast
  moreover have "pic (vm ?s') = pic (vm s)" "pit (vm ?s') = pit (vm s)" using io3 s1(3,4) by (simp_all add: set_vcpu_def)
  moreover note chip_line [OF next_chip [of s3 1]]
  ultimately show ?thesis using s3(3) f2(4,5) l2(2) by auto
qed

lemma print_string_ok:
  assumes "devices s" "line_buffered s pend"
  shows "\<exists>s'. print_string bs s = Inr s' \<and> io_frame s s' \<and> pic (vm s') = pic (vm s) \<and> pit (vm s') = pit (vm s) \<and>
    (case line_buffering (serial_prefix (vm_addr s) (vpid (vm s))) pend bs of
      (out, rest) \<Rightarrow> line_buffered s' rest \<and> serial_out s' = serial_out s @ out)"
  using assms
proof (induction bs arbitrary: s pend)
  case (Cons b bs)
  let ?nl = "b = of_char (CHR 0x0A) \<or> length pend = 4094"
  let ?rest = "if ?nl then [] else pend @ [b]"
  let ?pre = "serial_prefix (vm_addr s) (vpid (vm s))"
  from write_serial_ok [OF Cons.prems, of b] obtain s1 where
    s1: "write_serial b s = Inr s1" "io_frame s s1" "pic (vm s1) = pic (vm s)" "pit (vm s1) = pit (vm s)"
      "line_buffered s1 ?rest" "serial_out s1 = serial_out s @ (if ?nl then ?pre @ takeWhile (\<lambda>x. x \<noteq> 0) (pend @ [b]) else [])"
    by (auto split: if_splits)
  note f = io_frame_fields [OF s1(2)]
  obtain out rest where lb: "line_buffering ?pre ?rest bs = (out, rest)" by fastforce
  have "devices s1" using f(6) Cons.prems(1) by simp
  from Cons.IH [OF this s1(5)] obtain s2 where
    s2: "print_string bs s1 = Inr s2" "io_frame s1 s2" "pic (vm s2) = pic (vm s1)" "pit (vm s2) = pit (vm s1)"
      "line_buffered s2 rest" "serial_out s2 = serial_out s1 @ out" unfolding f(4,5) lb by auto
  have "line_buffering ?pre pend (b # bs) = ((if ?nl then ?pre @ takeWhile (\<lambda>x. x \<noteq> 0) (pend @ [b]) else []) @ out, rest)"
    using lb by (auto simp: Let_def split: if_splits)
  then show ?case using s1 s2 io_frame_trans [OF s1(2) s2(2)] by simp
qed simp

end
