(* ===== verification/Guest_Paging.thy ===== *)
theory Guest_Paging
  imports Mem_Ops Paging
begin

text \<open>
  The guest's page tables, \<open>guest/trivial_paging.c\<close>, and the \<open>memset\<close> of \<open>guest/lib.c\<close>.  The guest
  runs with its first gigabyte mapped to itself, so the addresses of its tables are addresses of its
  memory; \<open>paging_init\<close> adds the page of the video buffer, which lies above 4 GiB.  The entry formats
  of \<open>guest/trivial_paging.h\<close> are those of the host's tables.
\<close>

section \<open>The code\<close>

text \<open>The guest's \<open>memset\<close> copies from the address its second argument names.\<close>

definition guest_memset :: "mem \<Rightarrow> u64 \<Rightarrow> u64 \<Rightarrow> int \<Rightarrow> mem" where
  "guest_memset m dst src nr_bytes = memcpy_loop 0 m dst src nr_bytes"

abbreviation NR_BASE_PAGES :: int where "NR_BASE_PAGES \<equiv> 16"

text \<open>
  Where the linker placed the tables: \<open>base_pages\<close> is an array of bytes, so that its elements are one
  byte apart.
\<close>

record guest_tables =
  guest_pml4_base :: u64
  base_pages :: u64

definition get_base_page :: "guest_tables \<Rightarrow> mem \<times> int \<Rightarrow> u64 \<times> mem \<times> int" where
  "get_base_page t st =
     (case st of (m, nr_used_base_pages) \<Rightarrow>
        if NR_BASE_PAGES \<le> nr_used_base_pages then (0, m, nr_used_base_pages)
        else let page = base_pages t + of_int nr_used_base_pages
             in (page, guest_memset m page 0 PAGE_SIZE_4K, nr_used_base_pages + 1))"

text \<open>The blocks of level 4 and level 3, and the block of level 2, which clears in the other order.\<close>

definition guest_upper_entry :: "guest_tables \<Rightarrow> u64 \<Rightarrow> mem \<times> int \<Rightarrow> bool \<times> mem \<times> int" where
  "guest_upper_entry t a st =
     (if e_present (load64 (fst st) a) then (True, st) else
      case get_base_page t st of (table_address, m, n) \<Rightarrow>
        if table_address = 0 then (False, m, n)
        else let m = guest_memset m table_address 0 PAGE_SIZE_4K;
                 m = guest_memset m a 0 8
             in (True, write_table_entry m a table_address, n))"

definition guest_pd_table_entry :: "guest_tables \<Rightarrow> u64 \<Rightarrow> mem \<times> int \<Rightarrow> bool \<times> mem \<times> int" where
  "guest_pd_table_entry t a st =
     (if e_present (load64 (fst st) a) then (True, st) else
      case get_base_page t st of (pt_addr, m, n) \<Rightarrow>
        if pt_addr = 0 then (False, m, n)
        else let m = guest_memset m a 0 8;
                 m = guest_memset m pt_addr 0 PAGE_SIZE_4K
             in (True, write_table_entry m a pt_addr, n))"

definition map_page_high :: "guest_tables \<Rightarrow> u64 \<Rightarrow> u64 \<Rightarrow> mem \<times> int \<Rightarrow> int \<times> mem \<times> int" where
  "map_page_high t va phys st =
     (if va < 0x100000000 then (- 1, st) else
      let l4_entry = guest_pml4_base t + 8 * LEVEL_4_INDEX va in
      case guest_upper_entry t l4_entry st of (ok, st) \<Rightarrow>
      if \<not> ok then (- 2, st) else
      let l3_entry = e_table (load64 (fst st) l4_entry) + 8 * LEVEL_3_INDEX va in
      case guest_upper_entry t l3_entry st of (ok, st) \<Rightarrow>
      if \<not> ok then (- 3, st) else
      let l2_table_entry = e_table (load64 (fst st) l3_entry) + 8 * LEVEL_2_INDEX va in
      case guest_pd_table_entry t l2_table_entry st of (ok, st) \<Rightarrow>
      if \<not> ok then (- 4, st) else
      let l1_entry = e_table (load64 (fst st) l2_table_entry) + 8 * LEVEL_1_INDEX va in
      if e_present (load64 (fst st) l1_entry) then (- 5, st)
      else (0, write_table_entry (guest_memset (fst st) l1_entry 0 8) l1_entry phys, snd st))"

text \<open>The memory part of \<open>paging_init\<close>: the result of the mapping is not looked at.\<close>

definition guest_paging_tables :: "guest_tables \<Rightarrow> mem \<times> int \<Rightarrow> mem \<times> int" where
  "guest_paging_tables t st = (case map_page_high t 0x1000b8000 0x1000b8000 st of (rc, m, n) \<Rightarrow> (m, 0))"

text \<open>
  The tables the guest enters long mode with, \<open>construct_early_page_table\<close> of \<open>guest/init32.S\<close>: three
  consecutive pages, the last of which maps the first gigabyte to itself in 2 MiB pages.
\<close>

definition construct_early_page_table :: "u64 \<Rightarrow> mem \<Rightarrow> mem" where
  "construct_early_page_table root m =
     (let pdpt = root + 0x1000; pdt = root + 0x2000;
          m = memset m root 0 0x3000;
          m = store64 m root (take_bit 32 (0x3 OR pdpt));
          m = store64 m pdpt (take_bit 32 (0x3 OR pdt))
      in fold (\<lambda>i m. store64 m (pdt + 8 * of_nat i) (0x83 OR of_nat i * 0x200000)) [0..<512] m)"

section \<open>Clearing memory with a low page of zeroes\<close>

definition low_zero :: "mem \<Rightarrow> bool" where
  "low_zero m \<longleftrightarrow> (\<forall>x. x < 4096 \<longrightarrow> m x = 0)"

lemma guest_memset_eq:
  assumes "low_zero m" "0 \<le> n" "n \<le> 4096" "4096 \<le> unat dst" "unat dst \<le> 0x100000000"
  shows "guest_memset m dst 0 n = memset m dst 0 (of_int n)"
proof
  fix x
  have dis: "dst + of_int i \<noteq> 0 + of_int j" if i: "0 \<le> i" "i < n" and j: "0 \<le> j" "j < n" for i j
  proof -
    have "of_int i = (of_nat (nat i) :: u64)" "of_int j = (of_nat (nat j) :: u64)" using i j by simp_all
    then have "unat (of_int i :: u64) = nat i" "unat (of_int j :: u64) = nat j"
      using i j assms(3) by (simp_all only: unat_of_nat_u64)
    moreover have "unat (dst + of_int i) = unat dst + nat i"
      using calculation i assms(3,5) by (subst unat_add_u64) simp_all
    ultimately show ?thesis using j assms(3,4) by (auto simp: u64_eq_iff)
  qed
  have c: "uint (x - dst) < n \<longleftrightarrow> x - dst < of_int n"
    using assms(2,3) by (simp add: word_less_def uint_word_of_int_eq take_bit_int_eq_self)
  have "m (x - dst) = 0" if "uint (x - dst) < n"
    using assms(1,3) that by (simp add: low_zero_def word_less_def)
  then show "guest_memset m dst 0 n x = memset m dst 0 (of_int n) x"
    using memcpy_loop_disjoint [of 0 n dst 0 m x] dis assms(2,3) c
    by (simp add: guest_memset_def memset_def)
qed

lemma low_zero_memset: "low_zero m \<Longrightarrow> low_zero (memset m a 0 n)"
  by (simp add: low_zero_def memset_def)

lemma low_zero_store64:
  assumes "low_zero m" "aligned 3 a" "4096 \<le> a"
  shows "low_zero (store64 m a v)"
  unfolding low_zero_def
proof (intro allI impI)
  fix x :: u64
  assume x: "x < 4096"
  have "pfn x \<noteq> pfn a"
  proof -
    have "unat x < 4096" "4096 \<le> unat a" using x assms(3) by (simp_all add: word_less_nat_alt word_le_nat_alt)
    then have "unat x div 4096 = 0" "0 < unat a div 4096" by simp_all
    then show ?thesis by (simp add: u64_eq_iff unat_pfn)
  qed
  then have "store64 m a v x = m x" by (intro store64_frame assms)
  then show "store64 m a v x = 0" using assms(1) x by (simp add: low_zero_def)
qed

definition zero_page :: "mem \<Rightarrow> u64 \<Rightarrow> bool" where
  "zero_page m p \<longleftrightarrow> (\<forall>x. pfn x = pfn p \<longrightarrow> m x = 0)"

lemma zero_page_memset: "zero_page m p \<Longrightarrow> zero_page (memset m a 0 n) p"
  by (simp add: zero_page_def memset_def)

lemma load64_zero:
  assumes "\<And>i. i < 8 \<Longrightarrow> m (b + of_nat i) = 0"
  shows "load64 m b = 0"
proof -
  have "load_bytes m b 8 = replicate 8 0" using assms by (intro nth_equalityI) (auto simp: load_bytes_def)
  then show ?thesis by (simp add: load64_def)
qed

lemma load64_zero_page: "zero_page m p \<Longrightarrow> aligned 3 b \<Longrightarrow> pfn b = pfn p \<Longrightarrow> load64 m b = 0"
  by (rule load64_zero) (simp add: zero_page_def pfn_add_small)

lemma write_table_entry_zero: "load64 m a = 0 \<Longrightarrow> write_table_entry m a P = store64 m a (table_entry P)"
  by (simp add: write_table_entry_def table_entry_def mem_simps set_field_def)

section \<open>The tables of the guest\<close>

definition guest_placed :: "guest_tables \<Rightarrow> bool" where
  "guest_placed t \<longleftrightarrow> aligned 12 (guest_pml4_base t) \<and> aligned 12 (base_pages t) \<and>
     0x1000 \<le> unat (guest_pml4_base t) \<and> unat (guest_pml4_base t) \<le> 0x3fff0000 \<and>
     0x1000 \<le> unat (base_pages t) \<and> unat (base_pages t) \<le> 0x3fff0000 \<and>
     (unat (guest_pml4_base t) + 0x3000 \<le> unat (base_pages t) \<or> unat (base_pages t) + 0x2000 \<le> unat (guest_pml4_base t))"

definition early_tables :: "guest_tables \<Rightarrow> mem \<Rightarrow> bool" where
  "early_tables t m \<longleftrightarrow> low_zero m \<and>
     load64 m (guest_pml4_base t) = table_entry (guest_pml4_base t + 0x1000) \<and>
     load64 m (guest_pml4_base t + 0x1000) = table_entry (guest_pml4_base t + 0x2000) \<and>
     load64 m (guest_pml4_base t + 0x1000 + 8 * 4) = 0 \<and>
     (\<forall>i < 512. load64 m (guest_pml4_base t + 0x2000 + 8 * i) = 0x83 OR i * 0x200000)"

lemma placed_pages:
  assumes "guest_placed t"
  shows "aligned 12 (guest_pml4_base t + 0x1000)" "aligned 12 (guest_pml4_base t + 0x2000)"
    "unat (guest_pml4_base t + 0x1000) = unat (guest_pml4_base t) + 0x1000"
    "unat (guest_pml4_base t + 0x2000) = unat (guest_pml4_base t) + 0x2000"
    "unat (base_pages t + 1) = unat (base_pages t) + 1" "pfn (base_pages t + 1) = pfn (base_pages t)"
    "unat (base_pages t + 0x1000) = unat (base_pages t) + 0x1000"
proof -
  have u: "unat (guest_pml4_base t) \<le> 0x3fff0000" "unat (base_pages t) \<le> 0x3fff0000"
    and a: "aligned 12 (guest_pml4_base t)" "aligned 12 (base_pages t)" using assms by (simp_all add: guest_placed_def)
  show p: "unat (guest_pml4_base t + 0x1000) = unat (guest_pml4_base t) + 0x1000"
    "unat (guest_pml4_base t + 0x2000) = unat (guest_pml4_base t) + 0x2000"
    "unat (base_pages t + 1) = unat (base_pages t) + 1"
    "unat (base_pages t + 0x1000) = unat (base_pages t) + 0x1000"
    using u by (simp_all add: unat_add_u64)
  show "aligned 12 (guest_pml4_base t + 0x1000)" "aligned 12 (guest_pml4_base t + 0x2000)"
    using a(1) p by (simp_all add: aligned_iff_dvd)
  obtain k where "unat (base_pages t) = 4096 * k" using a(2) by (auto simp: aligned_iff_dvd)
  then show "pfn (base_pages t + 1) = pfn (base_pages t)" using p(3) by (simp add: u64_eq_iff unat_pfn)
qed

lemma guest_upper_entry_fresh:
  assumes pl: "guest_placed t" and "low_zero m" "\<not> e_present (load64 m a)" "aligned 3 a"
    and a: "0x1000 \<le> unat a" "unat a \<le> 0x100000000"
  shows "guest_upper_entry t a (m, 0) = (True, store64 (memset m (base_pages t) 0 4096) a (table_entry (base_pages t)), 1)"
proof -
  let ?B = "base_pages t" and ?m = "memset m (base_pages t) 0 4096"
  have b: "0x1000 \<le> unat ?B" "unat ?B \<le> 0x100000000" "?B \<noteq> 0" using pl by (auto simp: guest_placed_def)
  have z: "low_zero ?m" using assms(2) by (rule low_zero_memset)
  have "guest_memset m ?B 0 4096 = ?m" "guest_memset ?m ?B 0 4096 = ?m" "guest_memset ?m a 0 8 = memset ?m a 0 8"
    using guest_memset_eq [OF assms(2), of 4096 ?B] guest_memset_eq [OF z, of 4096 ?B] guest_memset_eq [OF z, of 8 a] a b
    by (auto simp: memset_def fun_eq_iff)
  then show ?thesis using assms(3) b(3)
    by (simp add: guest_upper_entry_def get_base_page_def Let_def memset_8_eq_store64 write_table_entry_eq)
qed

lemma guest_pd_table_entry_fresh:
  assumes pl: "guest_placed t" and m: "low_zero m" "zero_page m (base_pages t)"
  obtains z where "guest_pd_table_entry t (base_pages t) (m, 1) = (True, store64 z (base_pages t) (table_entry (base_pages t)), 2)"
    "low_zero z" "zero_page z (base_pages t)"
    "\<forall>x. pfn x \<noteq> pfn (base_pages t) \<longrightarrow> pfn x \<noteq> pfn (base_pages t + 0x1000) \<longrightarrow> z x = m x"
proof -
  let ?B = "base_pages t"
  let ?z1 = "memset m (?B + 1) 0 4096" let ?z2 = "memset ?z1 ?B 0 8" let ?z = "memset ?z2 (?B + 1) 0 4096"
  have al: "aligned 12 ?B" "aligned 3 ?B" using pl aligned_mono [of 12 ?B 3] by (simp_all add: guest_placed_def)
  have b: "0x1000 \<le> unat ?B" "unat ?B \<le> 0x100000000" "?B + 1 \<noteq> 0" "unat (?B + 1) \<le> 0x100000000"
    using pl placed_pages(5) [OF pl] by (auto simp: guest_placed_def)
  have z: "low_zero ?z1" "low_zero ?z2" "low_zero ?z" using m(1) by (simp_all add: low_zero_memset)
  have zp: "zero_page ?z ?B" using m(2) by (simp add: zero_page_memset)
  have g: "guest_memset m (?B + 1) 0 4096 = ?z1" "guest_memset ?z1 ?B 0 8 = ?z2" "guest_memset ?z2 (?B + 1) 0 4096 = ?z"
    using guest_memset_eq [OF m(1), of 4096 "?B + 1"] guest_memset_eq [OF z(1), of 8 ?B] guest_memset_eq [OF z(2), of 4096 "?B + 1"] b
      placed_pages(5) [OF pl] by auto
  have te: "table_entry (?B + 1) = table_entry ?B" using placed_pages(6) [OF pl] by (simp add: table_entry_def pfn_def)
  have "\<not> e_present (load64 m ?B)" using load64_zero_page [OF m(2) al(2)] by (simp add: e_present_def)
  moreover have "write_table_entry ?z ?B (?B + 1) = store64 ?z ?B (table_entry ?B)"
    using write_table_entry_zero load64_zero_page [OF zp al(2)] te by simp
  ultimately have "guest_pd_table_entry t ?B (m, 1) = (True, store64 ?z ?B (table_entry ?B), 2)"
    using b(3) by (simp add: guest_pd_table_entry_def get_base_page_def Let_def g)
  moreover have "?z x = m x" if x: "pfn x \<noteq> pfn ?B" "pfn x \<noteq> pfn (?B + 0x1000)" for x
  proof -
    obtain k where k: "unat ?B = 4096 * k" using al(1) by (auto simp: aligned_iff_dvd)
    have "unat x div 4096 \<noteq> k" "unat x div 4096 \<noteq> k + 1"
      using x k placed_pages(7) [OF pl] by (auto simp: u64_eq_iff unat_pfn)
    then have "\<not> x - (?B + 1) < 4096" "\<not> x - ?B < 8"
      unfolding word_less_nat_alt unat_diff_cases placed_pages(5) [OF pl] k using unat_u64_less [of x] k b(2) by auto
    then show ?thesis by (simp add: memset_def)
  qed
  ultimately show thesis using that z(3) zp by blast
qed

lemma video_indices:
  "LEVEL_4_INDEX 0x1000b8000 = 0" "LEVEL_3_INDEX 0x1000b8000 = 4" "LEVEL_2_INDEX 0x1000b8000 = 0" "LEVEL_1_INDEX 0x1000b8000 = 0xb8"
  by (simp_all add: LEVEL_4_INDEX_def LEVEL_3_INDEX_def LEVEL_2_INDEX_def LEVEL_1_INDEX_def)

lemma pfn_neq:
  assumes "unat p div 4096 \<noteq> unat q div 4096"
  shows "pfn p \<noteq> pfn q"
  using assms by (auto simp: u64_eq_iff unat_pfn)

lemma placed_apart:
  assumes "guest_placed t" "p \<in> {guest_pml4_base t, guest_pml4_base t + 0x1000, guest_pml4_base t + 0x2000}" "i < 512"
  shows "pfn (p + 8 * i) \<noteq> pfn (base_pages t)" "pfn (p + 8 * i) \<noteq> pfn (base_pages t + 0x1000)" "aligned 12 p" "pfn (p + 8 * i) = pfn p"
proof -
  note u = placed_pages [OF assms(1)]
  show al: "aligned 12 p" using assms(1,2) u by (auto simp: guest_placed_def)
  obtain j k where jk: "unat (base_pages t) = 4096 * j" "unat (guest_pml4_base t) = 4096 * k"
    using assms(1) by (auto simp: guest_placed_def aligned_iff_dvd elim!: dvdE)
  have "k + 3 \<le> j \<or> j + 2 \<le> k" using assms(1) jk by (auto simp: guest_placed_def)
  then have "unat p div 4096 \<noteq> unat (base_pages t) div 4096" "unat p div 4096 \<noteq> unat (base_pages t + 0x1000) div 4096"
    using assms(2) u jk by auto
  then show "pfn (p + 8 * i) = pfn p" "pfn (p + 8 * i) \<noteq> pfn (base_pages t)" "pfn (p + 8 * i) \<noteq> pfn (base_pages t + 0x1000)"
    using pfn_entry_addr [OF al assms(3)] pfn_neq by simp_all
qed

lemma table_entry_placed:
  assumes "guest_placed t" "p \<in> {guest_pml4_base t + 0x1000, guest_pml4_base t + 0x2000, base_pages t}"
  shows "e_present (table_entry p)" "e_is_table (table_entry p)" "e_table (table_entry p) = p"
proof -
  have "aligned 12 p" "unat p < 2 ^ 52" using assms placed_pages [OF assms(1)] by (auto simp: guest_placed_def)
  then show "e_present (table_entry p)" "e_is_table (table_entry p)" "e_table (table_entry p) = p"
    using table_entry_props by blast+
qed

lemma l3_slot:
  assumes "guest_placed t" "a = guest_pml4_base t + 0x1000 + 8 * 4"
  shows "pfn a \<noteq> pfn (base_pages t)" "pfn a \<noteq> pfn (base_pages t + 0x1000)" "aligned 3 a"
    "0x1000 \<le> unat a" "unat a \<le> 0x100000000" "4096 \<le> a"
proof -
  let ?P = "guest_pml4_base t + 0x1000"
  show "pfn a \<noteq> pfn (base_pages t)" "pfn a \<noteq> pfn (base_pages t + 0x1000)"
    using placed_apart [OF assms(1), of ?P 4] assms(2) by simp_all
  have P: "aligned 12 ?P" using placed_pages [OF assms(1)] by simp
  show "aligned 3 a" using aligned_entry_addr [OF P, of 4] assms(2) by simp
  have "unat a = unat (guest_pml4_base t) + 0x1020"
    using unat_entry_addr [OF P, of 4] placed_pages(3) [OF assms(1)] assms(2) by simp
  then show "0x1000 \<le> unat a" "unat a \<le> 0x100000000" "4096 \<le> a"
    using assms(1) by (simp_all add: guest_placed_def word_le_nat_alt)
qed

lemma l1_slot:
  assumes "guest_placed t" "l = base_pages t + 8 * 0xb8"
  shows "aligned 3 l" "l \<noteq> base_pages t" "pfn l = pfn (base_pages t)" "0x1000 \<le> unat l" "unat l \<le> 0x100000000" "4096 \<le> l"
proof -
  have al: "aligned 12 (base_pages t)" using assms(1) by (simp add: guest_placed_def)
  show "aligned 3 l" "l \<noteq> base_pages t" "pfn l = pfn (base_pages t)" "0x1000 \<le> unat l" "unat l \<le> 0x100000000" "4096 \<le> l"
    using aligned_entry_addr [OF al, of "0xb8"] pfn_entry_addr [OF al, of "0xb8"] unat_entry_addr [OF al, of "0xb8"] assms
    by (simp_all add: guest_placed_def word_le_nat_alt)
qed

lemma map_page_high_video:
  assumes pl: "guest_placed t" and early: "early_tables t m"
  obtains m' where "map_page_high t 0x1000b8000 0x1000b8000 (m, 0) = (0, m', 2)"
    "low_zero m'" "load64 m' (guest_pml4_base t + 0x1000 + 8 * 4) = table_entry (base_pages t)"
    "load64 m' (base_pages t) = table_entry (base_pages t)"
    "load64 m' (base_pages t + 8 * 0xb8) = table_entry 0x1000b8000"
    "\<forall>b. aligned 3 b \<longrightarrow> pfn b \<noteq> pfn (base_pages t) \<longrightarrow> pfn b \<noteq> pfn (base_pages t + 0x1000) \<longrightarrow>
      b \<noteq> guest_pml4_base t + 0x1000 + 8 * 4 \<longrightarrow> load64 m' b = load64 m b"
proof -
  let ?R = "guest_pml4_base t" and ?B = "base_pages t" and ?a = "guest_pml4_base t + 0x1000 + 8 * 4"
  let ?m1 = "store64 (memset m ?B 0 4096) ?a (table_entry ?B)"
  have al: "aligned 12 ?B" "aligned 3 ?B" "aligned 12 ?R" using pl aligned_mono [of 12 ?B 3] by (simp_all add: guest_placed_def)
  note a = l3_slot [OF pl refl]
  have lz: "low_zero m" using early by (simp add: early_tables_def)
  have e3: "\<not> e_present (load64 m ?a)" using early by (simp add: early_tables_def e_present_def)
  have up: "guest_upper_entry t ?R (m, 0) = (True, m, 0)"
    using early table_entry_placed [OF pl] by (simp add: guest_upper_entry_def early_tables_def)
  note up3 = guest_upper_entry_fresh [OF pl lz e3 a(3-5)]
  have lz1: "low_zero ?m1" by (rule low_zero_store64 [OF low_zero_memset [OF lz] a(3,6)])
  have zp1: "zero_page ?m1 ?B"
    using a(1) store64_frame [OF a(3)] in_page_iff [OF al(1)] by (auto simp: zero_page_def memset_def)
  from guest_pd_table_entry_fresh [OF pl lz1 zp1] obtain z where
    z: "guest_pd_table_entry t ?B (?m1, 1) = (True, store64 z ?B (table_entry ?B), 2)" "low_zero z" "zero_page z ?B"
      "\<forall>x. pfn x \<noteq> pfn ?B \<longrightarrow> pfn x \<noteq> pfn (?B + 0x1000) \<longrightarrow> z x = ?m1 x" .
  let ?m2 = "store64 z ?B (table_entry ?B)" and ?l1 = "?B + 8 * 0xb8"
  let ?m' = "store64 ?m2 ?l1 (table_entry 0x1000b8000)"
  note l1 = l1_slot [OF pl refl]
  have B: "4096 \<le> ?B" using pl by (simp add: guest_placed_def word_le_nat_alt)
  have lz2: "low_zero ?m2" by (rule low_zero_store64 [OF z(2) al(2) B])
  have l1z: "load64 ?m2 ?l1 = 0" using load64_zero_page [OF z(3) l1(1,3)] l1(1,2) al(2) by (simp add: mem_simps)
  have cl: "guest_memset ?m2 ?l1 0 8 = store64 ?m2 ?l1 0"
    using guest_memset_eq [OF lz2, of 8 ?l1] l1(4,5) by (simp add: memset_8_eq_store64)
  have keep: "load64 z b = load64 ?m1 b" if "aligned 3 b" "pfn b \<noteq> pfn ?B" "pfn b \<noteq> pfn (?B + 0x1000)" for b
    by (rule load64_cong) (use that in \<open>simp add: z(4) pfn_add_small\<close>)
  have "map_page_high t 0x1000b8000 0x1000b8000 (m, 0) = (0, ?m', 2)"
    using early table_entry_placed [OF pl] up up3 z(1) l1z cl
    by (simp add: map_page_high_def video_indices Let_def early_tables_def mem_simps e_present_def write_table_entry_eq)
  moreover have "low_zero ?m'" by (rule low_zero_store64 [OF lz2 l1(1,6)])
  moreover have "load64 ?m' ?a = table_entry ?B"
  proof -
    have "?a \<noteq> ?l1" "?a \<noteq> ?B" using a(1) l1(3) by metis+
    then show ?thesis using keep [OF a(3,1,2)] a(3) l1(1) al(2) by (simp add: mem_simps)
  qed
  moreover have "load64 ?m' ?B = table_entry ?B" using l1(1,2) al(2) by (simp add: mem_simps)
  moreover have "load64 ?m' ?l1 = table_entry 0x1000b8000" by (simp add: mem_simps)
  moreover have "load64 ?m' b = load64 m b"
    if b: "aligned 3 b" "pfn b \<noteq> pfn ?B" "pfn b \<noteq> pfn (?B + 0x1000)" "b \<noteq> ?a" for b
  proof -
    have "b \<noteq> ?l1" "b \<noteq> ?B" using b(2) l1(3) by metis+
    then have "load64 ?m' b = load64 ?m1 b" using keep [OF b(1-3)] b(1) l1(1) al(2) by (simp add: mem_simps)
    then show ?thesis using b a(3) al(1) by (simp add: mem_simps)
  qed
  ultimately show thesis using that by blast
qed

section \<open>What the guest's addresses translate to\<close>

abbreviation guest_translate :: "guest_tables \<Rightarrow> mem \<Rightarrow> u64 \<Rightarrow> u64" where
  "guest_translate t m va \<equiv> leaf_pa (kentry m (guest_pml4_base t)) va"

lemma of_nat_index: "i < 512 \<Longrightarrow> (of_nat i :: u64) < 512"
  by (simp add: word_less_nat_alt unat_of_nat_u64)

lemma load64_fold_store:
  assumes "aligned 12 p"
  shows "i < n \<Longrightarrow> n \<le> 512 \<Longrightarrow> load64 (fold (\<lambda>i m. store64 m (p + 8 * of_nat i) (f i)) [0..<n] m) (p + 8 * of_nat i) = f i"
    and "n \<le> 512 \<Longrightarrow> aligned 3 b \<Longrightarrow> pfn b \<noteq> pfn p \<Longrightarrow>
      load64 (fold (\<lambda>i m. store64 m (p + 8 * of_nat i) (f i)) [0..<n] m) b = load64 m b"
proof (induction n)
  case (Suc n)
  have n: "aligned 3 (p + 8 * of_nat n)" "pfn (p + 8 * of_nat n) = pfn p" if "Suc n \<le> 512"
    using that of_nat_index [of n] assms by (simp_all add: aligned_entry_addr pfn_entry_addr)
  {
    case 1
    show ?case
    proof (cases "i = n")
      case False
      then have "of_nat i \<noteq> (of_nat n :: u64)" using 1 by (simp add: u64_eq_iff unat_of_nat_u64)
      then have "p + 8 * of_nat i \<noteq> p + 8 * of_nat n"
        using entry_addr_eq_iff [OF assms assms of_nat_index of_nat_index, of i n] 1 by simp
      then show ?thesis using Suc.IH(1) 1 False n of_nat_index [of i] assms
        by (simp add: load64_store64_other aligned_entry_addr)
    qed (simp add: load64_store64_same)
  next
    case 2
    then have "b \<noteq> p + 8 * of_nat n" using n by auto
    then show ?case using Suc.IH(2) 2 n by (simp add: load64_store64_other)
  }
qed simp_all

lemma low_zero_fold:
  assumes "aligned 12 p" "0x1000 \<le> unat p" "n \<le> 512"
  shows "low_zero m \<Longrightarrow> low_zero (fold (\<lambda>i m. store64 m (p + 8 * of_nat i) (f i)) [0..<n] m)"
  using assms(3)
proof (induction n)
  case (Suc n)
  then have n: "(of_nat n :: u64) < 512" by (intro of_nat_index) simp
  have "unat (p + 8 * of_nat n) = unat p + 8 * unat (of_nat n :: u64)" by (rule unat_entry_addr [OF assms(1) n])
  then have "4096 \<le> p + 8 * of_nat n" using assms(2) by (simp add: word_le_nat_alt)
  then show ?case using Suc aligned_entry_addr [OF assms(1) n] by (simp add: low_zero_store64)
qed simp

lemma early_entry:
  assumes "aligned 12 P" "unat P < 2 ^ 32"
  shows "take_bit 32 (0x3 OR P) = table_entry P"
proof -
  have m: "(3 :: u64) = mask 2" by (simp add: mask_numeral)
  show ?thesis unfolding m
    by (rule bit_word_eqI)
      (use aligned_bitD [OF assms(1)] bit_below [OF assms(2)] in \<open>auto simp: table_entry_def bit_bf_set bit_simps bit_1_iff\<close>)
qed

lemma early_constructed:
  assumes pl: "guest_placed t" and lz: "low_zero m"
  shows "early_tables t (construct_early_page_table (guest_pml4_base t) m)"
proof -
  let ?R = "guest_pml4_base t" let ?P = "?R + 0x1000" and ?D = "?R + 0x2000"
  let ?z = "memset m ?R 0 0x3000"
  let ?s = "store64 (store64 ?z ?R (table_entry ?P)) ?P (table_entry ?D)"
  let ?m = "fold (\<lambda>i m. store64 m (?D + 8 * of_nat i) (0x83 OR of_nat i * 0x200000)) [0..<512] ?s"
  note u = placed_pages [OF pl]
  have R: "aligned 12 ?R" "0x1000 \<le> unat ?R" "unat ?R \<le> 0x3fff0000" using pl by (simp_all add: guest_placed_def)
  have a3: "aligned 3 ?R" "aligned 3 ?P" "aligned 3 (?P + 8 * 4)"
    using R(1) u(1) aligned_mono [of 12 _ 3] aligned_entry_addr [OF u(1), of 4] by simp_all
  have pf: "pfn ?R \<noteq> pfn ?D" "pfn ?P \<noteq> pfn ?D" "pfn (?P + 8 * 4) \<noteq> pfn ?D" "?R \<noteq> ?P"
    using pfn_entry_addr [OF u(1), of 4] page_eq_iff [OF R(1) u(2)] page_eq_iff [OF u(1) u(2)] by simp_all
  have eq: "construct_early_page_table ?R m = ?m"
    using early_entry [OF u(1)] early_entry [OF u(2)] R(3) u(3,4) by (simp add: construct_early_page_table_def Let_def)
  have low: "4096 \<le> ?R" "4096 \<le> ?P" "0x1000 \<le> unat ?D" using R(2) u(3,4) by (simp_all add: word_le_nat_alt)
  have "low_zero ?m"
    by (intro low_zero_fold low_zero_store64 low_zero_memset lz u a3 low) simp
  moreover have "load64 ?m ?R = table_entry ?P"
    using load64_fold_store(2) [OF u(2) _ a3(1) pf(1)] a3 pf(4) by (simp add: mem_simps)
  moreover have "load64 ?m ?P = table_entry ?D"
    using load64_fold_store(2) [OF u(2) _ a3(2) pf(2)] by (simp add: mem_simps)
  moreover have "load64 ?m (?P + 8 * 4) = 0"
  proof -
    have "load64 ?z (?P + 8 * 4) = 0"
    proof (rule load64_zero)
      fix i :: nat
      assume "i < 8"
      then have "(0x1020 + of_nat i :: u64) < 0x3000" by (simp add: word_less_nat_alt unat_word_ariths unat_of_nat_u64)
      then show "?z (?P + 8 * 4 + of_nat i) = 0" by (simp add: memset_def algebra_simps)
    qed
    moreover have "?P + 8 * 4 \<noteq> ?R" "?P + 8 * 4 \<noteq> ?P" by simp_all
    ultimately show ?thesis using load64_fold_store(2) [OF u(2) _ a3(3) pf(3)] a3
      by (simp only: load64_store64_other simp_thms order_refl)
  qed
  moreover have "load64 ?m (?D + 8 * i) = 0x83 OR i * 0x200000" if "i < 512" for i
    using load64_fold_store(1) [OF u(2), of "unat i" 512] that by (simp add: word_less_nat_alt)
  ultimately show ?thesis unfolding early_tables_def eq by blast
qed

lemma large_entry:
  assumes "i < 512"
  shows "e_present (0x83 OR i * 0x200000)" "e_page_size (0x83 OR i * 0x200000)"
    "bf_shl 43 21 (bf_get 21 43 (0x83 OR i * 0x200000)) = push_bit 21 i"
proof -
  have p: "i * 0x200000 = push_bit 21 i" by (simp add: push_bit_eq_mult)
  have 83: "bit (0x83 :: u64) n \<longleftrightarrow> n \<in> {0, 1, 7}" for n
  proof -
    have "(0x83 :: u64) = push_bit 7 1 OR mask 2" by (simp add: mask_numeral)
    then show ?thesis by (simp only: bit_or_iff bit_push_bit_iff bit_mask_iff bit_1_iff) auto
  qed
  define e where "e = 0x83 OR i * 0x200000"
  have b: "bit e n \<longleftrightarrow> n \<in> {0, 1, 7} \<or> 21 \<le> n \<and> n < 64 \<and> bit i (n - 21)" for n
    unfolding e_def p bit_or_iff 83 by (auto simp: bit_simps)
  show "e_present (0x83 OR i * 0x200000)" "e_page_size (0x83 OR i * 0x200000)"
    unfolding e_def [symmetric] e_present_def e_page_size_def by (simp_all add: bf_simps b)
  have "unat i < 2 ^ 9" using assms by (simp add: word_less_nat_alt)
  then have h: "bit i n \<Longrightarrow> n < 9" for n by (rule bit_below)
  show "bf_shl 43 21 (bf_get 21 43 (0x83 OR i * 0x200000)) = push_bit 21 i" unfolding e_def [symmetric]
    by (intro bit_word_eqI) (auto simp: bf_shl_def bit_simps bit_bf_get b dest: h)
qed

lemma low_indices:
  assumes "va < 0x40000000"
  shows "LEVEL_4_INDEX va = 0" "LEVEL_3_INDEX va = 0" "LEVEL_2_INDEX va = drop_bit 21 va"
proof -
  have "unat va < 2 ^ 30" using assms by (simp add: word_less_nat_alt)
  then have h: "bit va n \<Longrightarrow> n < 30" for n by (rule bit_below)
  show "LEVEL_4_INDEX va = 0" "LEVEL_3_INDEX va = 0" "LEVEL_2_INDEX va = drop_bit 21 va"
    unfolding index_take_bit by (auto intro!: bit_word_eqI simp: bit_simps dest!: h)
qed

lemma translate_low:
  assumes pl: "guest_placed t" and "load64 m (guest_pml4_base t) = table_entry (guest_pml4_base t + 0x1000)"
    "load64 m (guest_pml4_base t + 0x1000) = table_entry (guest_pml4_base t + 0x2000)"
    "\<forall>i < 512. load64 m (guest_pml4_base t + 0x2000 + 8 * i) = 0x83 OR i * 0x200000" and va: "va < 0x40000000"
  shows "guest_translate t m va = va"
proof -
  have i: "drop_bit 21 va < 512" using low_indices(3) [OF va] index_less(3) [of va] by simp
  have m: "(0x1fffff :: u64) = mask 21" by (simp add: mask_numeral)
  have "push_bit 21 (drop_bit 21 va) OR (va AND 0x1fffff) = va"
    unfolding m by (rule bit_word_eqI) (auto simp: bit_simps)
  then show ?thesis
    using assms(2-4) i table_entry_placed [OF pl] large_entry [OF i]
    by (simp add: leaf_pa_def entry_def idx3_def low_indices [OF va])
qed

lemma video_leaf:
  assumes "off < 0x1000"
  shows "bf_shl 52 12 (bf_get 12 52 (table_entry 0x1000b8000)) OR (0x1000b8000 + off AND 0xfff) = 0x1000b8000 + off"
    "LEVEL_4_INDEX (0x1000b8000 + off) = 0" "LEVEL_3_INDEX (0x1000b8000 + off) = 4"
    "LEVEL_2_INDEX (0x1000b8000 + off) = 0" "LEVEL_1_INDEX (0x1000b8000 + off) = 0xb8"
proof -
  have "unat off < 2 ^ 12" using assms by (simp add: word_less_nat_alt)
  then have o: "bit off n \<Longrightarrow> n < 12" for n by (rule bit_below)
  have v: "(0x1000b8000 :: u64) = push_bit 12 0x1000b8" by simp
  have "\<not> bit (0x1000b8000 :: u64) n" if "n < 12" for n unfolding v using that by (simp only: bit_push_bit_iff) simp
  then have add: "0x1000b8000 + off = 0x1000b8000 OR off" using o by (intro disjunctive_add) auto
  have t: "drop_bit k off = 0" if "12 \<le> k" for k
    using that by (auto intro!: bit_word_eqI simp: bit_simps dest!: o)
  show "LEVEL_4_INDEX (0x1000b8000 + off) = 0" "LEVEL_3_INDEX (0x1000b8000 + off) = 4"
    "LEVEL_2_INDEX (0x1000b8000 + off) = 0" "LEVEL_1_INDEX (0x1000b8000 + off) = 0xb8"
    unfolding add LEVEL_4_INDEX_def LEVEL_3_INDEX_def LEVEL_2_INDEX_def LEVEL_1_INDEX_def by (simp_all add: t)
  have "e_table (table_entry 0x1000b8000) = 0x1000b8000" by (rule table_entry_props) (simp_all add: aligned_iff_dvd)
  then have e: "bf_shl 52 12 (bf_get 12 52 (table_entry 0x1000b8000)) = 0x1000b8000" by (simp add: e_table_def)
  have m: "(0xfff :: u64) = mask 12" by (simp add: mask_numeral)
  have "0x1000b8000 + off AND 0xfff = off" unfolding add m take_bit_eq_mask [symmetric] take_bit_or
    using o by (auto intro!: bit_word_eqI simp: bit_simps)
  then show "bf_shl 52 12 (bf_get 12 52 (table_entry 0x1000b8000)) OR (0x1000b8000 + off AND 0xfff) = 0x1000b8000 + off"
    unfolding e add by simp
qed

lemma guest_maps_video_law:
  assumes "guest_placed t" "low_zero m" "construct_early_page_table (guest_pml4_base t) m = m0"
  shows "\<exists>m'. guest_paging_tables t (m0, 0) = (m', 0) \<and> low_zero m' \<and>
    (\<forall>va < 0x40000000. guest_translate t m' va = va) \<and>
    (\<forall>off < 0x1000. guest_translate t m' (0x1000b8000 + off) = 0x1000b8000 + off) \<and>
    guest_translate t m' 0x100000000 = base_pages t"
proof -
  let ?R = "guest_pml4_base t" and ?B = "base_pages t"
  have early: "early_tables t m0" using early_constructed [OF assms(1,2)] assms(3) by simp
  from map_page_high_video [OF assms(1) early] obtain m' where
    m': "map_page_high t 0x1000b8000 0x1000b8000 (m0, 0) = (0, m', 2)" "low_zero m'"
      "load64 m' (?R + 0x1000 + 8 * 4) = table_entry ?B" "load64 m' ?B = table_entry ?B"
      "load64 m' (?B + 8 * 0xb8) = table_entry 0x1000b8000"
      "\<forall>b. aligned 3 b \<longrightarrow> pfn b \<noteq> pfn ?B \<longrightarrow> pfn b \<noteq> pfn (?B + 0x1000) \<longrightarrow> b \<noteq> ?R + 0x1000 + 8 * 4 \<longrightarrow> load64 m' b = load64 m0 b" .
  have keep: "load64 m' (p + 8 * i) = load64 m0 (p + 8 * i)"
    if "p \<in> {?R, ?R + 0x1000, ?R + 0x2000}" "i < 512" "p + 8 * i \<noteq> ?R + 0x1000 + 8 * 4" for p i
    using m'(6) placed_apart [OF assms(1) that(1,2)] that(2,3) by (simp add: aligned_entry_addr)
  have R: "aligned 12 ?R" using assms(1) by (simp add: guest_placed_def)
  have ne: "p + 8 * i \<noteq> ?R + 0x1000 + 8 * 4" if "aligned 12 p" "p \<noteq> ?R + 0x1000 \<or> i \<noteq> 4" "i < 512" for p i
    using entry_addr_eq_iff [OF that(1) placed_pages(1) [OF assms(1)] that(3), of 4] that(2) by auto
  have e4: "load64 m' ?R = table_entry (?R + 0x1000)" and e3: "load64 m' (?R + 0x1000) = table_entry (?R + 0x2000)"
    using keep [of ?R 0] ne [of ?R 0] keep [of "?R + 0x1000" 0] ne [of "?R + 0x1000" 0] R placed_pages [OF assms(1)] early
    by (simp_all add: early_tables_def)
  have e2: "\<forall>i < 512. load64 m' (?R + 0x2000 + 8 * i) = 0x83 OR i * 0x200000"
    using keep [of "?R + 0x2000"] ne [of "?R + 0x2000"] placed_pages [OF assms(1)] early by (simp add: early_tables_def)
  note te = table_entry_placed [OF assms(1)]
  have pr: "e_present (table_entry 0x1000b8000)" by (rule table_entry_props) (simp_all add: aligned_iff_dvd)
  have ps: "\<not> e_page_size (table_entry ?B)" using te(2) [of ?B] by (simp add: e_is_table_def)
  have "guest_translate t m' (0x1000b8000 + off) = 0x1000b8000 + off" if "off < 0x1000" for off
    using video_leaf [OF that] e4 e3 m'(3,4,5) te ps pr
    by (simp add: leaf_pa_def entry_def idx3_def idx2_def)
  moreover have "guest_translate t m' 0x100000000 = ?B"
    using e4 e3 m'(3,4) te ps
    by (simp add: leaf_pa_def entry_def idx3_def idx2_def LEVEL_4_INDEX_def LEVEL_3_INDEX_def LEVEL_2_INDEX_def LEVEL_1_INDEX_def e_table_def)
  moreover have "guest_paging_tables t (m0, 0) = (m', 0)" using m'(1) by (simp add: guest_paging_tables_def)
  ultimately show ?thesis using m'(2) translate_low [OF assms(1) e4 e3 e2] by blast
qed

text \<open>
  C19 (guest paging). From the tables the guest enters long mode with, \<open>paging_init\<close> maps the page of
  the video buffer to itself and leaves the first gigabyte mapped to itself, provided the page at
  address zero, which the guest's \<open>memset\<close> copies from, holds zeroes.  Successive pages of
  \<open>get_base_page\<close> are one byte apart, so the new directory and the new page table are one page, which
  the guest now also sees at address 4 GiB.
\<close>

theorem guest_maps_video:
  assumes "guest_placed t" "low_zero m" "construct_early_page_table (guest_pml4_base t) m = m0"
  shows "\<exists>m'. guest_paging_tables t (m0, 0) = (m', 0) \<and> low_zero m' \<and>
    (\<forall>va < 0x40000000. guest_translate t m' va = va) \<and>
    (\<forall>off < 0x1000. guest_translate t m' (0x1000b8000 + off) = 0x1000b8000 + off) \<and>
    guest_translate t m' 0x100000000 = base_pages t"
  using assms by (rule guest_maps_video_law)

theorem guest_maps_video_witness:
  "\<exists>m'. guest_paging_tables \<lparr>guest_pml4_base = 0x8000, base_pages = 0x10000\<rparr>
      (construct_early_page_table 0x8000 (\<lambda>_. 0), 0) = (m', 0) \<and>
    guest_translate \<lparr>guest_pml4_base = 0x8000, base_pages = 0x10000\<rparr> m' 0x1000b8000 = 0x1000b8000"
proof -
  let ?t = "\<lparr>guest_pml4_base = 0x8000, base_pages = 0x10000\<rparr>"
  have "guest_placed ?t" by (simp add: guest_placed_def aligned_iff_dvd)
  moreover have "low_zero (\<lambda>_. 0)" by (simp add: low_zero_def)
  ultimately obtain m' where m': "guest_paging_tables ?t (construct_early_page_table 0x8000 (\<lambda>_. 0), 0) = (m', 0)"
    "\<forall>off < 0x1000. guest_translate ?t m' (0x1000b8000 + off) = 0x1000b8000 + off"
    using guest_maps_video [of ?t "\<lambda>_. 0"] by auto
  then have "guest_translate ?t m' 0x1000b8000 = 0x1000b8000" by (auto dest: spec [of _ 0])
  with m'(1) show ?thesis by blast
qed

end
