(* ===== verification/Guest_Kernel.thy ===== *)
theory Guest_Kernel
  imports Guest_Devices Guest_Paging
begin

text \<open>
  The guest kernel: \<open>guest/interrupt.c\<close>, the initialisations of \<open>guest/pit.c\<close>, \<open>guest/keyboard.c\<close>,
  \<open>guest/timer.c\<close> and \<open>guest/trivial_paging.c\<close>, \<open>guest/printk.c\<close>, and \<open>guest_kernel_main\<close> of
  \<open>guest/init.c\<close>.  The state holds the monitor, which serves the guest's port instructions and
  \<open>rdtsc\<close>, the game with the guest's memory, the handler table, the descriptor table and its register.
\<close>

section \<open>State\<close>







section \<open>Time stamps and formatted output\<close>




text \<open>The guest's \<open>printk\<close> is the host's, with the guest's serial line and without the lock.\<close>

definition guest_printk :: "mem \<Rightarrow> u64 \<Rightarrow> u64 list \<Rightarrow> monitor \<Rightarrow> monitor result" where
  "guest_printk m fmt args s =
     (case printk_mp_raw m fmt args [] of
        None \<Rightarrow> Inl Not_returned
      | Some r \<Rightarrow> bind_result r (\<lambda>out. print_string out s))"

section \<open>Interrupts\<close>








section \<open>Initialisation\<close>








section \<open>Serving interrupts\<close>















section \<open>Printing lines\<close>









section \<open>Starting the guest\<close>



















section \<open>Properties\<close>





section \<open>Witnesses\<close>







end
