(* ===== verification/Spinlock.thy ===== *)
theory Spinlock
  imports Zelda_Prelude
begin

text \<open>
  The spinlock of \<open>x86_64/spinlock.c\<close> over the atomic exchange of \<open>x86_64/include/atomic.h\<close>.  The two
  operations appear twice: as functions of the lock when one processor runs alone, and as the
  sequence of their memory accesses when any number of processors interleave.
\<close>

record spinlock =
  lock_word :: u32
  lock_cpu :: u32
  lock_blob :: u64

definition spinlock_init :: "spinlock \<Rightarrow> spinlock" where
  "spinlock_init l = \<lparr>lock_word = 0, lock_cpu = 0xff, lock_blob = 0\<rparr>"

text \<open>The value returned and the value left in memory.\<close>

definition xchg32 :: "u32 \<Rightarrow> u32 \<Rightarrow> u32 \<times> u32" where
  "xchg32 target exchange_value = (target, exchange_value)"

section \<open>The accesses of the two operations\<close>

text \<open>One turn of the loop of \<open>spinlock_acquire_raw\<close>: whether the exchange ended it.\<close>

definition acquire_turn :: "spinlock \<Rightarrow> bool \<times> spinlock" where
  "acquire_turn l = (case xchg32 (lock_word l) 1 of (old, new) \<Rightarrow> (old = 0, l\<lparr>lock_word := new\<rparr>))"

definition acquire_own :: "u32 \<Rightarrow> spinlock \<Rightarrow> spinlock" where
  "acquire_own cpu l = l\<lparr>lock_cpu := cpu\<rparr>"

definition release_check :: "u32 \<Rightarrow> spinlock \<Rightarrow> bool" where
  "release_check cpu l \<longleftrightarrow> lock_cpu l = cpu \<and> lock_word l = 1"

definition release_disown :: "spinlock \<Rightarrow> spinlock" where
  "release_disown l = l\<lparr>lock_cpu := 0xff\<rparr>"

text \<open>The final exchange, and whether the assertion on its result holds.\<close>

definition release_word :: "spinlock \<Rightarrow> bool \<times> spinlock" where
  "release_word l = (case xchg32 (lock_word l) 0 of (old, new) \<Rightarrow> (old = 1, l\<lparr>lock_word := new\<rparr>))"

section \<open>One processor alone\<close>

partial_function (option) acquire_loop :: "spinlock \<Rightarrow> spinlock option" where
  "acquire_loop l = (case acquire_turn l of (done, l') \<Rightarrow> if done then Some l' else acquire_loop l')"

definition spinlock_acquire_raw :: "u32 \<Rightarrow> spinlock \<Rightarrow> spinlock option" where
  "spinlock_acquire_raw cpu l = map_option (acquire_own cpu) (acquire_loop l)"

definition spinlock_release_raw :: "u32 \<Rightarrow> spinlock \<Rightarrow> spinlock result" where
  "spinlock_release_raw cpu l =
     (if \<not> release_check cpu l then Inl Assertion_failed
      else let l = release_disown l in
        case release_word l of (ok, l') \<Rightarrow> if ok then Inr l' else Inl Assertion_failed)"

text \<open>On a held lock every turn leaves the lock held, so the loop has no result.\<close>

lemma acquire_turn_held: "lock_word l \<noteq> 0 \<Longrightarrow> acquire_turn l = (False, l\<lparr>lock_word := 1\<rparr>)"
  by (simp add: acquire_turn_def xchg32_def)

lemma acquire_loop_Some:
  assumes "acquire_loop l = Some r"
  shows "lock_word l = 0"
proof (rule acquire_loop.raw_induct [where P = "\<lambda>x y. lock_word x = 0", OF _ assms])
  fix f x y assume IH: "\<And>x y. f x = Some y \<Longrightarrow> lock_word x = (0 :: u32)"
    and r: "(case acquire_turn x of (done, l') \<Rightarrow> if done then Some l' else f l') = Some y"
  show "lock_word x = 0"
  proof (rule ccontr)
    assume "lock_word x \<noteq> 0"
    then have "f (x\<lparr>lock_word := 1\<rparr>) = Some y" using r by (simp add: acquire_turn_held)
    from IH [OF this] show False by simp
  qed
qed

section \<open>Interleaved processors\<close>

text \<open>Where a processor stands; \<open>Failed\<close> is a processor whose assertion did not hold.\<close>

datatype lock_pc = Outside | Spinning | Won | Inside | Leaving | Disowned | Failed

type_synonym lock_state = "spinlock \<times> (u32 \<Rightarrow> lock_pc)"

text \<open>
  A processor outside may call \<open>spinlock_acquire_raw\<close>, one inside may call
  \<open>spinlock_release_raw\<close>; between them each step is one access to the lock.
\<close>

inductive lock_step :: "lock_state \<Rightarrow> lock_state \<Rightarrow> bool" where
  call_acquire: "pc c = Outside \<Longrightarrow> lock_step (l, pc) (l, pc(c := Spinning))"
| turn: "pc c = Spinning \<Longrightarrow> acquire_turn l = (won, l') \<Longrightarrow> lock_step (l, pc) (l', pc(c := if won then Won else Spinning))"
| own: "pc c = Won \<Longrightarrow> lock_step (l, pc) (acquire_own c l, pc(c := Inside))"
| check: "pc c = Inside \<Longrightarrow> lock_step (l, pc) (l, pc(c := if release_check c l then Leaving else Failed))"
| disown: "pc c = Leaving \<Longrightarrow> lock_step (l, pc) (release_disown l, pc(c := Disowned))"
| release: "pc c = Disowned \<Longrightarrow> release_word l = (ok, l') \<Longrightarrow> lock_step (l, pc) (l', pc(c := if ok then Outside else Failed))"

inductive_cases lock_stepE: "lock_step (l, pc) s"

definition holding :: "lock_pc \<Rightarrow> bool" where
  "holding p \<longleftrightarrow> p \<in> {Won, Inside, Leaving, Disowned}"

text \<open>
  The lock word is set exactly when a processor holds the lock, no two hold it, the owner field
  names the holder from the moment it is inside, and no assertion has failed.
\<close>

definition lock_inv :: "lock_state \<Rightarrow> bool" where
  "lock_inv s \<longleftrightarrow> (case s of (l, pc) \<Rightarrow>
     lock_word l = (if \<exists>c. holding (pc c) then 1 else 0) \<and>
     (\<forall>c d. holding (pc c) \<longrightarrow> holding (pc d) \<longrightarrow> c = d) \<and>
     (\<forall>c. pc c \<in> {Inside, Leaving} \<longrightarrow> lock_cpu l = c) \<and>
     (\<forall>c. pc c \<noteq> Failed))"

lemma holding_simps [simp]:
  "\<not> holding Outside" "\<not> holding Spinning" "holding Won" "holding Inside" "holding Leaving" "holding Disowned" "\<not> holding Failed"
  by (simp_all add: holding_def)

lemma lock_inv_step:
  assumes "lock_step s s'" "lock_inv s"
  shows "lock_inv s'"
  using assms
proof (induction rule: lock_step.induct)
  case (call_acquire pc c l)
  then have "holding ((pc(c := Spinning)) d) = holding (pc d)" for d by simp
  with call_acquire show ?case by (auto simp: lock_inv_def)
next
  case (turn pc c l won l')
  show ?case
  proof (cases "\<exists>d. holding (pc d)")
    case True
    then have w: "lock_word l = 1" using turn by (simp add: lock_inv_def)
    then have "won = False" "l' = l" using turn.hyps by (cases l, auto simp: acquire_turn_held)+
    moreover have "pc(c := Spinning) = pc" using turn.hyps by auto
    ultimately show ?thesis using turn by simp
  next
    case False
    then have "won" "lock_word l' = 1" using turn by (auto simp: lock_inv_def acquire_turn_def xchg32_def)
    moreover have "holding ((pc(c := Won)) d) \<longleftrightarrow> d = c" for d using False by simp
    ultimately show ?thesis using turn False unfolding lock_inv_def by (auto simp: holding_def)
  qed
next
  case (own pc c l)
  then have "holding ((pc(c := Inside)) d) = holding (pc d)" for d by simp
  with own show ?case by (fastforce simp: lock_inv_def acquire_own_def holding_def)
next
  case (check pc c l)
  then have "\<exists>d. holding (pc d)" by (intro exI [of _ c]) simp
  then have r: "release_check c l" using check by (simp add: lock_inv_def release_check_def)
  have "holding ((pc(c := Leaving)) d) = holding (pc d)" for d using check by simp
  with check r show ?case by (auto simp: lock_inv_def)
next
  case (disown pc c l)
  then have "holding ((pc(c := Disowned)) d) = holding (pc d)" for d by simp
  with disown show ?case by (fastforce simp: lock_inv_def release_disown_def holding_def)
next
  case (release pc c l ok l')
  then have "\<exists>d. holding (pc d)" by (intro exI [of _ c]) simp
  then have "lock_word l = 1" using release by (simp add: lock_inv_def)
  then have w: "ok" "lock_word l' = 0" using release.hyps by (auto simp: release_word_def xchg32_def)
  have "\<not> holding ((pc(c := Outside)) d)" for d using release by (auto simp: lock_inv_def)
  with release w show ?case by (auto simp: lock_inv_def holding_def)
qed

text \<open>
  C22 (mutual exclusion). From an initialised lock with every processor outside, whatever the
  interleaving of the accesses of any number of processors, no two processors are ever between the
  winning exchange and the releasing one, the owner recorded in the lock is the processor inside, and
  neither assertion of the release ever fails.
\<close>

theorem spinlock_excludes:
  assumes "lock_step\<^sup>*\<^sup>* (spinlock_init l, \<lambda>_. Outside) (l', pc)"
  shows "(\<forall>c d. holding (pc c) \<longrightarrow> holding (pc d) \<longrightarrow> c = d) \<and> (\<forall>c. pc c = Inside \<longrightarrow> lock_cpu l' = c) \<and> (\<forall>c. pc c \<noteq> Failed)"
proof -
  have "lock_inv (spinlock_init l, \<lambda>_. Outside)" by (simp add: lock_inv_def spinlock_init_def)
  from assms this have "lock_inv (l', pc)" by (induction rule: rtranclp_induct) (auto intro: lock_inv_step)
  then show ?thesis by (simp add: lock_inv_def)
qed

text \<open>
  C23 (waiting). The acquiring loop returns exactly when the lock is free, and then with the lock taken
  and owned by the caller; releasing it gives the free lock back.  A processor that takes the lock a
  second time, for instance in an interrupt handler that interrupted the holder, never returns.
\<close>

theorem spinlock_acquire_returns:
  "spinlock_acquire_raw c l = (if lock_word l = 0 then Some (l\<lparr>lock_word := 1, lock_cpu := c\<rparr>) else None) \<and>
   spinlock_release_raw c (l\<lparr>lock_word := 1, lock_cpu := c\<rparr>) = Inr (l\<lparr>lock_word := 0, lock_cpu := 0xff\<rparr>) \<and>
   Option.bind (spinlock_acquire_raw c l) (spinlock_acquire_raw c') = None"
proof -
  have held: "spinlock_acquire_raw d k = None" if "lock_word k \<noteq> 0" for d k
    using acquire_loop_Some that by (fastforce simp: spinlock_acquire_raw_def)
  have free: "spinlock_acquire_raw d k = Some (k\<lparr>lock_word := 1, lock_cpu := d\<rparr>)" if "lock_word k = 0" for d k
    using that by (simp add: spinlock_acquire_raw_def acquire_loop.simps acquire_turn_def acquire_own_def xchg32_def)
  have "spinlock_release_raw c (l\<lparr>lock_word := 1, lock_cpu := c\<rparr>) = Inr (l\<lparr>lock_word := 0, lock_cpu := 0xff\<rparr>)"
    by (simp add: spinlock_release_raw_def release_check_def release_disown_def release_word_def xchg32_def)
  then show ?thesis using held free by simp
qed

text \<open>Two processors race for the lock and one of them gets inside.\<close>

definition sample_lock :: spinlock where
  "sample_lock = \<lparr>lock_word = 7, lock_cpu = 7, lock_blob = 7\<rparr>"

lemma race:
  "lock_step\<^sup>*\<^sup>* (spinlock_init l, \<lambda>_. Outside)
     (\<lparr>lock_word = 1, lock_cpu = 3, lock_blob = 0\<rparr>, (\<lambda>_. Outside)(3 := Inside, 5 := Spinning))"
proof -
  let ?l = "\<lambda>w c. \<lparr>lock_word = w, lock_cpu = c, lock_blob = 0\<rparr>" and ?pc = "\<lambda>p q. (\<lambda>_. Outside)(3 := p, 5 := q)"
  note twist = fun_upd_twist [of "5 :: u32" 3]
  have z: "?pc Outside Outside = (\<lambda>_. Outside)" by auto
  have 1: "lock_step (?l 0 0xff, ?pc Outside Outside) (?l 0 0xff, ?pc Spinning Outside)"
    using call_acquire [of "?pc Outside Outside" 3 "?l 0 0xff"] by (simp add: twist)
  have 2: "lock_step (?l 0 0xff, ?pc Spinning Outside) (?l 0 0xff, ?pc Spinning Spinning)"
    using call_acquire [of "?pc Spinning Outside" 5 "?l 0 0xff"] by simp
  have 3: "lock_step (?l 0 0xff, ?pc Spinning Spinning) (?l 1 0xff, ?pc Won Spinning)"
    using turn [of "?pc Spinning Spinning" 3 "?l 0 0xff" True] by (simp add: acquire_turn_def xchg32_def twist)
  have 4: "lock_step (?l 1 0xff, ?pc Won Spinning) (?l 1 0xff, ?pc Won Spinning)"
    using turn [of "?pc Won Spinning" 5 "?l 1 0xff" False] by (simp add: acquire_turn_def xchg32_def)
  have 5: "lock_step (?l 1 0xff, ?pc Won Spinning) (?l 1 3, ?pc Inside Spinning)"
    using own [of "?pc Won Spinning" 3 "?l 1 0xff"] by (simp add: acquire_own_def twist)
  note into = converse_rtranclp_into_rtranclp [of lock_step]
  show ?thesis unfolding spinlock_init_def
    by (rule into [OF 1 [unfolded z] into [OF 2 into [OF 3 into [OF 4 r_into_rtranclp [of lock_step, OF 5]]]]])
qed

theorem spinlock_excludes_witness:
  "\<exists>l pc. lock_step\<^sup>*\<^sup>* (spinlock_init sample_lock, \<lambda>_. Outside) (l, pc) \<and> pc 3 = Inside \<and> pc 5 = Spinning \<and> lock_cpu l = 3"
proof -
  let ?pc = "(\<lambda>_ :: u32. Outside)(3 := Inside, 5 := Spinning)" and ?l = "\<lparr>lock_word = 1, lock_cpu = 3, lock_blob = 0\<rparr>"
  have "?pc 3 = Inside" "?pc 5 = Spinning" by simp_all
  moreover from this(1) have "lock_cpu ?l = 3" using spinlock_excludes [OF race [of sample_lock]] by blast
  ultimately show ?thesis using race [of sample_lock] by blast
qed

end
