(* ===== verification/Spec2Isabelle.thy ===== *)
theory Spec2Isabelle
  imports Boot Guest_Kernel Spinlock
begin

text \<open>
  ZeldaOS.x86_64 is a small 64-bit monitor: it boots on bare hardware, builds its own page tables,
  and runs one guest, the game under \<open>guest/\<close>, inside a virtual machine whose devices it emulates.

  \<^bold>\<open>Conventions.\<close>  Memory is a function from 64-bit addresses to bytes; a structure in memory is read and
  written through little-endian loads and stores, a bit-field through \<open>bf_get\<close> and \<open>bf_set\<close>
  (theory \<open>Zelda_Prelude\<close>).  An operation that can fail returns \<open>fault + 'a\<close>: a failed \<open>ASSERT\<close> is
  \<open>Assertion_failed\<close>, \<open>PANIC_EXIT\<close> is \<open>Panic_exit\<close>, a division by zero \<open>Divide_error\<close>, an access outside
  an object \<open>Wild_access\<close>, a loop that does not end \<open>Not_returned\<close>.  Return codes are integers as in the
  code.  A counted loop is a total function; a loop whose end depends on wrapping arithmetic, on
  memory or on a device is a \<open>partial_function\<close> on options, and the properties prove that it ends.

  \<^bold>\<open>Host memory.\<close>  \<open>Phys_Mem\<close>: the memory list, the page bitmap and the allocator of
  \<open>memory/physical_memory.c\<close>.  \<open>Page_Walk\<close>: trees of page tables over a flat memory, as the locale
  \<open>radix_tables\<close>; it is interpreted for the host's tables in \<open>Paging\<close> and for the guest's in \<open>Ept\<close>.
  \<open>Paging\<close>, \<open>Identity_Map\<close>: \<open>memory/paging.c\<close>.  Shown: the allocator never hands out a page twice; one
  \<open>map_address\<close> changes the translation of exactly its page and writes to table pages only;
  \<open>paging_init\<close> returns with exactly the first 2 GiB mapped onto themselves.

  \<^bold>\<open>Library.\<close>  \<open>Mem_Ops\<close>, \<open>Format\<close>: \<open>lib64/string.c\<close>, \<open>lib64/printk.c\<close>; the two formatters render the
  same text and the digits read back.  \<open>Ring_Buffer\<close>: \<open>lib64/include/ring.h\<close>, a refinement of a bounded
  queue (locale \<open>bounded_queue\<close>).  \<open>Sort_Search\<close>: the macros of \<open>sort.h\<close> and \<open>search.h\<close> for any comparison
  that is an order.

  \<^bold>\<open>Processor.\<close>  \<open>Spinlock\<close>: \<open>x86_64/spinlock.c\<close>, with mutual exclusion for any number of processors and
  any interleaving of their memory accesses.  \<open>Descriptors\<close>: \<open>x86_64/gdt.c\<close>, \<open>x86_64/tss.c\<close> and the
  interrupt gates.

  \<^bold>\<open>Virtual machine.\<close>  \<open>Ept\<close>: \<open>vm_monitor/vmx_ept.c\<close>; a guest reaches only pages given to it.
  \<open>Port_IO\<close>, \<open>Mmio\<close>: the two registries of device callbacks, both interpretations of the locale
  \<open>registry\<close>.  \<open>Vmx_State\<close>: the virtual machine, its control structure and its registers.
  \<open>Devices\<close>: the emulated interrupt controller, timer, keyboard, serial port and screen.
  \<open>Insn_Decode\<close>: the decoder for the instructions that access emulated memory.  \<open>Vmx_Event\<close>:
  interrupt delivery; its runs are lists of exits and guest actions.  \<open>Vmx_Exit\<close>: the exit handlers and
  their dispatch.  \<open>Vmcs_Init\<close>: \<open>vm_monitor/vmx_vmcs.c\<close>, from the allocation of a machine to its guest
  image.  Shown: no requested interrupt is lost and at most one is in flight in every run, every scan
  code reaches the guest in order, a guest store to the screen is decoded and shown, the image is
  where the guest starts.

  \<^bold>\<open>Guest.\<close>  \<open>Guest_Video\<close>, \<open>Tetris\<close>: the screen and the game; no sequence of key presses and timer
  ticks makes the game fail or write outside the screen, and the screen shows the grid and the block.
\<close>

end
